(* ===== verification/Prelude.thy ===== *)
theory Prelude
  imports Main "HOL-Library.Word"
begin

text \<open>
  Shared vocabulary and automation. Identifiers are 128-bit words, as \<open>uuid.UUID\<close> is a 128-bit
  integer; instants and durations are integers counting microseconds, the resolution of
  \<open>timedelta\<close> and of a Postgres \<open>timestamptz\<close>. A SQL table is the list of its rows: an
  \<open>update ... where\<close> maps over it and an \<open>update ... returning\<close> also answers the rows it wrote.
  An operation that can raise returns a sum, with the exception on the left; \<open>bindE\<close> sequences two
  of them and the first exception wins, so a transaction that raises commits nothing.
\<close>

type_synonym uuid = "128 word"
type_synonym time = int

named_theorems table_simps
named_theorems result_simps

subsection \<open>Exceptions as values\<close>

definition bindE :: "'e + 'a \<Rightarrow> ('a \<Rightarrow> 'e + 'b) \<Rightarrow> 'e + 'b" where
  "bindE m f = (case m of Inl e \<Rightarrow> Inl e | Inr x \<Rightarrow> f x)"

lemma bindE_simps [simp]:
  "bindE (Inl e) f = Inl e"
  "bindE (Inr x) f = f x"
  by (simp_all add: bindE_def)

lemma bindE_eq_Inr [result_simps]:
  "bindE m f = Inr y \<longleftrightarrow> (\<exists>x. m = Inr x \<and> f x = Inr y)"
  by (cases m) simp_all

lemma bindE_eq_Inl [result_simps]:
  "bindE m f = Inl e \<longleftrightarrow> m = Inl e \<or> (\<exists>x. m = Inr x \<and> f x = Inl e)"
  by (cases m) simp_all

lemma bindE_assoc: "bindE (bindE m f) g = bindE m (\<lambda>x. bindE (f x) g)"
  by (cases m) simp_all

fun foldE :: "('s \<Rightarrow> 'a \<Rightarrow> 'e + 's) \<Rightarrow> 's \<Rightarrow> 'a list \<Rightarrow> 'e + 's" where
  "foldE f s [] = Inr s"
| "foldE f s (x # xs) = bindE (f s x) (\<lambda>s'. foldE f s' xs)"

subsection \<open>Tables as lists of rows\<close>

definition update_where :: "('r \<Rightarrow> bool) \<Rightarrow> ('r \<Rightarrow> 'r) \<Rightarrow> 'r list \<Rightarrow> 'r list" where
  "update_where P f rows = map (\<lambda>r. if P r then f r else r) rows"

definition returning :: "('r \<Rightarrow> bool) \<Rightarrow> ('r \<Rightarrow> 'r) \<Rightarrow> 'r list \<Rightarrow> 'r list" where
  "returning P f rows = map f (filter P rows)"

lemma update_where_simps [simp]:
  "update_where P f [] = []"
  "update_where P f (r # rows) = (if P r then f r else r) # update_where P f rows"
  by (simp_all add: update_where_def)

lemma returning_simps [simp]:
  "returning P f [] = []"
  "returning P f (r # rows) = (if P r then f r # returning P f rows else returning P f rows)"
  by (simp_all add: returning_def)

lemma length_update_where [simp]: "length (update_where P f rows) = length rows"
  by (simp add: update_where_def)

lemma set_update_where:
  "set (update_where P f rows) = {f r | r. r \<in> set rows \<and> P r} \<union> {r \<in> set rows. \<not> P r}"
  by (auto simp: update_where_def)

lemma in_update_whereE:
  assumes "x \<in> set (update_where P f rows)"
  obtains (hit) r where "r \<in> set rows" "P r" "x = f r"
  | (kept) "x \<in> set rows" "\<not> P x"
  using assms by (auto simp: set_update_where)

lemma set_returning: "set (returning P f rows) = f ` {r \<in> set rows. P r}"
  by (auto simp: returning_def)

lemma map_update_where_key [table_simps]:
  assumes "\<And>r. r \<in> set rows \<Longrightarrow> P r \<Longrightarrow> k (f r) = k r"
  shows "map k (update_where P f rows) = map k rows"
  using assms by (simp add: update_where_def)

lemma returning_Nil_iff [table_simps]:
  "returning P f rows = [] \<longleftrightarrow> (\<forall>r \<in> set rows. \<not> P r)"
  by (auto simp: returning_def filter_empty_conv)

lemma update_where_none [table_simps]:
  assumes "\<forall>r \<in> set rows. \<not> P r"
  shows "update_where P f rows = rows"
  using assms by (induction rows) auto

lemma returning_ConsD:
  assumes "returning P f rows = x # xs"
  obtains r where "r \<in> set rows" "P r" "x = f r"
proof -
  have "x \<in> set (returning P f rows)" by (simp add: assms)
  with that show ?thesis by (auto simp: set_returning)
qed

subsection \<open>Lookup by a unique key\<close>

lemma distinct_key_eq:
  assumes "distinct (map k rows)" "a \<in> set rows" "b \<in> set rows" "k a = k b"
  shows "a = b"
  using assms by (auto simp: distinct_map dest: inj_onD)

lemma find_key_Some:
  assumes "distinct (map k rows)" "r \<in> set rows"
  shows "find (\<lambda>x. k x = k r) rows = Some r"
  using assms by (induction rows) auto

lemma filter_unique:
  assumes "distinct (map k rows)" "r \<in> set rows" "P r" "\<forall>x. P x \<longrightarrow> k x = k r"
  shows "filter P rows = [r]"
  using assms(1,2)
proof (induction rows)
  case Nil
  then show ?case by simp
next
  case (Cons a rows)
  show ?case
  proof (cases "r = a")
    case True
    with Cons.prems have "k r \<notin> k ` set rows" by simp
    with assms(4) have "\<forall>x \<in> set rows. \<not> P x" by (metis image_eqI)
    with True assms(3) show ?thesis by (simp add: filter_empty_conv)
  next
    case False
    with Cons.prems have "r \<in> set rows" "k a \<noteq> k r" by auto
    with assms(4) have "\<not> P a" by blast
    with False Cons show ?thesis by simp
  qed
qed

lemma returning_unique:
  assumes "distinct (map k rows)" "r \<in> set rows" "P r" "\<forall>x. P x \<longrightarrow> k x = k r"
  shows "returning P f rows = [f r]"
  using filter_unique [OF assms] by (simp add: returning_def)

lemma returning_at_most_one:
  assumes "distinct (map k rows)" "\<And>x. P x \<Longrightarrow> k x = c"
  shows "length (returning P f rows) \<le> 1"
  using assms
proof (induction rows)
  case Nil
  then show ?case by simp
next
  case (Cons a rows)
  show ?case
  proof (cases "P a")
    case True
    with Cons.prems have "\<forall>x \<in> set rows. \<not> P x" by force
    then have "returning P f rows = []" by (simp add: returning_Nil_iff)
    with True show ?thesis by simp
  next
    case False
    with Cons show ?thesis by simp
  qed
qed

lemma find_SomeD: "find P xs = Some x \<Longrightarrow> x \<in> set xs \<and> P x"
  by (auto simp: find_Some_iff)

subsection \<open>Decimal text\<close>

fun nat_digits :: "nat \<Rightarrow> string" where
  "nat_digits n = (if n < 10 then [''0123456789'' ! n]
                   else nat_digits (n div 10) @ [''0123456789'' ! (n mod 10)])"

declare nat_digits.simps [simp del]

definition int_text :: "int \<Rightarrow> string" where
  "int_text n = (if n < 0 then CHR ''-'' # nat_digits (nat (- n)) else nat_digits (nat n))"

end
