(* ===== verification/Jobs.thy ===== *)
theory Jobs
  imports Complex_Main Prelude
begin

text \<open>
  \<open>core/jobs.py\<close>: the vocabulary of the job queue. A state, a request, a job, a lease and an event
  of the session log, each with the source's fields; the enumeration's string values; and the
  state diagram of \<open>docs/jobs.md\<close> as the relation \<open>legal\<close>, which the store is shown to follow.
\<close>

subsection \<open>Payloads\<close>

text \<open>A payload is the JSON-shaped dictionary the queue carries without looking inside.\<close>

datatype json =
    JNull
  | JBool bool
  | JInt int
  | JReal rat
  | JStr string
  | JArr "json list"
  | JObj "(string \<times> json) list"

type_synonym payload = "(string \<times> json) list"

subsection \<open>States\<close>

datatype job_state = QUEUED | RUNNING | DONE | FAILED | DEAD | CANCELLED

instantiation job_state :: enum
begin
definition enum_job_state :: "job_state list" where
  "enum_job_state = [QUEUED, RUNNING, DONE, FAILED, DEAD, CANCELLED]"
definition enum_all_job_state :: "(job_state \<Rightarrow> bool) \<Rightarrow> bool" where
  "enum_all_job_state P \<longleftrightarrow> P QUEUED \<and> P RUNNING \<and> P DONE \<and> P FAILED \<and> P DEAD \<and> P CANCELLED"
definition enum_ex_job_state :: "(job_state \<Rightarrow> bool) \<Rightarrow> bool" where
  "enum_ex_job_state P \<longleftrightarrow> P QUEUED \<or> P RUNNING \<or> P DONE \<or> P FAILED \<or> P DEAD \<or> P CANCELLED"
instance
proof
  show univ: "(UNIV :: job_state set) = set enum_class.enum"
    by (auto simp: enum_job_state_def intro: job_state.exhaust)
  show "distinct (enum_class.enum :: job_state list)"
    by (simp add: enum_job_state_def)
  fix P :: "job_state \<Rightarrow> bool"
  show "enum_class.enum_all P \<longleftrightarrow> Ball UNIV P"
    by (metis UNIV_I enum_all_job_state_def job_state.exhaust)
  show "enum_class.enum_ex P \<longleftrightarrow> Bex UNIV P"
    by (metis UNIV_I enum_ex_job_state_def job_state.exhaust)
qed
end

fun state_value :: "job_state \<Rightarrow> string" where
  "state_value QUEUED = ''queued''"
| "state_value RUNNING = ''running''"
| "state_value DONE = ''done''"
| "state_value FAILED = ''failed''"
| "state_value DEAD = ''dead''"
| "state_value CANCELLED = ''cancelled''"

definition state_of_value :: "string \<Rightarrow> job_state option" where
  "state_of_value v = find (\<lambda>s. state_value s = v) enum_class.enum"

fun terminal :: "job_state \<Rightarrow> bool" where
  "terminal DONE = True"
| "terminal DEAD = True"
| "terminal CANCELLED = True"
| "terminal _ = False"

lemma terminal_iff: "terminal s \<longleftrightarrow> s = DONE \<or> s = DEAD \<or> s = CANCELLED"
  by (cases s) simp_all

fun legal :: "job_state \<Rightarrow> job_state \<Rightarrow> bool" where
  "legal QUEUED t = (t = RUNNING \<or> t = CANCELLED)"
| "legal FAILED t = (t = RUNNING \<or> t = CANCELLED)"
| "legal RUNNING t = (t \<noteq> QUEUED)"
| "legal s t = False"

lemma state_of_value_roundtrip: "state_of_value (state_value s) = Some s"
  by (cases s) (simp_all add: state_of_value_def enum_job_state_def)

lemma state_of_value_Some: "state_of_value v = Some s \<Longrightarrow> state_value s = v"
  by (auto simp: state_of_value_def find_Some_iff)

lemma legal_terminal: "terminal s \<Longrightarrow> \<not> legal s t"
  by (cases s) auto

lemma legal_progress: "\<not> terminal s \<Longrightarrow> legal s CANCELLED"
  by (cases s) auto

subsection \<open>Requests, jobs, leases, events\<close>

record job_request =
  req_kind :: string
  req_payload :: payload
  req_session_id :: "uuid option"
  req_idempotency_key :: string
  req_max_attempts :: int
  req_delay :: time

record job =
  job_id :: uuid
  kind :: string
  payload :: payload
  state :: job_state
  attempts :: int
  max_attempts :: int
  session_id :: "uuid option"
  idempotency_key :: string
  result_ref :: "string option"
  error :: "string option"
  cancel_requested :: bool

record lease =
  l_id :: uuid
  l_job :: job
  l_owner :: string
  l_expires_at :: time

record job_event =
  ev_seq :: int
  ev_job_id :: uuid
  ev_state :: job_state

definition request :: "string \<Rightarrow> payload \<Rightarrow> uuid option \<Rightarrow> string \<Rightarrow> job_request" where
  "request k p sid key =
     \<lparr>req_kind = k, req_payload = p, req_session_id = sid, req_idempotency_key = key,
      req_max_attempts = 3, req_delay = 0\<rparr>"

definition expired :: "lease \<Rightarrow> time \<Rightarrow> bool" where
  "expired l now \<longleftrightarrow> l_expires_at l \<le> now"

subsection \<open>Histories that follow the state diagram\<close>

fun path :: "job_state list \<Rightarrow> bool" where
  "path [] = False"
| "path [s] = (s = QUEUED)"
| "path (s # t # ts) = (s = QUEUED \<and> successively legal (s # t # ts))"

lemma path_iff: "path xs \<longleftrightarrow> xs \<noteq> [] \<and> hd xs = QUEUED \<and> successively legal xs"
  by (cases xs rule: path.cases) auto

lemma path_snoc: "path (xs @ [t]) \<longleftrightarrow> (xs = [] \<and> t = QUEUED) \<or> (path xs \<and> legal (last xs) t)"
  by (cases "xs = []") (auto simp: path_iff successively_append_iff)

lemma path_extend: "path xs \<Longrightarrow> legal (last xs) t \<Longrightarrow> path (xs @ [t])"
  by (simp add: path_snoc)

lemma path_terminal_last:
  assumes "path xs" "i < length xs" "terminal (xs ! i)"
  shows "Suc i = length xs"
proof (rule ccontr)
  assume "Suc i \<noteq> length xs"
  with assms(2) have "Suc i < length xs" by simp
  with assms(1) have "legal (xs ! i) (xs ! Suc i)"
    by (simp add: path_iff successively_conv_nth)
  with assms(3) show False by (simp add: legal_terminal)
qed

lemma path_done_once: "path xs \<Longrightarrow> count_list xs DONE \<le> 1"
proof -
  assume p: "path xs"
  show ?thesis
  proof (cases "DONE \<in> set xs")
    case True
    then obtain i where i: "i < length xs" "xs ! i = DONE" by (auto simp: in_set_conv_nth)
    with p have "Suc i = length xs" by (auto dest!: path_terminal_last)
    with i have split: "xs = butlast xs @ [DONE]"
      by (metis append_butlast_last_id diff_Suc_1 last_conv_nth list.size(3) not_less_zero)
    have "DONE \<notin> set (butlast xs)"
    proof
      assume "DONE \<in> set (butlast xs)"
      then obtain j where j: "j < length (butlast xs)" "butlast xs ! j = DONE"
        by (auto simp: in_set_conv_nth)
      then have "j < length xs" "xs ! j = DONE" by (simp_all add: nth_butlast)
      with p have "Suc j = length xs" by (auto dest!: path_terminal_last)
      with j show False by simp
    qed
    then have "count_list (butlast xs) DONE = 0" by (simp add: count_list_0_iff)
    then have "count_list (butlast xs @ [DONE]) DONE \<le> 1" by simp
    then show ?thesis using split by metis
  next
    case False
    then have "count_list xs DONE = 0" by (simp add: count_list_0_iff)
    then show ?thesis by simp
  qed
qed

end
