(* ===== verification/Messages.thy ===== *)
theory Messages
  imports Jobs
begin

text \<open>
  \<open>core/chat_repository.py\<close>: who produced a message, where it is in its life, the row the wire
  sees, and an entry of the session log, which is a message or a job transition.
\<close>

datatype role = USER | ASSISTANT

datatype status = STREAMING | COMPLETE | MSG_FAILED

fun role_value :: "role \<Rightarrow> string" where
  "role_value USER = ''user''"
| "role_value ASSISTANT = ''assistant''"

fun status_value :: "status \<Rightarrow> string" where
  "status_value STREAMING = ''streaming''"
| "status_value COMPLETE = ''complete''"
| "status_value MSG_FAILED = ''failed''"

record stored_message =
  seq :: int
  message_id :: uuid
  msg_role :: role
  msg_status :: status
  msg_text :: string

record recorded_user_message =
  rec_message :: stored_message
  rec_created :: bool

datatype log_entry = LogMessage stored_message | LogEvent job_event

fun entry_seq :: "log_entry \<Rightarrow> int" where
  "entry_seq (LogMessage m) = seq m"
| "entry_seq (LogEvent e) = ev_seq e"

end
