(* ===== verification/Tables.thy ===== *)
theory Tables
  imports Messages
begin

text \<open>
  \<open>adapters/postgres/tables.py\<close> and \<open>adapters/postgres/seq.py\<close>: the four tables, the constraints
  that decide whether a row may be written, and the per-session allocator both halves of the session
  log draw their numbers from. A row record extends the value the adapters build from it, so
  selecting the columns of a \<open>Job\<close>, a \<open>StoredMessage\<close> or a \<open>JobEvent\<close> is the record's \<open>truncate\<close>.
  The internal \<open>bigint identity\<close> keys are left out: nothing reads them, and the position of a row in
  its list is the order in which the rows were committed. Every text fits its column: that Postgres
  refuses one with a NUL in it is left out.
\<close>

subsection \<open>Rows\<close>

record chat_session =
  next_seq :: int
  session_created_at :: time
  last_seen_at :: time

record message_row = stored_message +
  msg_session :: uuid
  client_msg_id :: "string option"
  msg_created_at :: time
  completed_at :: "time option"

record job_row = job +
  run_after :: time
  published_at :: "time option"
  lease_id :: "uuid option"
  lease_expires_at :: "time option"
  lease_owner :: "string option"
  created_at :: time
  updated_at :: time

record event_row = job_event +
  ev_session :: uuid
  ev_created_at :: time

record db =
  chat_sessions :: "uuid \<Rightarrow> chat_session option"
  chat_messages :: "message_row list"
  jobs :: "job_row list"
  job_events :: "event_row list"

definition empty_db :: db where
  "empty_db = \<lparr>chat_sessions = (\<lambda>_. None), chat_messages = [], jobs = [], job_events = []\<rparr>"

subsection \<open>Constraints\<close>

datatype db_error =
    LookupError uuid
  | StaleLease uuid uuid
  | IntegrityError
  | DataError
  | NoResultFound

type_synonym 'a txn = "db \<Rightarrow> db_error + ('a \<times> db)"

definition int4_max :: int where
  "int4_max = 2147483647"

definition int4 :: "int \<Rightarrow> bool" where
  "int4 n \<longleftrightarrow> - int4_max - 1 \<le> n \<and> n \<le> int4_max"

definition lease_is_whole :: "'a job_row_scheme \<Rightarrow> bool" where
  "lease_is_whole r \<longleftrightarrow> (lease_id r = None) = (lease_expires_at r = None)"

definition attempts_sane :: "'a job_scheme \<Rightarrow> bool" where
  "attempts_sane r \<longleftrightarrow> 0 \<le> attempts r \<and> 0 < max_attempts r"

definition client_msg_id_matches_role :: "message_row \<Rightarrow> bool" where
  "client_msg_id_matches_role m \<longleftrightarrow> (msg_role m = USER) = (client_msg_id m \<noteq> None)"

definition dedup_key :: "'a job_scheme \<Rightarrow> uuid option \<times> string" where
  "dedup_key r = (session_id r, idempotency_key r)"

subsection \<open>The sequence allocator\<close>

definition allocate_seq :: "time \<Rightarrow> uuid \<Rightarrow> int txn" where
  "allocate_seq now sid db =
     (case chat_sessions db sid of
        None \<Rightarrow> Inl (LookupError sid)
      | Some c \<Rightarrow>
          let c' = c\<lparr>next_seq := next_seq c + 1, last_seen_at := now\<rparr>
          in Inr (next_seq c' - 1, db\<lparr>chat_sessions := (chat_sessions db)(sid \<mapsto> c')\<rparr>))"

lemma allocate_seq_Inr:
  "allocate_seq now sid db = Inr (n, db') \<longleftrightarrow>
     (\<exists>c. chat_sessions db sid = Some c \<and> n = next_seq c \<and>
        db' = db\<lparr>chat_sessions := (chat_sessions db)
                   (sid \<mapsto> c\<lparr>next_seq := next_seq c + 1, last_seen_at := now\<rparr>)\<rparr>)"
  by (auto simp: allocate_seq_def Let_def split: option.splits)

lemma allocate_seq_known:
  "chat_sessions db sid \<noteq> None \<Longrightarrow> \<exists>n db'. allocate_seq now sid db = Inr (n, db')"
  by (auto simp: allocate_seq_def Let_def)

subsection \<open>The log of a session\<close>

definition messages_of :: "db \<Rightarrow> uuid \<Rightarrow> message_row list" where
  "messages_of db sid = filter (\<lambda>m. msg_session m = sid) (chat_messages db)"

definition events_of :: "db \<Rightarrow> uuid \<Rightarrow> event_row list" where
  "events_of db sid = filter (\<lambda>e. ev_session e = sid) (job_events db)"

definition log_seqs :: "db \<Rightarrow> uuid \<Rightarrow> int list" where
  "log_seqs db sid = map seq (messages_of db sid) @ map ev_seq (events_of db sid)"

text \<open>
  The session log has no gap and no duplicate: the numbers its two tables hold are together exactly
  those the allocator has handed out, and each table holds its half in increasing order.
\<close>

definition session_log_ok :: "db \<Rightarrow> uuid \<Rightarrow> bool" where
  "session_log_ok db sid \<longleftrightarrow>
     (case chat_sessions db sid of
        None \<Rightarrow> messages_of db sid = [] \<and> events_of db sid = []
      | Some c \<Rightarrow> distinct (log_seqs db sid) \<and> set (log_seqs db sid) = {1..<next_seq c} \<and>
          sorted_wrt (<) (map seq (messages_of db sid)) \<and>
          sorted_wrt (<) (map ev_seq (events_of db sid)) \<and> 1 \<le> next_seq c)"

definition log_ok :: "db \<Rightarrow> bool" where
  "log_ok db \<longleftrightarrow> (\<forall>sid. session_log_ok db sid)"

lemma log_seqs_below:
  assumes "session_log_ok db sid" "chat_sessions db sid = Some c" "n \<in> set (log_seqs db sid)"
  shows "n < next_seq c"
  using assms by (auto simp: session_log_ok_def)

lemma sorted_wrt_snoc_less:
  "sorted_wrt (<) (xs @ [n::int]) \<longleftrightarrow> sorted_wrt (<) xs \<and> (\<forall>x \<in> set xs. x < n)"
  by (auto simp: sorted_wrt_append)

definition log_append_event :: "event_row \<Rightarrow> db \<Rightarrow> db" where
  "log_append_event e db = db\<lparr>job_events := job_events db @ [e]\<rparr>"

definition log_append_message :: "message_row \<Rightarrow> db \<Rightarrow> db" where
  "log_append_message m db = db\<lparr>chat_messages := chat_messages db @ [m]\<rparr>"

lemmas log_defs = session_log_ok_def log_seqs_def messages_of_def events_of_def
  log_append_event_def log_append_message_def

lemma interval_Suc: "1 \<le> n \<Longrightarrow> {1..<n + 1} = insert n {1..<n::int}"
  by auto

lemma log_ok_allocate_event:
  assumes ok: "log_ok db" and alloc: "allocate_seq now sid db = Inr (n, db')"
    and e: "ev_session e = sid" "ev_seq e = n"
  shows "log_ok (log_append_event e db')"
  unfolding log_ok_def
proof
  fix s
  obtain c where c: "chat_sessions db sid = Some c" "n = next_seq c"
      and db': "db' = db\<lparr>chat_sessions := (chat_sessions db)
                   (sid \<mapsto> c\<lparr>next_seq := next_seq c + 1, last_seen_at := now\<rparr>)\<rparr>"
    using alloc by (auto simp: allocate_seq_Inr)
  have s: "session_log_ok db s" using ok by (simp add: log_ok_def)
  show "session_log_ok (log_append_event e db') s"
  proof (cases "s = sid")
    case False
    with s e show ?thesis by (simp add: db' log_defs split: option.splits)
  next
    case True
    with s c have below: "\<forall>x \<in> set (log_seqs db sid). x < n"
      by (auto dest: log_seqs_below)
    have "n \<notin> set (log_seqs db sid)" using below by blast
    then show ?thesis
      using s True c e below interval_Suc [of n]
      by (auto simp: db' log_defs sorted_wrt_append)
  qed
qed

lemma log_ok_allocate_message:
  assumes ok: "log_ok db" and alloc: "allocate_seq now sid db = Inr (n, db')"
    and m: "msg_session m = sid" "seq m = n"
  shows "log_ok (log_append_message m db')"
  unfolding log_ok_def
proof
  fix s
  obtain c where c: "chat_sessions db sid = Some c" "n = next_seq c"
      and db': "db' = db\<lparr>chat_sessions := (chat_sessions db)
                   (sid \<mapsto> c\<lparr>next_seq := next_seq c + 1, last_seen_at := now\<rparr>)\<rparr>"
    using alloc by (auto simp: allocate_seq_Inr)
  have s: "session_log_ok db s" using ok by (simp add: log_ok_def)
  show "session_log_ok (log_append_message m db') s"
  proof (cases "s = sid")
    case False
    with s m show ?thesis by (simp add: db' log_defs split: option.splits)
  next
    case True
    with s c have below: "\<forall>x \<in> set (log_seqs db sid). x < n"
      by (auto dest: log_seqs_below)
    have "n \<notin> set (log_seqs db sid)" using below by blast
    then show ?thesis
      using s True c m below interval_Suc [of n]
      by (auto simp: db' log_defs sorted_wrt_append)
  qed
qed

lemma log_ok_jobs [simp]: "log_ok (db\<lparr>jobs := js\<rparr>) \<longleftrightarrow> log_ok db"
  by (simp add: log_ok_def log_defs split: option.splits)

lemma log_ok_empty: "log_ok empty_db"
  by (simp add: log_ok_def log_defs empty_db_def)

end
