(* ===== verification/Job_Store.thy ===== *)
theory Job_Store
  imports Tables
begin

text \<open>
  \<open>adapters/postgres/job_store.py\<close>: every statement against \<open>jobs\<close>. Each operation is one
  transaction on the database value: \<open>Inr (result, db')\<close> when it commits, \<open>Inl e\<close> when it raises,
  which leaves nothing behind. \<open>now\<close> is the transaction's \<open>now()\<close>; a fresh \<open>uuid4\<close> is an argument.
  Every change of state goes through \<open>record_event\<close>, in the same transaction.
\<close>

subsection \<open>What a row is, to the claim path\<close>

definition waiting :: "time \<Rightarrow> job_row \<Rightarrow> bool" where
  "waiting now r \<longleftrightarrow> (state r = QUEUED \<or> state r = FAILED) \<and> run_after r \<le> now"

definition lease_before :: "time \<Rightarrow> job_row \<Rightarrow> bool" where
  "lease_before now r \<longleftrightarrow> (case lease_expires_at r of None \<Rightarrow> False | Some e \<Rightarrow> e < now)"

definition lapsed :: "time \<Rightarrow> job_row \<Rightarrow> bool" where
  "lapsed now r \<longleftrightarrow>
     state r = RUNNING \<and> lease_before now r \<and> attempts r < max_attempts r \<and> \<not> cancel_requested r"

definition lapsed_for_good :: "time \<Rightarrow> job_row \<Rightarrow> bool" where
  "lapsed_for_good now r \<longleftrightarrow>
     state r = RUNNING \<and> lease_before now r \<and> (max_attempts r \<le> attempts r \<or> cancel_requested r)"

definition fencing :: "lease \<Rightarrow> job_row \<Rightarrow> bool" where
  "fencing l r \<longleftrightarrow> job_id r = job_id (l_job l) \<and> lease_id r = Some (l_id l)"

definition to_job :: "job_row \<Rightarrow> job" where
  "to_job r = job.truncate r"

definition lease_expired :: string where
  "lease_expired = ''lease expired with no attempts remaining''"

subsection \<open>What each statement writes into a row\<close>

definition released :: "time \<Rightarrow> job_row \<Rightarrow> job_row" where
  "released now r =
     r\<lparr>lease_id := None, lease_expires_at := None, lease_owner := None, updated_at := now\<rparr>"

definition claimed_row :: "time \<Rightarrow> uuid \<Rightarrow> string \<Rightarrow> time \<Rightarrow> job_row \<Rightarrow> job_row" where
  "claimed_row now token owner dur r =
     r\<lparr>state := RUNNING, attempts := attempts r + 1, lease_id := Some token,
       lease_expires_at := Some (now + dur), lease_owner := Some owner, updated_at := now\<rparr>"

definition extended_row :: "time \<Rightarrow> time \<Rightarrow> job_row \<Rightarrow> job_row" where
  "extended_row now dur r = r\<lparr>lease_expires_at := Some (now + dur), updated_at := now\<rparr>"

definition acked_row :: "time \<Rightarrow> string option \<Rightarrow> job_row \<Rightarrow> job_row" where
  "acked_row now ref r = released now (r\<lparr>state := DONE, result_ref := ref\<rparr>)"

definition nack_state :: "'a job_scheme \<Rightarrow> job_state" where
  "nack_state r = (if cancel_requested r then CANCELLED
                   else if max_attempts r \<le> attempts r then DEAD else FAILED)"

definition nacked_row :: "time \<Rightarrow> string \<Rightarrow> time option \<Rightarrow> job_row \<Rightarrow> job_row" where
  "nacked_row now err retry_in r =
     released now
       (r\<lparr>state := nack_state r, error := Some err,
          run_after := now + (case retry_in of None \<Rightarrow> 0 | Some d \<Rightarrow> d),
          published_at := (if \<not> cancel_requested r \<and> attempts r < max_attempts r then None
                           else published_at r)\<rparr>)"

definition cancelled_row :: "time \<Rightarrow> job_row \<Rightarrow> job_row" where
  "cancelled_row now r =
     r\<lparr>cancel_requested := True,
       state := (if state r = RUNNING then RUNNING else CANCELLED), updated_at := now\<rparr>"

definition retired_row :: "time \<Rightarrow> job_row \<Rightarrow> job_row" where
  "retired_row now r =
     released now
       (r\<lparr>state := (if cancel_requested r then CANCELLED else DEAD),
          error := (if cancel_requested r then error r
                    else case error r of None \<Rightarrow> Some lease_expired | Some e \<Rightarrow> Some e)\<rparr>)"

definition published_row :: "time \<Rightarrow> job_row \<Rightarrow> job_row" where
  "published_row now r = r\<lparr>published_at := Some now, updated_at := now\<rparr>"

subsection \<open>The session log\<close>

definition insert_job_event :: "event_row \<Rightarrow> db \<Rightarrow> db_error + db" where
  "insert_job_event e db =
     (if (\<exists>x \<in> set (job_events db). ev_session x = ev_session e \<and> ev_seq x = ev_seq e)
         \<or> ev_job_id e \<notin> set (map job_id (jobs db))
         \<or> chat_sessions db (ev_session e) = None
      then Inl IntegrityError
      else Inr (log_append_event e db))"

definition record_event :: "time \<Rightarrow> 'a job_scheme \<Rightarrow> db \<Rightarrow> db_error + db" where
  "record_event now row db =
     (case session_id row of
        None \<Rightarrow> Inr db
      | Some sid \<Rightarrow>
          bindE (allocate_seq now sid db) (\<lambda>(n, db1).
            insert_job_event
              \<lparr>ev_seq = n, ev_job_id = job_id row, ev_state = state row,
               ev_session = sid, ev_created_at = now\<rparr> db1))"

subsection \<open>Producing\<close>

definition new_row :: "time \<Rightarrow> uuid \<Rightarrow> job_request \<Rightarrow> job_row" where
  "new_row now new_id req =
     \<lparr>job_id = new_id, kind = req_kind req, payload = req_payload req, state = QUEUED,
      attempts = 0, max_attempts = req_max_attempts req, session_id = req_session_id req,
      idempotency_key = req_idempotency_key req, result_ref = None, error = None,
      cancel_requested = False, run_after = now + req_delay req, published_at = None,
      lease_id = None, lease_expires_at = None, lease_owner = None,
      created_at = now, updated_at = now\<rparr>"

text \<open>
  A \<open>max_attempts\<close> outside \<open>integer\<close> is refused when the parameter is bound; the check constraints
  run before the conflict clause; \<open>on conflict do nothing\<close> covers the named constraint only, so a
  repeated primary key or a session that does not exist still raises.
\<close>

definition insert_or_get :: "time \<Rightarrow> uuid \<Rightarrow> job_request \<Rightarrow> (job \<times> bool) txn" where
  "insert_or_get now new_id req db =
     (let row = new_row now new_id req in
      if \<not> int4 (max_attempts row) then Inl DataError
      else if \<not> (attempts_sane row \<and> lease_is_whole row) then Inl IntegrityError
      else case find (\<lambda>r. dedup_key r = dedup_key row) (jobs db) of
        Some existing \<Rightarrow> Inr ((to_job existing, False), db)
      | None \<Rightarrow>
          if new_id \<in> set (map job_id (jobs db))
             \<or> (case session_id row of None \<Rightarrow> False | Some s \<Rightarrow> chat_sessions db s = None)
          then Inl IntegrityError
          else bindE (record_event now row (db\<lparr>jobs := jobs db @ [row]\<rparr>))
                 (\<lambda>db'. Inr ((to_job row, True), db')))"

definition mark_published :: "time \<Rightarrow> uuid \<Rightarrow> unit txn" where
  "mark_published now jid db =
     Inr ((), db\<lparr>jobs := update_where (\<lambda>r. job_id r = jid) (published_row now) (jobs db)\<rparr>)"

definition get :: "uuid \<Rightarrow> db \<Rightarrow> job option" where
  "get jid db = map_option to_job (find (\<lambda>r. job_id r = jid) (jobs db))"

definition cancel :: "time \<Rightarrow> uuid \<Rightarrow> job option txn" where
  "cancel now jid db =
     (let P = (\<lambda>r. job_id r = jid \<and> \<not> terminal (state r));
          db1 = db\<lparr>jobs := update_where P (cancelled_row now) (jobs db)\<rparr>
      in case returning P (cancelled_row now) (jobs db) of
           [] \<Rightarrow> Inr (get jid db1, db1)
         | row # _ \<Rightarrow>
             bindE (if state row \<noteq> RUNNING then record_event now row db1 else Inr db1)
               (\<lambda>db'. Inr (Some (to_job row), db')))"

subsection \<open>Consuming\<close>

definition claim :: "time \<Rightarrow> uuid \<Rightarrow> uuid \<Rightarrow> string \<Rightarrow> time \<Rightarrow> lease option txn" where
  "claim now token jid owner dur db =
     (let P = (\<lambda>r. job_id r = jid \<and> (waiting now r \<or> lapsed now r));
          f = claimed_row now token owner dur;
          db1 = db\<lparr>jobs := update_where P f (jobs db)\<rparr>
      in case returning P f (jobs db) of
           [] \<Rightarrow> Inr (None, db1)
         | row # _ \<Rightarrow>
             bindE (record_event now row db1) (\<lambda>db'.
               Inr (Some \<lparr>l_id = token, l_job = to_job row, l_owner = owner,
                          l_expires_at = now + dur\<rparr>, db')))"

definition lapsed_reservable :: "time \<Rightarrow> db \<Rightarrow> uuid list" where
  "lapsed_reservable now db = map job_id (filter (lapsed now) (jobs db))"

definition session_key :: "'a job_scheme \<Rightarrow> int" where
  "session_key r = (case session_id r of Some s \<Rightarrow> uint s | None \<Rightarrow> 2 ^ 128)"

definition retire_lapsed :: "time \<Rightarrow> uuid list txn" where
  "retire_lapsed now db =
     (let rows = returning (lapsed_for_good now) (retired_row now) (jobs db);
          db1 = db\<lparr>jobs := update_where (lapsed_for_good now) (retired_row now) (jobs db)\<rparr>
      in bindE (foldE (\<lambda>s row. record_event now row s) db1 (sort_key session_key rows))
           (\<lambda>db'. Inr (map job_id rows, db')))"

definition unpublished :: "time \<Rightarrow> time \<Rightarrow> db \<Rightarrow> uuid list" where
  "unpublished now older_than db =
     map job_id (filter (\<lambda>r. published_at r = None \<and> (state r = QUEUED \<or> state r = FAILED)
                            \<and> run_after r < now - older_than) (jobs db))"

subsection \<open>Finishing\<close>

definition stale_lease :: "lease \<Rightarrow> db_error" where
  "stale_lease l = StaleLease (l_id l) (job_id (l_job l))"

definition extend :: "time \<Rightarrow> lease \<Rightarrow> time \<Rightarrow> lease txn" where
  "extend now l dur db =
     (let f = extended_row now dur;
          db1 = db\<lparr>jobs := update_where (fencing l) f (jobs db)\<rparr>
      in case returning (fencing l) f (jobs db) of
           [] \<Rightarrow> Inl (stale_lease l)
         | row # _ \<Rightarrow>
             Inr (\<lparr>l_id = l_id l, l_job = to_job row, l_owner = l_owner l,
                   l_expires_at = now + dur\<rparr>, db1))"

definition ack :: "time \<Rightarrow> lease \<Rightarrow> string option \<Rightarrow> unit txn" where
  "ack now l ref db =
     (let f = acked_row now ref;
          db1 = db\<lparr>jobs := update_where (fencing l) f (jobs db)\<rparr>
      in case returning (fencing l) f (jobs db) of
           [] \<Rightarrow> Inl (stale_lease l)
         | row # _ \<Rightarrow> bindE (record_event now row db1) (\<lambda>db'. Inr ((), db')))"

definition nack :: "time \<Rightarrow> lease \<Rightarrow> string \<Rightarrow> time option \<Rightarrow> job txn" where
  "nack now l err retry_in db =
     (let f = nacked_row now err retry_in;
          db1 = db\<lparr>jobs := update_where (fencing l) f (jobs db)\<rparr>
      in case returning (fencing l) f (jobs db) of
           [] \<Rightarrow> Inl (stale_lease l)
         | row # _ \<Rightarrow> bindE (record_event now row db1) (\<lambda>db'. Inr (to_job row, db')))"

lemmas row_writes = released_def claimed_row_def extended_row_def acked_row_def nacked_row_def
  cancelled_row_def retired_row_def published_row_def nack_state_def

lemma writes_keep_identity [table_simps]:
  "job_id (released now r) = job_id r" "dedup_key (released now r) = dedup_key r"
  "job_id (claimed_row now t ow d r) = job_id r" "dedup_key (claimed_row now t ow d r) = dedup_key r"
  "job_id (extended_row now d r) = job_id r" "dedup_key (extended_row now d r) = dedup_key r"
  "job_id (acked_row now ref r) = job_id r" "dedup_key (acked_row now ref r) = dedup_key r"
  "job_id (nacked_row now e rt r) = job_id r" "dedup_key (nacked_row now e rt r) = dedup_key r"
  "job_id (cancelled_row now r) = job_id r" "dedup_key (cancelled_row now r) = dedup_key r"
  "job_id (retired_row now r) = job_id r" "dedup_key (retired_row now r) = dedup_key r"
  "job_id (published_row now r) = job_id r" "dedup_key (published_row now r) = dedup_key r"
  by (simp_all add: row_writes dedup_key_def)

end
