(* ===== verification/Store_Invariant.thy ===== *)
theory Store_Invariant
  imports Job_Store
begin

text \<open>
  What every committed database satisfies: each row is well formed (\<open>row_ok\<close>), keys are unique,
  foreign keys resolve, the session log has no gap (\<open>log_ok\<close>), and the events of a job are a history
  of the state diagram that ends in the state the row holds. Between the update of the rows and the
  insert of their events the history of the rows in \<open>pend\<close> lags one state behind; a transaction starts
  and ends with \<open>pend\<close> empty.
\<close>

named_theorems store_ok

subsection \<open>One row\<close>

definition row_ok :: "job_row \<Rightarrow> bool" where
  "row_ok r \<longleftrightarrow>
     attempts_sane r \<and> lease_is_whole r \<and> max_attempts r \<le> int4_max \<and>
     attempts r \<le> max_attempts r \<and>
     (lease_id r \<noteq> None) = (state r = RUNNING) \<and>
     (lease_owner r \<noteq> None) = (state r = RUNNING) \<and>
     (state r = QUEUED \<longrightarrow> attempts r = 0 \<and> \<not> cancel_requested r) \<and>
     (state r = FAILED \<longrightarrow> 0 < attempts r \<and> attempts r < max_attempts r
        \<and> \<not> cancel_requested r \<and> error r \<noteq> None) \<and>
     (state r = RUNNING \<or> state r = DONE \<longrightarrow> 0 < attempts r) \<and>
     (state r = DEAD \<longrightarrow> attempts r = max_attempts r \<and> \<not> cancel_requested r \<and> error r \<noteq> None) \<and>
     (state r = CANCELLED \<longrightarrow> cancel_requested r) \<and>
     (result_ref r \<noteq> None \<longrightarrow> state r = DONE)"

lemmas row_ok_defs = row_ok_def attempts_sane_def lease_is_whole_def

lemma row_ok_bounds:
  "row_ok r \<Longrightarrow> 0 \<le> attempts r \<and> attempts r \<le> max_attempts r \<and> max_attempts r \<le> int4_max"
  by (auto simp: row_ok_defs)

lemma row_ok_new [store_ok]:
  "int4 (req_max_attempts req) \<Longrightarrow> attempts_sane (new_row now new_id req) \<Longrightarrow>
   row_ok (new_row now new_id req)"
  by (auto simp: row_ok_defs new_row_def int4_def)

lemma row_ok_claimed [store_ok]:
  "row_ok r \<Longrightarrow> waiting now r \<or> lapsed now r \<Longrightarrow> row_ok (claimed_row now token owner dur r)"
  by (auto simp: row_ok_defs waiting_def lapsed_def claimed_row_def)

lemma fencing_running: "row_ok r \<Longrightarrow> fencing l r \<Longrightarrow> state r = RUNNING"
  by (auto simp: row_ok_def fencing_def)

lemma row_ok_extended [store_ok]:
  "row_ok r \<Longrightarrow> fencing l r \<Longrightarrow> row_ok (extended_row now dur r)"
  by (auto simp: row_ok_defs fencing_def extended_row_def)

lemma row_ok_acked [store_ok]:
  "row_ok r \<Longrightarrow> fencing l r \<Longrightarrow> row_ok (acked_row now ref r)"
  by (auto simp: row_ok_defs fencing_def acked_row_def released_def)

lemma row_ok_nacked [store_ok]:
  "row_ok r \<Longrightarrow> fencing l r \<Longrightarrow> row_ok (nacked_row now err rt r)"
  by (auto simp: row_ok_defs fencing_def nacked_row_def released_def nack_state_def)

lemma row_ok_cancelled [store_ok]:
  "row_ok r \<Longrightarrow> \<not> terminal (state r) \<Longrightarrow> row_ok (cancelled_row now r)"
  by (cases "state r") (auto simp: row_ok_defs cancelled_row_def)

lemma row_ok_retired [store_ok]:
  "row_ok r \<Longrightarrow> lapsed_for_good now r \<Longrightarrow> row_ok (retired_row now r)"
  by (auto simp: row_ok_defs lapsed_for_good_def retired_row_def released_def split: option.splits)

lemma row_ok_published [store_ok]: "row_ok r \<Longrightarrow> row_ok (published_row now r)"
  by (auto simp: row_ok_defs published_row_def)

subsection \<open>The whole database\<close>

definition jobs_ok :: "db \<Rightarrow> bool" where
  "jobs_ok db \<longleftrightarrow> distinct (map job_id (jobs db)) \<and> distinct (map dedup_key (jobs db)) \<and>
     (\<forall>r \<in> set (jobs db). row_ok r)"

definition refs_ok :: "db \<Rightarrow> bool" where
  "refs_ok db \<longleftrightarrow>
     (\<forall>r \<in> set (jobs db). \<forall>s. session_id r = Some s \<longrightarrow> chat_sessions db s \<noteq> None) \<and>
     (\<forall>e \<in> set (job_events db). \<exists>r \<in> set (jobs db).
        job_id r = ev_job_id e \<and> session_id r = Some (ev_session e))"

definition trace :: "db \<Rightarrow> uuid \<Rightarrow> job_state list" where
  "trace db jid = map ev_state (filter (\<lambda>e. ev_job_id e = jid) (job_events db))"

definition row_trace_ok :: "uuid set \<Rightarrow> db \<Rightarrow> job_row \<Rightarrow> bool" where
  "row_trace_ok pend db r \<longleftrightarrow>
     (if session_id r = None then trace db (job_id r) = []
      else if job_id r \<in> pend then path (trace db (job_id r) @ [state r])
      else path (trace db (job_id r)) \<and> last (trace db (job_id r)) = state r)"

definition db_ok_upto :: "uuid set \<Rightarrow> db \<Rightarrow> bool" where
  "db_ok_upto pend db \<longleftrightarrow>
     jobs_ok db \<and> refs_ok db \<and> log_ok db \<and> (\<forall>r \<in> set (jobs db). row_trace_ok pend db r)"

definition db_ok :: "db \<Rightarrow> bool" where
  "db_ok db \<longleftrightarrow> db_ok_upto {} db"

lemma db_okD:
  assumes "db_ok_upto pend db"
  shows "distinct (map job_id (jobs db))" "distinct (map dedup_key (jobs db))"
    "\<And>r. r \<in> set (jobs db) \<Longrightarrow> row_ok r"
    "\<And>r s. r \<in> set (jobs db) \<Longrightarrow> session_id r = Some s \<Longrightarrow> chat_sessions db s \<noteq> None"
    "\<And>r. r \<in> set (jobs db) \<Longrightarrow> row_trace_ok pend db r"
    "log_ok db"
  using assms by (auto simp: db_ok_upto_def jobs_ok_def refs_ok_def)

lemma db_ok_empty: "db_ok empty_db"
  by (simp add: db_ok_def db_ok_upto_def jobs_ok_def refs_ok_def log_ok_empty)
     (simp add: empty_db_def)

lemma same_job: "db_ok_upto pend db \<Longrightarrow> a \<in> set (jobs db) \<Longrightarrow> b \<in> set (jobs db) \<Longrightarrow>
    job_id a = job_id b \<Longrightarrow> a = b"
  by (rule distinct_key_eq [where k = job_id]) (auto dest: db_okD(1))

subsection \<open>Recording an event\<close>

lemma trace_append:
  "trace (log_append_event e db) jid =
     trace db jid @ (if ev_job_id e = jid then [ev_state e] else [])"
  by (simp add: trace_def log_append_event_def)

lemma log_append_event_sel [simp]:
  "jobs (log_append_event e db) = jobs db"
  "chat_sessions (log_append_event e db) = chat_sessions db"
  "chat_messages (log_append_event e db) = chat_messages db"
  "job_events (log_append_event e db) = job_events db @ [e]"
  by (simp_all add: log_append_event_def)

lemma trace_sessions [simp]: "trace (db\<lparr>chat_sessions := cs\<rparr>) jid = trace db jid"
  by (simp add: trace_def)

lemma trace_jobs [simp]: "trace (db\<lparr>jobs := js\<rparr>) jid = trace db jid"
  by (simp add: trace_def)

lemma fresh_seq:
  assumes "log_ok db" "chat_sessions db sid = Some c" "x \<in> set (job_events db)" "ev_session x = sid"
  shows "ev_seq x \<noteq> next_seq c"
proof -
  have "ev_seq x \<in> set (log_seqs db sid)"
    using assms(3,4) by (auto simp: log_seqs_def events_of_def)
  with assms(1,2) have "ev_seq x < next_seq c"
    by (auto simp: log_ok_def intro: log_seqs_below)
  then show ?thesis by simp
qed

text \<open>
  For a row of the table the event is always written: the session exists, its number is free, and
  the job's history gains the state the row holds.
\<close>

lemma record_event_ok:
  assumes ok: "db_ok_upto pend db" and r: "r \<in> set (jobs db)"
    and row: "job_id row = job_id r" "session_id row = session_id r" "state row = state r"
    and pend: "job_id r \<in> pend"
  shows "\<exists>db'. record_event now row db = Inr db' \<and> db_ok_upto (pend - {job_id r}) db' \<and>
           jobs db' = jobs db \<and> chat_messages db' = chat_messages db \<and>
           dom (chat_sessions db') = dom (chat_sessions db)"
proof (cases "session_id r")
  case None
  have "row_trace_ok (pend - {job_id r}) db x" if x: "x \<in> set (jobs db)" for x
  proof (cases "x = r")
    case True
    with None db_okD(5) [OF ok r] show ?thesis by (simp add: row_trace_ok_def)
  next
    case False
    with same_job [OF ok x r] have "job_id x \<noteq> job_id r" by blast
    with db_okD(5) [OF ok x] show ?thesis by (simp add: row_trace_ok_def)
  qed
  with None row ok show ?thesis by (simp add: record_event_def db_ok_upto_def)
next
  case (Some sid)
  with db_okD(4) [OF ok r] obtain c where c: "chat_sessions db sid = Some c" by blast
  let ?db1 = "db\<lparr>chat_sessions := (chat_sessions db)
      (sid \<mapsto> c\<lparr>next_seq := next_seq c + 1, last_seen_at := now\<rparr>)\<rparr>"
  let ?e = "\<lparr>ev_seq = next_seq c, ev_job_id = job_id r, ev_state = state r,
             ev_session = sid, ev_created_at = now\<rparr>"
  let ?db' = "log_append_event ?e ?db1"
  have alloc: "allocate_seq now sid db = Inr (next_seq c, ?db1)"
    using c by (simp add: allocate_seq_Inr)
  have "\<not> (\<exists>x \<in> set (job_events db). ev_session x = sid \<and> ev_seq x = next_seq c)"
    using fresh_seq [OF db_okD(6) [OF ok] c] by blast
  with r row alloc Some have rec: "record_event now row db = Inr ?db'"
    by (simp add: record_event_def insert_job_event_def)
  have jobs': "jobs_ok ?db'" using ok by (simp add: db_ok_upto_def jobs_ok_def)
  have refs': "refs_ok ?db'"
  proof -
    have "\<exists>x \<in> set (jobs db). job_id x = job_id r \<and> session_id x = Some sid"
      using r Some by blast
    with ok show ?thesis by (auto simp: db_ok_upto_def refs_ok_def)
  qed
  have log': "log_ok ?db'"
    by (rule log_ok_allocate_event [OF db_okD(6) [OF ok] alloc]) simp_all
  have "row_trace_ok (pend - {job_id r}) ?db' x" if x: "x \<in> set (jobs db)" for x
  proof (cases "x = r")
    case True
    with Some pend db_okD(5) [OF ok r] show ?thesis
      by (simp add: row_trace_ok_def trace_append)
  next
    case False
    with same_job [OF ok x r] have "job_id x \<noteq> job_id r" by blast
    with db_okD(5) [OF ok x] show ?thesis by (auto simp: row_trace_ok_def trace_append)
  qed
  with jobs' refs' log' have "db_ok_upto (pend - {job_id r}) ?db'" by (simp add: db_ok_upto_def)
  moreover have "dom (chat_sessions ?db') = dom (chat_sessions db)" using c by auto
  ultimately show ?thesis using rec by auto
qed

lemma record_events_ok:
  assumes "db_ok_upto (job_id ` set rows) db" "distinct (map job_id rows)"
    and "\<forall>row \<in> set rows. row \<in> set (jobs db)"
  shows "\<exists>db'. foldE (\<lambda>s row. record_event now row s) db rows = Inr db' \<and> db_ok db' \<and>
           jobs db' = jobs db \<and> chat_messages db' = chat_messages db \<and>
           dom (chat_sessions db') = dom (chat_sessions db)"
  using assms
proof (induction rows arbitrary: db)
  case Nil
  then show ?case by (simp add: db_ok_def)
next
  case (Cons row rows)
  let ?pend = "job_id ` set (row # rows)"
  have "?pend - {job_id row} = job_id ` set rows"
    using Cons.prems(2) by auto
  with record_event_ok [of ?pend db row row now] Cons.prems obtain db1 where
    1: "record_event now row db = Inr db1" "db_ok_upto (job_id ` set rows) db1"
       "jobs db1 = jobs db" "chat_messages db1 = chat_messages db"
       "dom (chat_sessions db1) = dom (chat_sessions db)"
    by auto
  from Cons.IH [of db1] 1 Cons.prems obtain db2 where
    "foldE (\<lambda>s row. record_event now row s) db1 rows = Inr db2" "db_ok db2"
    "jobs db2 = jobs db1" "chat_messages db2 = chat_messages db1"
    "dom (chat_sessions db2) = dom (chat_sessions db1)"
    by auto
  with 1 show ?case by simp
qed

subsection \<open>Updating the rows\<close>

text \<open>
  An update keeps the invariant when it keeps the identity and the well-formedness of every row it
  hits; the rows whose state it changed (\<open>Q\<close>, along the diagram) are the ones whose event is due.
\<close>

lemma update_jobs_ok:
  assumes ok: "db_ok db"
    and ident: "\<And>r. job_id (f r) = job_id r \<and> dedup_key (f r) = dedup_key r"
    and rows: "\<And>r. r \<in> set (jobs db) \<Longrightarrow> P r \<Longrightarrow> row_ok (f r)"
    and moved: "\<And>r. r \<in> set (jobs db) \<Longrightarrow> P r \<Longrightarrow> Q r \<Longrightarrow> legal (state r) (state (f r))"
    and still: "\<And>r. r \<in> set (jobs db) \<Longrightarrow> P r \<Longrightarrow> \<not> Q r \<Longrightarrow> state (f r) = state r"
    and pend: "pend = job_id ` {r \<in> set (jobs db). P r \<and> Q r}"
  shows "db_ok_upto pend (db\<lparr>jobs := update_where P f (jobs db)\<rparr>)"
proof -
  let ?db' = "db\<lparr>jobs := update_where P f (jobs db)\<rparr>"
  note ok = ok [unfolded db_ok_def]
  have sess: "session_id (f r) = session_id r" for r
    using ident [of r] by (simp add: dedup_key_def)
  have "map job_id (jobs ?db') = map job_id (jobs db)" "map dedup_key (jobs ?db') = map dedup_key (jobs db)"
    using ident by (simp_all add: map_update_where_key)
  moreover have "\<forall>r \<in> set (jobs ?db'). row_ok r"
    using rows db_okD(3) [OF ok] by (auto elim!: in_update_whereE)
  ultimately have j: "jobs_ok ?db'"
    using db_okD(1,2) [OF ok] by (simp add: jobs_ok_def)
  have "\<exists>x \<in> set (jobs ?db'). job_id x = job_id r \<and> session_id x = session_id r"
    if "r \<in> set (jobs db)" for r
    using that ident [of r] sess [of r] by (cases "P r") (force simp: set_update_where)+
  then have refs: "refs_ok ?db'"
    using ok sess by (auto simp: db_ok_upto_def refs_ok_def elim!: in_update_whereE) metis+
  have "row_trace_ok pend ?db' x" if x: "x \<in> set (jobs ?db')" for x
  proof -
    from x have "x \<in> set (update_where P f (jobs db))" by simp
    then show ?thesis
    proof (cases rule: in_update_whereE)
      case (hit r)
      have old: "row_trace_ok {} db r" using db_okD(5) [OF ok hit(1)] .
      show ?thesis
      proof (cases "Q r")
        case True
        with hit pend have "job_id r \<in> pend" by blast
        with old hit moved [OF hit(1,2) True] ident [of r] sess [of r] show ?thesis
          by (auto simp: row_trace_ok_def intro: path_extend)
      next
        case False
        with hit same_job [OF ok] have "job_id r \<notin> pend" by (auto simp: pend)
        with old hit still [OF hit(1,2) False] ident [of r] sess [of r] show ?thesis
          by (simp add: row_trace_ok_def)
      qed
    next
      case kept
      with same_job [OF ok] have "job_id x \<notin> pend" by (auto simp: pend)
      with db_okD(5) [OF ok kept(1)] show ?thesis by (simp add: row_trace_ok_def)
    qed
  qed
  with j refs db_okD(6) [OF ok] show ?thesis by (simp add: db_ok_upto_def)
qed

end
