(* ===== verification/Store_Ops.thy ===== *)
theory Store_Ops
  imports Store_Invariant
begin

text \<open>
  The functional behaviour of every operation of \<open>Job_Store\<close> on a well-formed database, one lemma
  for each branch: what it returns, which rows it writes, and that the invariant survives. The
  branches that raise are exactly the refused inserts and the stale leases.
\<close>

named_theorems store_spec

subsection \<open>One row moves\<close>

lemma transition_ok:
  assumes ok: "db_ok db" and r: "r \<in> set (jobs db)" "P r" "\<forall>x. P x \<longrightarrow> job_id x = job_id r"
    and ident: "\<And>x. job_id (f x) = job_id x \<and> dedup_key (f x) = dedup_key x"
    and row: "row_ok (f r)" and legal: "legal (state r) (state (f r))"
  shows "returning P f (jobs db) = [f r] \<and>
         (\<exists>db'. record_event now (f r) (db\<lparr>jobs := update_where P f (jobs db)\<rparr>) = Inr db' \<and>
           db_ok db' \<and> jobs db' = update_where P f (jobs db) \<and>
           chat_messages db' = chat_messages db \<and> dom (chat_sessions db') = dom (chat_sessions db))"
proof
  note ok' = ok [unfolded db_ok_def]
  show "returning P f (jobs db) = [f r]"
    by (rule returning_unique [OF db_okD(1) [OF ok'] r])
  let ?db1 = "db\<lparr>jobs := update_where P f (jobs db)\<rparr>"
  have only: "x = r" if "x \<in> set (jobs db)" "P x" for x
    using same_job [OF ok' that(1) r(1)] r(3) that(2) by blast
  have "{x \<in> set (jobs db). P x \<and> True} = {r}" using only r(1,2) by blast
  then have pend: "{job_id r} = job_id ` {x \<in> set (jobs db). P x \<and> True}" by simp
  have "db_ok_upto {job_id r} ?db1"
  proof (rule update_jobs_ok [OF ok ident _ _ _ pend])
    fix x
    assume x: "x \<in> set (jobs db)" "P x"
    have eq: "x = r" by (rule only [OF x])
    show "row_ok (f x)" using eq row by simp
    show "legal (state x) (state (f x))" using eq legal by simp
    show "\<not> True \<Longrightarrow> state (f x) = state x" by simp
  qed
  moreover have "f r \<in> set (jobs ?db1)" using r by (auto simp: set_update_where)
  ultimately show "\<exists>db'. record_event now (f r) ?db1 = Inr db' \<and>
           db_ok db' \<and> jobs db' = update_where P f (jobs db) \<and>
           chat_messages db' = chat_messages db \<and> dom (chat_sessions db') = dom (chat_sessions db)"
    using record_event_ok [of "{job_id r}" ?db1 "f r" "f r" now] ident [of r]
    by (simp add: db_ok_def)
qed

lemma quiet_update_ok:
  assumes ok: "db_ok db"
    and ident: "\<And>x. job_id (f x) = job_id x \<and> dedup_key (f x) = dedup_key x"
    and rows: "\<And>r. r \<in> set (jobs db) \<Longrightarrow> P r \<Longrightarrow> row_ok (f r) \<and> state (f r) = state r"
  shows "db_ok (db\<lparr>jobs := update_where P f (jobs db)\<rparr>)"
  unfolding db_ok_def
  by (rule update_jobs_ok [OF ok ident, where Q = "\<lambda>_. False"]) (use rows in auto)

lemma update_none_id:
  "\<forall>r \<in> set (jobs db). \<not> P r \<Longrightarrow> db\<lparr>jobs := update_where P f (jobs db)\<rparr> = db"
  by (simp add: update_where_none)

lemma legal_nack: "legal RUNNING (nack_state r)"
  by (simp add: nack_state_def)

lemma legal_claim: "waiting now r \<or> lapsed now r \<Longrightarrow> legal (state r) RUNNING"
  by (auto simp: waiting_def lapsed_def)

lemma writes_ident:
  "job_id (claimed_row now t ow d r) = job_id r \<and> dedup_key (claimed_row now t ow d r) = dedup_key r"
  "job_id (extended_row now d r) = job_id r \<and> dedup_key (extended_row now d r) = dedup_key r"
  "job_id (acked_row now ref r) = job_id r \<and> dedup_key (acked_row now ref r) = dedup_key r"
  "job_id (nacked_row now e rt r) = job_id r \<and> dedup_key (nacked_row now e rt r) = dedup_key r"
  "job_id (cancelled_row now r) = job_id r \<and> dedup_key (cancelled_row now r) = dedup_key r"
  "job_id (retired_row now r) = job_id r \<and> dedup_key (retired_row now r) = dedup_key r"
  "job_id (published_row now r) = job_id r \<and> dedup_key (published_row now r) = dedup_key r"
  by (simp_all add: writes_keep_identity)

subsection \<open>Lookups\<close>

lemma get_known:
  "db_ok db \<Longrightarrow> r \<in> set (jobs db) \<Longrightarrow> get (job_id r) db = Some (to_job r)"
  by (simp add: get_def db_ok_def find_key_Some [OF db_okD(1)])

lemma get_unknown: "jid \<notin> job_id ` set (jobs db) \<Longrightarrow> get jid db = None"
  by (auto simp: get_def find_None_iff)

lemma get_Some:
  "get jid db = Some j \<Longrightarrow> \<exists>r \<in> set (jobs db). job_id r = jid \<and> j = to_job r"
  by (auto simp: get_def find_Some_iff)

lemma to_job_sel [simp]:
  "job_id (to_job r) = job_id r" "kind (to_job r) = kind r" "payload (to_job r) = payload r"
  "state (to_job r) = state r" "attempts (to_job r) = attempts r"
  "max_attempts (to_job r) = max_attempts r" "session_id (to_job r) = session_id r"
  "idempotency_key (to_job r) = idempotency_key r" "result_ref (to_job r) = result_ref r"
  "error (to_job r) = error r" "cancel_requested (to_job r) = cancel_requested r"
  by (simp_all add: to_job_def job.truncate_def)

subsection \<open>Claiming\<close>

lemma claim_refused [store_spec]:
  assumes "\<forall>r \<in> set (jobs db). \<not> (job_id r = jid \<and> (waiting now r \<or> lapsed now r))"
  shows "claim now token jid owner dur db = Inr (None, db)"
proof -
  let ?P = "\<lambda>r. job_id r = jid \<and> (waiting now r \<or> lapsed now r)"
  have "returning ?P (claimed_row now token owner dur) (jobs db) = []"
    using assms by (simp add: returning_Nil_iff)
  then show ?thesis using update_none_id [OF assms] by (simp add: claim_def)
qed

lemma claim_granted [store_spec]:
  assumes ok: "db_ok db" and r: "r \<in> set (jobs db)" "waiting now r \<or> lapsed now r"
  shows "\<exists>db'. claim now token (job_id r) owner dur db =
             Inr (Some \<lparr>l_id = token, l_job = to_job (claimed_row now token owner dur r),
                        l_owner = owner, l_expires_at = now + dur\<rparr>, db') \<and>
           db_ok db' \<and> chat_messages db' = chat_messages db \<and>
           dom (chat_sessions db') = dom (chat_sessions db) \<and>
           jobs db' = update_where (\<lambda>x. job_id x = job_id r \<and> (waiting now x \<or> lapsed now x))
                        (claimed_row now token owner dur) (jobs db)"
proof -
  let ?P = "\<lambda>x. job_id x = job_id r \<and> (waiting now x \<or> lapsed now x)"
  let ?f = "claimed_row now token owner dur"
  have row: "row_ok (?f r)"
    using row_ok_claimed db_okD(3) ok r by (auto simp: db_ok_def)
  have legal: "legal (state r) (state (?f r))"
    using legal_claim [OF r(2)] by (simp add: claimed_row_def)
  have P: "?P r" "\<forall>x. ?P x \<longrightarrow> job_id x = job_id r" using r(2) by auto
  note step = transition_ok [where P = ?P and f = ?f, OF ok r(1) P writes_ident(1) row legal, of now]
  show ?thesis
    using step by (auto simp: claim_def)
qed

subsection \<open>Finishing\<close>

lemma extend_stale [store_spec]:
  "\<forall>r \<in> set (jobs db). \<not> fencing l r \<Longrightarrow> extend now l dur db = Inl (stale_lease l)"
  by (simp add: extend_def returning_Nil_iff [THEN iffD2])

lemma ack_stale [store_spec]:
  "\<forall>r \<in> set (jobs db). \<not> fencing l r \<Longrightarrow> ack now l ref db = Inl (stale_lease l)"
  by (simp add: ack_def returning_Nil_iff [THEN iffD2])

lemma nack_stale [store_spec]:
  "\<forall>r \<in> set (jobs db). \<not> fencing l r \<Longrightarrow> nack now l err rt db = Inl (stale_lease l)"
  by (simp add: nack_def returning_Nil_iff [THEN iffD2])

lemma fencing_unique: "fencing l r \<Longrightarrow> \<forall>x. fencing l x \<longrightarrow> job_id x = job_id r"
  by (simp add: fencing_def)

lemma extend_live [store_spec]:
  assumes ok: "db_ok db" and r: "r \<in> set (jobs db)" "fencing l r"
  shows "extend now l dur db =
      Inr (\<lparr>l_id = l_id l, l_job = to_job (extended_row now dur r), l_owner = l_owner l,
            l_expires_at = now + dur\<rparr>,
           db\<lparr>jobs := update_where (fencing l) (extended_row now dur) (jobs db)\<rparr>)"
    and "db_ok (db\<lparr>jobs := update_where (fencing l) (extended_row now dur) (jobs db)\<rparr>)"
proof -
  have "returning (fencing l) (extended_row now dur) (jobs db) = [extended_row now dur r]"
    by (rule returning_unique [OF db_okD(1) [OF ok [unfolded db_ok_def]] r fencing_unique [OF r(2)]])
  then show "extend now l dur db =
      Inr (\<lparr>l_id = l_id l, l_job = to_job (extended_row now dur r), l_owner = l_owner l,
            l_expires_at = now + dur\<rparr>,
           db\<lparr>jobs := update_where (fencing l) (extended_row now dur) (jobs db)\<rparr>)"
    by (simp add: extend_def Let_def)
  show "db_ok (db\<lparr>jobs := update_where (fencing l) (extended_row now dur) (jobs db)\<rparr>)"
  proof (rule quiet_update_ok [OF ok])
    show "job_id (extended_row now dur x) = job_id x \<and>
        dedup_key (extended_row now dur x) = dedup_key x" for x
      by (simp add: writes_keep_identity)
    show "row_ok (extended_row now dur x) \<and> state (extended_row now dur x) = state x"
      if "x \<in> set (jobs db)" "fencing l x" for x
      using that row_ok_extended db_okD(3) ok by (auto simp: db_ok_def extended_row_def)
  qed
qed

lemma ack_live [store_spec]:
  assumes ok: "db_ok db" and r: "r \<in> set (jobs db)" "fencing l r"
  shows "\<exists>db'. ack now l ref db = Inr ((), db') \<and> db_ok db' \<and>
           jobs db' = update_where (fencing l) (acked_row now ref) (jobs db) \<and>
           chat_messages db' = chat_messages db \<and> dom (chat_sessions db') = dom (chat_sessions db)"
proof -
  let ?f = "acked_row now ref"
  have rok: "row_ok r" using db_okD(3) ok r(1) by (auto simp: db_ok_def)
  have legal: "legal (state r) (state (?f r))"
    using fencing_running [OF rok r(2)] by (simp add: acked_row_def released_def)
  note step = transition_ok [where P = "fencing l" and f = ?f, OF ok r fencing_unique [OF r(2)]
      writes_ident(3) row_ok_acked [OF rok r(2)] legal, of now]
  show ?thesis
    using step by (auto simp: ack_def)
qed

lemma nack_live [store_spec]:
  assumes ok: "db_ok db" and r: "r \<in> set (jobs db)" "fencing l r"
  shows "\<exists>db'. nack now l err rt db = Inr (to_job (nacked_row now err rt r), db') \<and> db_ok db' \<and>
           jobs db' = update_where (fencing l) (nacked_row now err rt) (jobs db) \<and>
           chat_messages db' = chat_messages db \<and> dom (chat_sessions db') = dom (chat_sessions db)"
proof -
  let ?f = "nacked_row now err rt"
  have rok: "row_ok r" using db_okD(3) ok r(1) by (auto simp: db_ok_def)
  have legal: "legal (state r) (state (?f r))"
    using fencing_running [OF rok r(2)] legal_nack [of r] by (simp add: nacked_row_def released_def)
  note step = transition_ok [where P = "fencing l" and f = ?f, OF ok r fencing_unique [OF r(2)]
      writes_ident(4) row_ok_nacked [OF rok r(2)] legal, of now]
  show ?thesis
    using step by (auto simp: nack_def)
qed

subsection \<open>Cancelling\<close>

lemma cancel_unknown [store_spec]:
  assumes "\<forall>r \<in> set (jobs db). \<not> (job_id r = jid \<and> \<not> terminal (state r))"
  shows "cancel now jid db = Inr (get jid db, db)"
proof -
  let ?P = "\<lambda>r. job_id r = jid \<and> \<not> terminal (state r)"
  have "returning ?P (cancelled_row now) (jobs db) = []"
    using assms by (simp add: returning_Nil_iff)
  then show ?thesis using update_none_id [OF assms] by (simp add: cancel_def)
qed

lemma cancel_live [store_spec]:
  assumes ok: "db_ok db" and r: "r \<in> set (jobs db)" "\<not> terminal (state r)"
  shows "\<exists>db'. cancel now (job_id r) db = Inr (Some (to_job (cancelled_row now r)), db') \<and> db_ok db' \<and>
           jobs db' = update_where (\<lambda>x. job_id x = job_id r \<and> \<not> terminal (state x))
                        (cancelled_row now) (jobs db) \<and>
           chat_messages db' = chat_messages db \<and> dom (chat_sessions db') = dom (chat_sessions db)"
proof -
  let ?P = "\<lambda>x. job_id x = job_id r \<and> \<not> terminal (state x)"
  let ?f = "cancelled_row now"
  let ?db1 = "db\<lparr>jobs := update_where ?P ?f (jobs db)\<rparr>"
  have rok: "row_ok r" using db_okD(3) ok r(1) by (auto simp: db_ok_def)
  have P: "?P r" "\<forall>x. ?P x \<longrightarrow> job_id x = job_id r" using r(2) by auto
  have ret: "returning ?P ?f (jobs db) = [?f r]"
    by (rule returning_unique [OF db_okD(1) [OF ok [unfolded db_ok_def]] r(1) P])
  show ?thesis
  proof (cases "state r = RUNNING")
    case True
    have only: "x = r" if "x \<in> set (jobs db)" "?P x" for x
      using that same_job [OF ok [unfolded db_ok_def] that(1) r(1)] by blast
    have kept: "row_ok (?f r) \<and> state (?f r) = state r"
      using True row_ok_cancelled [OF rok r(2)] by (simp add: cancelled_row_def)
    have "db_ok ?db1"
    proof (rule quiet_update_ok [OF ok writes_ident(5)])
      show "row_ok (?f x) \<and> state (?f x) = state x" if "x \<in> set (jobs db)" "?P x" for x
        using only [OF that] kept by simp
    qed
    with ret True show ?thesis by (simp add: cancel_def cancelled_row_def [of now r])
  next
    case False
    then have st: "state (?f r) = CANCELLED" by (simp add: cancelled_row_def)
    with legal_progress [OF r(2)] have legal: "legal (state r) (state (?f r))" by simp
    note step = transition_ok [where P = ?P and f = ?f, OF ok r(1) P
        writes_ident(5) row_ok_cancelled [OF rok r(2)] legal, of now]
    with st show ?thesis by (auto simp: cancel_def)
  qed
qed

subsection \<open>Publishing and sweeping\<close>

lemma mark_published_ok [store_spec]:
  "db_ok db \<Longrightarrow> db_ok (db\<lparr>jobs := update_where (\<lambda>r. job_id r = jid) (published_row now) (jobs db)\<rparr>)"
  by (rule quiet_update_ok [OF _ writes_ident(7)])
     (auto simp: db_ok_def row_ok_published db_okD(3), simp add: published_row_def)

lemma retire_lapsed_ok [store_spec]:
  assumes ok: "db_ok db"
  shows "\<exists>db'. retire_lapsed now db =
             Inr (map job_id (filter (lapsed_for_good now) (jobs db)), db') \<and> db_ok db' \<and>
           jobs db' = update_where (lapsed_for_good now) (retired_row now) (jobs db) \<and>
           chat_messages db' = chat_messages db \<and> dom (chat_sessions db') = dom (chat_sessions db)"
proof -
  let ?P = "lapsed_for_good now" and ?f = "retired_row now"
  let ?db1 = "db\<lparr>jobs := update_where ?P ?f (jobs db)\<rparr>"
  let ?rows = "returning ?P ?f (jobs db)"
  have ids: "map job_id ?rows = map job_id (filter ?P (jobs db))"
    by (simp add: returning_def writes_keep_identity)
  have "db_ok_upto (job_id ` {r \<in> set (jobs db). ?P r}) ?db1"
    using ok db_okD(3)
    by (intro update_jobs_ok [OF ok, where Q = "\<lambda>_. True"])
       (auto simp: writes_keep_identity db_ok_def row_ok_retired,
        auto simp: lapsed_for_good_def retired_row_def released_def)
  moreover have "job_id ` {r \<in> set (jobs db). ?P r} = job_id ` set (sort_key session_key ?rows)"
    by (auto simp: set_returning image_image writes_keep_identity)
  moreover have "distinct (map job_id (sort_key session_key ?rows))"
  proof -
    have "distinct (map job_id (filter ?P (jobs db)))"
      using db_okD(1) ok by (auto simp: db_ok_def intro: distinct_map_filter)
    then show ?thesis using ids by (metis distinct_map distinct_sort set_sort)
  qed
  moreover have "\<forall>row \<in> set (sort_key session_key ?rows). row \<in> set (jobs ?db1)"
    by (auto simp: set_returning set_update_where)
  ultimately obtain db' where
    "foldE (\<lambda>s row. record_event now row s) ?db1 (sort_key session_key ?rows) = Inr db'"
    "db_ok db'" "jobs db' = jobs ?db1" "chat_messages db' = chat_messages ?db1"
    "dom (chat_sessions db') = dom (chat_sessions ?db1)"
    using record_events_ok [of "sort_key session_key ?rows" ?db1 now] by auto
  with ids show ?thesis by (simp add: retire_lapsed_def)
qed

subsection \<open>Inserting\<close>

lemma insert_existing [store_spec]:
  assumes "int4 (req_max_attempts req)" "0 < req_max_attempts req"
    and "find (\<lambda>r. dedup_key r = (req_session_id req, req_idempotency_key req)) (jobs db) = Some r"
  shows "insert_or_get now new_id req db = Inr ((to_job r, False), db)"
  using assms
  by (simp add: insert_or_get_def new_row_def attempts_sane_def lease_is_whole_def dedup_key_def)

lemma insert_new [store_spec]:
  assumes ok: "db_ok db" and req: "int4 (req_max_attempts req)" "0 < req_max_attempts req"
    and key: "\<forall>r \<in> set (jobs db). dedup_key r \<noteq> (req_session_id req, req_idempotency_key req)"
    and fresh: "new_id \<notin> job_id ` set (jobs db)"
    and sess: "\<And>s. req_session_id req = Some s \<Longrightarrow> chat_sessions db s \<noteq> None"
  shows "\<exists>db'. insert_or_get now new_id req db = Inr ((to_job (new_row now new_id req), True), db') \<and>
           db_ok db' \<and> jobs db' = jobs db @ [new_row now new_id req] \<and>
           chat_messages db' = chat_messages db \<and> dom (chat_sessions db') = dom (chat_sessions db)"
proof -
  let ?row = "new_row now new_id req"
  let ?db1 = "db\<lparr>jobs := jobs db @ [?row]\<rparr>"
  note ok' = ok [unfolded db_ok_def]
  have key': "dedup_key ?row = (req_session_id req, req_idempotency_key req)"
    and sane: "attempts_sane ?row" "lease_is_whole ?row" "max_attempts ?row = req_max_attempts req"
    and sel: "job_id ?row = new_id" "session_id ?row = req_session_id req" "state ?row = QUEUED"
    using req by (simp_all add: new_row_def dedup_key_def attempts_sane_def lease_is_whole_def)
  have none: "find (\<lambda>r. dedup_key r = dedup_key ?row) (jobs db) = None"
    using key by (auto simp: find_None_iff key')
  have no_events: "trace db new_id = []"
    using ok fresh by (force simp: trace_def filter_empty_conv db_ok_def db_ok_upto_def refs_ok_def)
  have "jobs_ok ?db1"
    using db_okD(1-3) [OF ok'] fresh key req row_ok_new [OF req(1)] sane sel key'
    by (auto simp: jobs_ok_def image_iff)
  moreover have "refs_ok ?db1"
    using ok sess sel by (auto simp: refs_ok_def db_ok_def db_ok_upto_def)
  moreover have "row_trace_ok {new_id} ?db1 x" if "x \<in> set (jobs ?db1)" for x
  proof (cases "x = ?row")
    case True
    with no_events sel show ?thesis by (simp add: row_trace_ok_def)
  next
    case False
    with that have x: "x \<in> set (jobs db)" by simp
    with fresh have "job_id x \<noteq> new_id" by blast
    with db_okD(5) [OF ok' x] show ?thesis by (simp add: row_trace_ok_def)
  qed
  ultimately have "db_ok_upto {new_id} ?db1"
    using db_okD(6) [OF ok'] by (simp add: db_ok_upto_def)
  then obtain db' where "record_event now ?row ?db1 = Inr db'" "db_ok db'" "jobs db' = jobs ?db1"
      "chat_messages db' = chat_messages ?db1" "dom (chat_sessions db') = dom (chat_sessions ?db1)"
    using record_event_ok [of "{new_id}" ?db1 ?row ?row now] sel by (auto simp: db_ok_def)
  then show ?thesis
    using req sane none fresh sess sel
    by (auto simp: insert_or_get_def Let_def split: option.splits)
qed

lemma insert_refused [store_spec]:
  assumes "int4 (req_max_attempts req)" "\<not> 0 < req_max_attempts req"
  shows "insert_or_get now new_id req db = Inl IntegrityError"
  using assms by (simp add: insert_or_get_def new_row_def attempts_sane_def)

lemma insert_Inr_ok [store_spec]:
  assumes ok: "db_ok db" and ins: "insert_or_get now new_id req db = Inr (res, db')"
  shows "db_ok db'"
proof -
  have req: "int4 (req_max_attempts req)" "0 < req_max_attempts req"
    using ins by (auto simp: insert_or_get_def Let_def new_row_def attempts_sane_def split: if_splits)
  show ?thesis
  proof (cases "find (\<lambda>r. dedup_key r = (req_session_id req, req_idempotency_key req)) (jobs db)")
    case (Some r)
    with insert_existing [OF req Some] ins ok show ?thesis by simp
  next
    case None
    then have key: "\<forall>r \<in> set (jobs db). dedup_key r \<noteq> (req_session_id req, req_idempotency_key req)"
      by (auto simp: find_None_iff)
    have "new_id \<notin> job_id ` set (jobs db)"
      and "\<And>s. req_session_id req = Some s \<Longrightarrow> chat_sessions db s \<noteq> None"
      using ins None
      by (auto simp: insert_or_get_def Let_def new_row_def dedup_key_def split: if_splits)
    with insert_new [OF ok req key, of new_id now] ins show ?thesis by auto
  qed
qed

end
