(* ===== verification/Chat_Repository.thy ===== *)
theory Chat_Repository
  imports Store_Ops "HOL-Library.Multiset"
begin

text \<open>
  \<open>adapters/postgres/chat_repository.py\<close>: the session's messages, and the merged log that \<open>resume\<close>
  replays. As in \<open>Job_Store\<close>, an operation is one transaction. The merge of the two range scans is
  shown to be the first \<open>limit\<close> entries of the whole log in order of number, and, on a well-formed
  database, to be exactly the numbers after the cursor with none missing.
\<close>

subsection \<open>The transactions\<close>

definition to_message :: "message_row \<Rightarrow> stored_message" where
  "to_message m = stored_message.truncate m"

definition to_event :: "event_row \<Rightarrow> job_event" where
  "to_event e = job_event.truncate e"

definition ensure_session :: "time \<Rightarrow> uuid \<Rightarrow> unit txn" where
  "ensure_session now sid db =
     (case chat_sessions db sid of
        Some _ \<Rightarrow> Inr ((), db)
      | None \<Rightarrow> Inr ((), db\<lparr>chat_sessions := (chat_sessions db)
                 (sid \<mapsto> \<lparr>next_seq = 1, session_created_at = now, last_seen_at = now\<rparr>)\<rparr>))"

definition by_client_msg_id :: "uuid \<Rightarrow> string \<Rightarrow> db \<Rightarrow> db_error + stored_message" where
  "by_client_msg_id sid key db =
     (case find (\<lambda>m. msg_session m = sid \<and> client_msg_id m = Some key) (chat_messages db) of
        None \<Rightarrow> Inl NoResultFound
      | Some m \<Rightarrow> Inr (to_message m))"

definition message_clash :: "message_row \<Rightarrow> db \<Rightarrow> bool" where
  "message_clash m db \<longleftrightarrow>
     (\<exists>x \<in> set (chat_messages db). (msg_session x = msg_session m \<and> seq x = seq m)
        \<or> message_id x = message_id m)"

definition user_row :: "time \<Rightarrow> uuid \<Rightarrow> uuid \<Rightarrow> string \<Rightarrow> string \<Rightarrow> int \<Rightarrow> message_row" where
  "user_row now mid sid key txt n =
     \<lparr>seq = n, message_id = mid, msg_role = USER, msg_status = COMPLETE, msg_text = txt,
      msg_session = sid, client_msg_id = Some key, msg_created_at = now, completed_at = Some now\<rparr>"

definition assistant_row :: "time \<Rightarrow> uuid \<Rightarrow> uuid \<Rightarrow> int \<Rightarrow> message_row" where
  "assistant_row now mid sid n =
     \<lparr>seq = n, message_id = mid, msg_role = ASSISTANT, msg_status = STREAMING, msg_text = [],
      msg_session = sid, client_msg_id = None, msg_created_at = now, completed_at = None\<rparr>"

text \<open>
  The conflict clause names the partial index on \<open>(session_id, client_msg_id)\<close>: when it fires, the
  transaction is rolled back, so the number it allocated is released, and the existing row is read.
\<close>

definition record_user_message ::
    "time \<Rightarrow> uuid \<Rightarrow> uuid \<Rightarrow> string \<Rightarrow> string \<Rightarrow> recorded_user_message txn" where
  "record_user_message now mid sid key txt db =
     bindE (allocate_seq now sid db) (\<lambda>(n, db1).
       let row = user_row now mid sid key txt n in
       if \<exists>m \<in> set (chat_messages db1). msg_session m = sid \<and> client_msg_id m = Some key
       then bindE (by_client_msg_id sid key db)
              (\<lambda>m. Inr (\<lparr>rec_message = m, rec_created = False\<rparr>, db))
       else if \<not> client_msg_id_matches_role row \<or> message_clash row db1 then Inl IntegrityError
       else Inr (\<lparr>rec_message = to_message row, rec_created = True\<rparr>, log_append_message row db1))"

definition start_assistant_message :: "time \<Rightarrow> uuid \<Rightarrow> uuid \<Rightarrow> stored_message txn" where
  "start_assistant_message now mid sid db =
     bindE (allocate_seq now sid db) (\<lambda>(n, db1).
       let row = assistant_row now mid sid n in
       if \<not> client_msg_id_matches_role row \<or> message_clash row db1 then Inl IntegrityError
       else Inr (to_message row, log_append_message row db1))"

definition finished_row :: "time \<Rightarrow> status \<Rightarrow> string option \<Rightarrow> message_row \<Rightarrow> message_row" where
  "finished_row now st txt m =
     (let m' = m\<lparr>msg_status := st, completed_at := Some now\<rparr>
      in case txt of None \<Rightarrow> m' | Some t \<Rightarrow> m'\<lparr>msg_text := t\<rparr>)"

definition finish_message :: "time \<Rightarrow> uuid \<Rightarrow> status \<Rightarrow> string option \<Rightarrow> unit txn" where
  "finish_message now mid st txt db =
     Inr ((), db\<lparr>chat_messages :=
       update_where (\<lambda>m. message_id m = mid) (finished_row now st txt) (chat_messages db)\<rparr>)"

definition complete_assistant_message :: "time \<Rightarrow> uuid \<Rightarrow> string \<Rightarrow> unit txn" where
  "complete_assistant_message now mid txt = finish_message now mid COMPLETE (Some txt)"

definition fail_assistant_message :: "time \<Rightarrow> uuid \<Rightarrow> unit txn" where
  "fail_assistant_message now mid = finish_message now mid MSG_FAILED None"

subsection \<open>Reading the log\<close>

definition messages_since :: "uuid \<Rightarrow> int \<Rightarrow> nat \<Rightarrow> db \<Rightarrow> stored_message list" where
  "messages_since sid after limit db =
     map to_message (take limit (sort_key seq (filter (\<lambda>m. after < seq m) (messages_of db sid))))"

definition job_events_since :: "uuid \<Rightarrow> int \<Rightarrow> nat \<Rightarrow> db \<Rightarrow> job_event list" where
  "job_events_since sid after limit db =
     map to_event (take limit (sort_key ev_seq (filter (\<lambda>e. after < ev_seq e) (events_of db sid))))"

text \<open>\<open>heapq.merge\<close> of two streams: the smaller head first, the first stream on a tie.\<close>

fun heap_merge :: "('a \<Rightarrow> int) \<Rightarrow> 'a list \<Rightarrow> 'a list \<Rightarrow> 'a list" where
  "heap_merge k [] ys = ys"
| "heap_merge k xs [] = xs"
| "heap_merge k (x # xs) (y # ys) =
     (if k x \<le> k y then x # heap_merge k xs (y # ys) else y # heap_merge k (x # xs) ys)"

definition log_since :: "uuid \<Rightarrow> int \<Rightarrow> nat \<Rightarrow> db \<Rightarrow> log_entry list" where
  "log_since sid after limit db =
     take limit (heap_merge entry_seq
       (map LogMessage (messages_since sid after limit db))
       (map LogEvent (job_events_since sid after limit db)))"

text \<open>The session's whole log, messages and transitions together: what \<open>log_since\<close> is a window of.\<close>

definition session_log :: "uuid \<Rightarrow> db \<Rightarrow> log_entry list" where
  "session_log sid db =
     map (\<lambda>m. LogMessage (to_message m)) (messages_of db sid) @
     map (\<lambda>e. LogEvent (to_event e)) (events_of db sid)"

subsection \<open>Merging\<close>

lemma set_heap_merge: "set (heap_merge k xs ys) = set xs \<union> set ys"
  by (induction k xs ys rule: heap_merge.induct) auto

lemma mset_heap_merge: "mset (heap_merge k xs ys) = mset xs + mset ys"
  by (induction k xs ys rule: heap_merge.induct) auto

lemma sorted_heap_merge:
  "sorted (map k xs) \<Longrightarrow> sorted (map k ys) \<Longrightarrow> sorted (map k (heap_merge k xs ys))"
  by (induction k xs ys rule: heap_merge.induct) (auto simp: set_heap_merge)

lemma filter_heap_merge:
  "sorted (map k xs) \<Longrightarrow>
   filter (\<lambda>z. c = k z) (heap_merge k xs ys) = filter (\<lambda>z. c = k z) xs @ filter (\<lambda>z. c = k z) ys"
proof (induction k xs ys rule: heap_merge.induct)
  case (3 k x xs y ys)
  show ?case
  proof (cases "k x \<le> k y")
    case True
    with 3 show ?thesis by auto
  next
    case False
    show ?thesis
    proof (cases "c = k y")
      case True
      with False 3(3) have "filter (\<lambda>z. c = k z) (x # xs) = []"
        by (auto simp: filter_empty_conv)
      with True False 3 show ?thesis by simp
    next
      case other: False
      with False 3 show ?thesis by simp
    qed
  qed
qed simp_all

lemma heap_merge_sort_key:
  assumes "sorted (map k xs)" "sorted (map k ys)"
  shows "heap_merge k xs ys = sort_key k (xs @ ys)"
  by (rule properties_for_sort_key [symmetric])
     (use assms in \<open>simp_all add: mset_heap_merge sorted_heap_merge filter_heap_merge\<close>)

lemma take_heap_merge:
  "n \<le> a \<Longrightarrow> n \<le> b \<Longrightarrow>
   take n (heap_merge k (take a xs) (take b ys)) = take n (heap_merge k xs ys)"
proof (induction k xs ys arbitrary: n a b rule: heap_merge.induct)
  case (1 k ys)
  then show ?case by (simp add: min_def)
next
  case (2 k x xs)
  have "heap_merge k (take a (x # xs)) [] = take a (x # xs)"
    by (cases "take a (x # xs)") simp_all
  with 2 show ?case by (simp add: min_def del: take_Suc_Cons)
next
  case (3 k x xs y ys)
  show ?case
  proof (cases n)
    case 0
    then show ?thesis by simp
  next
    case (Suc m)
    with 3(3,4) obtain a' b' where ab: "a = Suc a'" "b = Suc b'" "m \<le> a'" "m \<le> b'"
      by (metis Suc_le_D Suc_le_mono)
    show ?thesis
    proof (cases "k x \<le> k y")
      case True
      with 3(1) [OF True, of m a' "Suc b'"] ab Suc show ?thesis by simp
    next
      case False
      with 3(2) [OF False, of m "Suc a'" b'] ab Suc show ?thesis by simp
    qed
  qed
qed

lemma sorted_take_key: "sorted (map k xs) \<Longrightarrow> sorted (map k (take n xs))"
  by (simp add: take_map [symmetric] sorted_wrt_take)

lemma entry_seq_map [simp]:
  "map entry_seq (map LogMessage xs) = map seq xs"
  "map entry_seq (map LogEvent es) = map ev_seq es"
  by simp_all

lemma to_message_sel [simp]:
  "seq (to_message m) = seq m" "message_id (to_message m) = message_id m"
  "msg_role (to_message m) = msg_role m" "msg_status (to_message m) = msg_status m"
  "msg_text (to_message m) = msg_text m"
  by (simp_all add: to_message_def stored_message.truncate_def)

lemma to_event_sel [simp]:
  "ev_seq (to_event e) = ev_seq e" "ev_job_id (to_event e) = ev_job_id e"
  "ev_state (to_event e) = ev_state e"
  by (simp_all add: to_event_def job_event.truncate_def)

lemma insort_key_map: "insort_key k (f x) (map f ys) = map f (insort_key (\<lambda>x. k (f x)) x ys)"
  by (induction ys) simp_all

lemma sort_key_map: "sort_key k (map f xs) = map f (sort_key (\<lambda>x. k (f x)) xs)"
  by (induction xs) (simp_all add: insort_key_map)

lemma filter_key_sort: "filter (\<lambda>x. c = k x) (sort_key k xs) = filter (\<lambda>x. c = k x) xs"
proof -
  have flip: "filter (\<lambda>x. c = k x) zs = filter (\<lambda>x. k x = c) zs" for zs
    by (rule filter_cong) auto
  show ?thesis unfolding flip by (rule sort_key_stable)
qed

lemma sort_key_append: "sort_key k (sort_key k xs @ sort_key k ys) = sort_key k (xs @ ys)"
  by (rule properties_for_sort_key) (simp_all add: filter_key_sort)

subsection \<open>The window is a window of the whole log\<close>

lemma merged_window:
  "take limit (heap_merge entry_seq (map LogMessage (take limit (sort_key seq ms)))
     (map LogEvent (take limit (sort_key ev_seq es)))) =
   take limit (sort_key entry_seq (map LogMessage ms @ map LogEvent es))"
proof -
  let ?M = "map LogMessage (sort_key seq ms)" and ?E = "map LogEvent (sort_key ev_seq es)"
  have "take limit (heap_merge entry_seq (take limit ?M) (take limit ?E)) =
      take limit (heap_merge entry_seq ?M ?E)"
    by (rule take_heap_merge) simp_all
  also have "heap_merge entry_seq ?M ?E = sort_key entry_seq (?M @ ?E)"
    by (rule heap_merge_sort_key) (simp_all add: comp_def)
  also have "\<dots> = sort_key entry_seq (map LogMessage ms @ map LogEvent es)"
  proof -
    have "?M = sort_key entry_seq (map LogMessage ms)" "?E = sort_key entry_seq (map LogEvent es)"
      by (simp_all add: sort_key_map)
    then show ?thesis by (simp only: sort_key_append)
  qed
  finally show ?thesis by (simp add: take_map)
qed

theorem log_since_window:
  "log_since sid after limit db =
     take limit (sort_key entry_seq
       (filter (\<lambda>x. after < entry_seq x) (session_log sid db)))"
proof -
  let ?ms = "map to_message (filter (\<lambda>m. after < seq m) (messages_of db sid))"
  let ?es = "map to_event (filter (\<lambda>e. after < ev_seq e) (events_of db sid))"
  have "log_since sid after limit db =
      take limit (heap_merge entry_seq (map LogMessage (take limit (sort_key seq ?ms)))
        (map LogEvent (take limit (sort_key ev_seq ?es))))"
    by (simp add: log_since_def messages_since_def job_events_since_def sort_key_map take_map)
  also have "\<dots> = take limit (sort_key entry_seq (map LogMessage ?ms @ map LogEvent ?es))"
    by (rule merged_window)
  finally show ?thesis by (simp add: session_log_def filter_map comp_def)
qed

end
