(* ===== verification/Chat_Spec.thy ===== *)
theory Chat_Spec
  imports Chat_Repository
begin

text \<open>
  What the chat repository promises: the idempotency key deduplicates and costs no number, a reply
  row is numbered before its first chunk, and a replay hands back consecutive numbers. \<open>chat_ok\<close> is
  the part of the database invariant that speaks of messages; \<open>sys_ok\<close> is the whole of it.
\<close>

subsection \<open>The messages' invariant\<close>

definition user_key :: "message_row \<Rightarrow> uuid \<times> string option" where
  "user_key m = (msg_session m, client_msg_id m)"

definition chat_ok :: "db \<Rightarrow> bool" where
  "chat_ok db \<longleftrightarrow>
     distinct (map message_id (chat_messages db)) \<and>
     distinct (map user_key (filter (\<lambda>m. client_msg_id m \<noteq> None) (chat_messages db))) \<and>
     (\<forall>m \<in> set (chat_messages db). client_msg_id_matches_role m)"

definition sys_ok :: "db \<Rightarrow> bool" where
  "sys_ok db \<longleftrightarrow> db_ok db \<and> chat_ok db"

lemma sys_ok_empty: "sys_ok empty_db"
  by (simp add: sys_ok_def db_ok_empty chat_ok_def) (simp add: empty_db_def)

lemma chat_ok_frame: "chat_messages db' = chat_messages db \<Longrightarrow> chat_ok db' = chat_ok db"
  by (simp add: chat_ok_def)

lemma db_ok_frame:
  assumes ok: "db_ok db" and same: "jobs db' = jobs db" "job_events db' = job_events db"
    and sess: "dom (chat_sessions db) \<subseteq> dom (chat_sessions db')" and log: "log_ok db'"
  shows "db_ok db'"
proof -
  have tr: "trace db' jid = trace db jid" for jid using same by (simp add: trace_def)
  have "chat_sessions db' s \<noteq> None" if "chat_sessions db s \<noteq> None" for s
    using sess that by (auto simp: dom_def)
  then have "refs_ok db'"
    using ok same by (simp add: db_ok_def db_ok_upto_def refs_ok_def)
  moreover have "\<forall>r \<in> set (jobs db'). row_trace_ok {} db' r"
    using ok same tr by (simp add: db_ok_def db_ok_upto_def row_trace_ok_def)
  ultimately show ?thesis
    using ok same log by (simp add: db_ok_def db_ok_upto_def jobs_ok_def)
qed

lemma db_ok_log: "db_ok db \<Longrightarrow> log_ok db"
  by (simp add: db_ok_def db_ok_upto_def)

lemma log_append_message_sel [simp]:
  "jobs (log_append_message m db) = jobs db"
  "job_events (log_append_message m db) = job_events db"
  "chat_sessions (log_append_message m db) = chat_sessions db"
  "chat_messages (log_append_message m db) = chat_messages db @ [m]"
  by (simp_all add: log_append_message_def)

subsection \<open>Opening a session\<close>

lemma ensure_session_ok:
  assumes ok: "sys_ok db"
  shows "\<exists>db'. ensure_session now sid db = Inr ((), db') \<and> sys_ok db' \<and>
           chat_sessions db' sid \<noteq> None \<and> chat_messages db' = chat_messages db \<and> jobs db' = jobs db"
proof (cases "chat_sessions db sid")
  case (Some c)
  with ok show ?thesis by (simp add: ensure_session_def)
next
  case None
  let ?db' = "db\<lparr>chat_sessions := (chat_sessions db)
      (sid \<mapsto> \<lparr>next_seq = 1, session_created_at = now, last_seen_at = now\<rparr>)\<rparr>"
  have log: "log_ok db" using ok by (simp add: sys_ok_def db_ok_log)
  have "session_log_ok ?db' s" for s
  proof -
    have "session_log_ok db s" using log by (simp add: log_ok_def)
    with None show ?thesis
      by (cases "s = sid")
         (simp_all add: session_log_ok_def log_seqs_def messages_of_def events_of_def split: option.splits)
  qed
  then have "log_ok ?db'" by (simp add: log_ok_def)
  then have "db_ok ?db'"
    using ok by - (rule db_ok_frame [of db], auto simp: sys_ok_def)
  with ok None show ?thesis by (simp add: ensure_session_def sys_ok_def chat_ok_def)
qed

subsection \<open>Writing messages\<close>

lemma seq_free:
  assumes "log_ok db" "chat_sessions db sid = Some c" "m \<in> set (chat_messages db)" "msg_session m = sid"
  shows "seq m \<noteq> next_seq c"
proof -
  have "seq m \<in> set (log_seqs db sid)"
    using assms(3,4) by (auto simp: log_seqs_def messages_of_def)
  with assms(1,2) have "seq m < next_seq c" by (auto simp: log_ok_def intro: log_seqs_below)
  then show ?thesis by simp
qed

text \<open>
  Appending a row under a freshly allocated number, with an identity and a key no row has, is
  always accepted and keeps the invariant.
\<close>

lemma append_message_ok:
  assumes ok: "sys_ok db" and c: "chat_sessions db sid = Some c"
    and m: "msg_session m = sid" "seq m = next_seq c" "client_msg_id_matches_role m"
    and fresh: "message_id m \<notin> message_id ` set (chat_messages db)"
    and key: "client_msg_id m \<noteq> None \<longrightarrow> user_key m \<notin> user_key ` set (chat_messages db)"
  shows "\<exists>db1. allocate_seq now sid db = Inr (next_seq c, db1) \<and>
           chat_messages db1 = chat_messages db \<and> \<not> message_clash m db1 \<and>
           sys_ok (log_append_message m db1)"
proof -
  let ?db1 = "db\<lparr>chat_sessions := (chat_sessions db)
      (sid \<mapsto> c\<lparr>next_seq := next_seq c + 1, last_seen_at := now\<rparr>)\<rparr>"
  have log: "log_ok db" using ok by (simp add: sys_ok_def db_ok_log)
  have alloc: "allocate_seq now sid db = Inr (next_seq c, ?db1)" using c by (simp add: allocate_seq_Inr)
  have "\<not> message_clash m ?db1"
    using fresh seq_free [OF log c] m by (auto simp: message_clash_def image_iff)
  moreover have "log_ok (log_append_message m ?db1)"
    by (rule log_ok_allocate_message [OF log alloc m(1,2)])
  then have "db_ok (log_append_message m ?db1)"
    using ok c by - (rule db_ok_frame [of db], auto simp: sys_ok_def)
  moreover have "chat_ok (log_append_message m ?db1)"
    using ok fresh key m(3) by (auto simp: sys_ok_def chat_ok_def)
  ultimately show ?thesis using alloc by (auto simp: sys_ok_def)
qed

lemma record_new:
  assumes ok: "sys_ok db" and c: "chat_sessions db sid = Some c"
    and new: "\<forall>m \<in> set (chat_messages db). \<not> (msg_session m = sid \<and> client_msg_id m = Some key)"
    and fresh: "mid \<notin> message_id ` set (chat_messages db)"
  shows "\<exists>db'. record_user_message now mid sid key txt db =
             Inr (\<lparr>rec_message = to_message (user_row now mid sid key txt (next_seq c)),
                   rec_created = True\<rparr>, db') \<and> sys_ok db' \<and>
           chat_messages db' = chat_messages db @ [user_row now mid sid key txt (next_seq c)]"
proof -
  let ?m = "user_row now mid sid key txt (next_seq c)"
  have sel: "msg_session ?m = sid" "seq ?m = next_seq c" "client_msg_id_matches_role ?m"
      "message_id ?m = mid" "client_msg_id ?m = Some key"
    by (simp_all add: user_row_def client_msg_id_matches_role_def)
  have "user_key ?m \<notin> user_key ` set (chat_messages db)"
    using new sel by (auto simp: user_key_def)
  with append_message_ok [OF ok c sel(1-3), where now = now] fresh sel(4) obtain db1 where
    "allocate_seq now sid db = Inr (next_seq c, db1)" "chat_messages db1 = chat_messages db"
    "\<not> message_clash ?m db1" "sys_ok (log_append_message ?m db1)" by auto
  with new sel(3) show ?thesis by (auto simp: record_user_message_def Let_def)
qed

lemma record_known:
  assumes c: "chat_sessions db sid \<noteq> None"
    and old: "find (\<lambda>m. msg_session m = sid \<and> client_msg_id m = Some key) (chat_messages db) = Some m"
  shows "record_user_message now mid sid key txt db =
           Inr (\<lparr>rec_message = to_message m, rec_created = False\<rparr>, db)"
proof -
  obtain n db1 where a: "allocate_seq now sid db = Inr (n, db1)"
    using allocate_seq_known [OF c, of now] by blast
  then have "chat_messages db1 = chat_messages db" by (auto simp: allocate_seq_Inr)
  moreover have "\<exists>m \<in> set (chat_messages db). msg_session m = sid \<and> client_msg_id m = Some key"
    using old by (auto simp: find_Some_iff intro: nth_mem)
  ultimately show ?thesis
    using a old by (simp add: record_user_message_def by_client_msg_id_def Let_def)
qed

lemma record_no_session:
  "chat_sessions db sid = None \<Longrightarrow> record_user_message now mid sid key txt db = Inl (LookupError sid)"
  by (simp add: record_user_message_def allocate_seq_def)

lemma start_assistant_ok:
  assumes ok: "sys_ok db" and c: "chat_sessions db sid = Some c"
    and fresh: "mid \<notin> message_id ` set (chat_messages db)"
  shows "\<exists>db'. start_assistant_message now mid sid db =
             Inr (to_message (assistant_row now mid sid (next_seq c)), db') \<and> sys_ok db' \<and>
           chat_messages db' = chat_messages db @ [assistant_row now mid sid (next_seq c)]"
proof -
  let ?m = "assistant_row now mid sid (next_seq c)"
  have sel: "msg_session ?m = sid" "seq ?m = next_seq c" "client_msg_id_matches_role ?m"
      "message_id ?m = mid" "client_msg_id ?m = None"
    by (simp_all add: assistant_row_def client_msg_id_matches_role_def)
  with append_message_ok [OF ok c sel(1-3), where now = now] fresh obtain db1 where
    "allocate_seq now sid db = Inr (next_seq c, db1)" "chat_messages db1 = chat_messages db"
    "\<not> message_clash ?m db1" "sys_ok (log_append_message ?m db1)" by auto
  with sel(3) show ?thesis by (simp add: start_assistant_message_def Let_def)
qed

lemma start_no_session:
  "chat_sessions db sid = None \<Longrightarrow> start_assistant_message now mid sid db = Inl (LookupError sid)"
  by (simp add: start_assistant_message_def allocate_seq_def)

lemma finished_row_sel [simp]:
  "seq (finished_row now st txt m) = seq m" "message_id (finished_row now st txt m) = message_id m"
  "msg_role (finished_row now st txt m) = msg_role m"
  "msg_session (finished_row now st txt m) = msg_session m"
  "client_msg_id (finished_row now st txt m) = client_msg_id m"
  "msg_status (finished_row now st txt m) = st"
  "user_key (finished_row now st txt m) = user_key m"
  by (simp_all add: finished_row_def Let_def user_key_def split: option.splits)

lemma filter_update_where:
  assumes "\<And>r. Q (f r) = Q r" "\<And>r. k (f r) = k r"
  shows "map k (filter Q (update_where P f rows)) = map k (filter Q rows)"
  using assms by (induction rows) auto

lemma finish_message_ok:
  assumes ok: "sys_ok db"
  shows "\<exists>db'. finish_message now mid st txt db = Inr ((), db') \<and> sys_ok db' \<and>
           chat_messages db' = update_where (\<lambda>m. message_id m = mid) (finished_row now st txt)
             (chat_messages db)"
proof -
  let ?P = "\<lambda>m. message_id m = mid" and ?f = "finished_row now st txt"
  let ?db' = "db\<lparr>chat_messages := update_where ?P ?f (chat_messages db)\<rparr>"
  have seqs: "map seq (messages_of ?db' s) = map seq (messages_of db s)" for s
    unfolding messages_of_def by (simp add: filter_update_where)
  have evs: "events_of ?db' s = events_of db s" for s by (simp add: events_of_def)
  have nil: "messages_of ?db' s = [] \<longleftrightarrow> messages_of db s = []" for s
    using seqs [of s] by (metis map_is_Nil_conv)
  have "session_log_ok ?db' s \<longleftrightarrow> session_log_ok db s" for s
    unfolding session_log_ok_def log_seqs_def seqs evs nil by simp
  then have "log_ok ?db'"
    using ok by (simp add: log_ok_def sys_ok_def db_ok_def db_ok_upto_def)
  then have "db_ok ?db'" using ok by - (rule db_ok_frame [of db], auto simp: sys_ok_def)
  moreover have "chat_ok ?db'"
  proof -
    have "map message_id (chat_messages ?db') = map message_id (chat_messages db)"
      by (simp add: map_update_where_key)
    moreover have "map user_key (filter (\<lambda>m. client_msg_id m \<noteq> None) (chat_messages ?db')) =
        map user_key (filter (\<lambda>m. client_msg_id m \<noteq> None) (chat_messages db))"
      by (simp add: filter_update_where)
    moreover have "\<forall>m \<in> set (chat_messages ?db'). client_msg_id_matches_role m"
      using ok by (auto simp: sys_ok_def chat_ok_def client_msg_id_matches_role_def
          elim!: in_update_whereE)
    ultimately show ?thesis using ok by (simp add: sys_ok_def chat_ok_def)
  qed
  ultimately show ?thesis by (simp add: finish_message_def sys_ok_def)
qed

lemma record_Inr_ok:
  assumes ok: "sys_ok db" and rec: "record_user_message now mid sid key txt db = Inr (res, db')"
  shows "sys_ok db'"
proof (cases "chat_sessions db sid")
  case None
  with rec show ?thesis by (simp add: record_no_session)
next
  case (Some c)
  show ?thesis
  proof (cases "find (\<lambda>m. msg_session m = sid \<and> client_msg_id m = Some key) (chat_messages db)")
    case (Some m)
    with record_known [of db sid key m now mid "txt"] \<open>chat_sessions db sid = Some c\<close> rec ok
    show ?thesis by simp
  next
    case None
    then have new: "\<forall>m \<in> set (chat_messages db). \<not> (msg_session m = sid \<and> client_msg_id m = Some key)"
      by (auto simp: find_None_iff)
    have "mid \<notin> message_id ` set (chat_messages db)"
      using rec new Some
      by (auto simp: record_user_message_def Let_def allocate_seq_def message_clash_def user_row_def
          split: if_splits)
    with record_new [OF ok Some new, of mid now "txt"] rec show ?thesis by auto
  qed
qed

lemma start_Inr_ok:
  assumes ok: "sys_ok db" and start: "start_assistant_message now mid sid db = Inr (res, db')"
  shows "sys_ok db'"
proof (cases "chat_sessions db sid")
  case None
  with start show ?thesis by (simp add: start_no_session)
next
  case (Some c)
  have "mid \<notin> message_id ` set (chat_messages db)"
    using start Some
    by (auto simp: start_assistant_message_def Let_def allocate_seq_def message_clash_def
        assistant_row_def split: if_splits)
  with start_assistant_ok [OF ok Some, of mid now] start show ?thesis by auto
qed

subsection \<open>A replay has no hole\<close>

lemma entry_seqs_log: "map entry_seq (session_log sid db) = log_seqs db sid"
  by (simp add: session_log_def log_seqs_def comp_def)

lemma replay_consecutive:
  assumes ok: "log_ok db" and c: "chat_sessions db sid = Some c" and after: "0 \<le> after"
  shows "map entry_seq (take limit (sort_key entry_seq
           (filter (\<lambda>x. after < entry_seq x) (session_log sid db)))) =
         take limit [after + 1..next_seq c - 1]"
proof -
  let ?xs = "filter (\<lambda>x. after < entry_seq x) (session_log sid db)"
  have L: "map entry_seq ?xs = filter (\<lambda>n. after < n) (log_seqs db sid)"
    by (simp add: entry_seqs_log [symmetric] filter_map comp_def)
  have log: "distinct (log_seqs db sid)" "set (log_seqs db sid) = {1..<next_seq c}"
    using ok c by (auto simp: log_ok_def session_log_ok_def split: option.splits)
  have "map entry_seq (sort_key entry_seq ?xs) = sort (map entry_seq ?xs)"
    using sort_key_map [of "\<lambda>x. x" entry_seq ?xs] by simp
  also have "\<dots> = [after + 1..next_seq c - 1]"
  proof (rule sorted_distinct_set_unique)
    show "distinct (sort (map entry_seq ?xs))" using log by (simp add: L)
    show "set (sort (map entry_seq ?xs)) = set [after + 1..next_seq c - 1]"
      using log after by (auto simp: L)
  qed simp_all
  finally show ?thesis by (simp add: take_map [symmetric])
qed

end
