(* ===== verification/System.thy ===== *)
theory System
  imports Chat_Spec
begin

text \<open>
  The database as its clients see it: any interleaving of the transactions of the API replicas, the
  workers and their maintenance loops. Postgres serialises single-row conditional updates and the
  allocator's row lock, so a run is a sequence of transactions, each of which commits (\<open>Inr\<close>) or
  raises and changes nothing. The arguments are unconstrained: clocks may go backwards, leases may be
  stale or made up, sessions may be unknown. What is proved here holds of every such run.
\<close>

subsection \<open>Transactions as labels\<close>

datatype operation =
    Enqueue time uuid job_request
  | MarkPublished time uuid
  | Cancel time uuid
  | Claim time uuid uuid string time
  | Retire time
  | Extend time lease time
  | Ack time lease "string option"
  | Nack time lease string "time option"
  | EnsureSession time uuid
  | RecordUser time uuid uuid string string
  | StartAssistant time uuid uuid
  | CompleteAssistant time uuid string
  | FailAssistant time uuid

definition commit :: "db_error + ('a \<times> db) \<Rightarrow> db_error + db" where
  "commit r = map_sum id snd r"

fun exec :: "operation \<Rightarrow> db \<Rightarrow> db_error + db" where
  "exec (Enqueue now i req) db = commit (insert_or_get now i req db)"
| "exec (MarkPublished now j) db = commit (mark_published now j db)"
| "exec (Cancel now j) db = commit (cancel now j db)"
| "exec (Claim now t j ow d) db = commit (claim now t j ow d db)"
| "exec (Retire now) db = commit (retire_lapsed now db)"
| "exec (Extend now l d) db = commit (extend now l d db)"
| "exec (Ack now l ref) db = commit (ack now l ref db)"
| "exec (Nack now l e rt) db = commit (nack now l e rt db)"
| "exec (EnsureSession now s) db = commit (ensure_session now s db)"
| "exec (RecordUser now m s k x) db = commit (record_user_message now m s k x db)"
| "exec (StartAssistant now m s) db = commit (start_assistant_message now m s db)"
| "exec (CompleteAssistant now m x) db = commit (complete_assistant_message now m x db)"
| "exec (FailAssistant now m) db = commit (fail_assistant_message now m db)"

fun run :: "operation list \<Rightarrow> db \<Rightarrow> db" where
  "run [] db = db"
| "run (op # ops) db = run ops (case exec op db of Inl _ \<Rightarrow> db | Inr db' \<Rightarrow> db')"

fun minted :: "operation \<Rightarrow> uuid option" where
  "minted (Claim now t j ow d) = Some t"
| "minted _ = None"

inductive step :: "db \<Rightarrow> operation \<Rightarrow> db \<Rightarrow> bool" where
  commits: "exec op db = Inr db' \<Longrightarrow> step db op db'"

inductive reachable :: "db \<Rightarrow> bool" where
  start: "reachable empty_db"
| next_db: "reachable db \<Longrightarrow> step db op db' \<Longrightarrow> reachable db'"

inductive_simps step_iff: "step db op db'"

lemma commit_Inr [simp]: "commit r = Inr db' \<longleftrightarrow> (\<exists>x. r = Inr (x, db'))"
  by (cases r) (auto simp: commit_def)

lemma exec_Inr_induct [case_names step]:
  assumes "\<And>op db db'. Q db \<Longrightarrow> exec op db = Inr db' \<Longrightarrow> Q db'" "Q db"
  shows "Q (run ops db)"
  using assms(2)
proof (induction ops arbitrary: db)
  case Nil
  then show ?case by simp
next
  case (Cons op ops)
  show ?case
  proof (cases "exec op db")
    case (Inl e)
    with Cons show ?thesis by simp
  next
    case (Inr db')
    with assms(1) [OF Cons.prems Inr] Cons.IH show ?thesis by simp
  qed
qed

lemma run_append: "run (xs @ ys) db = run ys (run xs db)"
  by (induction xs arbitrary: db) simp_all

lemma reachable_run: "reachable db \<Longrightarrow> reachable (run ops db)"
  by (rule exec_Inr_induct) (auto intro: reachable.intros step.intros)

subsection \<open>What a transaction does to the table of jobs\<close>

text \<open>
  Every transaction either leaves the table alone, appends one row, or rewrites the rows that
  satisfy a condition; \<open>writes_rows\<close> lists which rewrite goes with which condition.
\<close>

inductive writes_rows :: "operation \<Rightarrow> (job_row \<Rightarrow> bool) \<Rightarrow> (job_row \<Rightarrow> job_row) \<Rightarrow> bool" where
  published: "writes_rows (MarkPublished now j) (\<lambda>r. job_id r = j) (published_row now)"
| cancelled: "writes_rows (Cancel now j) (\<lambda>r. job_id r = j \<and> \<not> terminal (state r)) (cancelled_row now)"
| claimed: "writes_rows (Claim now t j ow d) (\<lambda>r. job_id r = j \<and> (waiting now r \<or> lapsed now r))
     (claimed_row now t ow d)"
| retired: "writes_rows (Retire now) (lapsed_for_good now) (retired_row now)"
| extended: "writes_rows (Extend now l d) (fencing l) (extended_row now d)"
| acked: "writes_rows (Ack now l ref) (fencing l) (acked_row now ref)"
| nacked: "writes_rows (Nack now l e rt) (fencing l) (nacked_row now e rt)"

inductive jobs_step :: "operation \<Rightarrow> job_row list \<Rightarrow> job_row list \<Rightarrow> bool" where
  same: "jobs_step op js js"
| append: "jobs_step (Enqueue now i req) js (js @ [new_row now i req])"
| rewrite: "writes_rows op P f \<Longrightarrow> jobs_step op js (update_where P f js)"

inductive_cases jobs_stepE: "jobs_step op js js'"

lemma insert_event_jobs: "insert_job_event e db = Inr db' \<Longrightarrow> jobs db' = jobs db"
  by (auto simp: insert_job_event_def split: if_splits)

lemma record_event_jobs:
  "record_event now row db = Inr db' \<Longrightarrow> jobs db' = jobs db \<and> chat_messages db' = chat_messages db"
  by (auto simp: record_event_def allocate_seq_Inr insert_job_event_def result_simps
      split: option.splits if_splits)

lemma record_events_jobs:
  "foldE (\<lambda>s row. record_event now row s) db rows = Inr db' \<Longrightarrow>
   jobs db' = jobs db \<and> chat_messages db' = chat_messages db"
  by (induction rows arbitrary: db) (auto simp: result_simps dest!: record_event_jobs)

lemma jobs_step_frame: "jobs db' = jobs db \<Longrightarrow> jobs_step op (jobs db) (jobs db')"
  by (simp add: jobs_step.same)

lemma exec_jobs: "exec op db = Inr db' \<Longrightarrow> jobs_step op (jobs db) (jobs db')"
proof (induction op db rule: exec.induct)
  case (1 now i req db)
  then obtain res where "insert_or_get now i req db = Inr (res, db')" by auto
  then have "jobs db' = jobs db \<or> jobs db' = jobs db @ [new_row now i req]"
    by (auto simp: insert_or_get_def Let_def result_simps split: option.splits if_splits
        dest!: record_event_jobs)
  then show ?case by (auto intro: jobs_step.intros)
next
  case (2 now j db)
  then show ?case
    by (auto simp: mark_published_def intro: jobs_step.rewrite [OF writes_rows.published])
next
  case (3 now j db)
  then have "jobs db' = update_where (\<lambda>r. job_id r = j \<and> \<not> terminal (state r))
      (cancelled_row now) (jobs db)"
    by (auto simp: cancel_def Let_def result_simps split: list.splits if_splits
        dest!: record_event_jobs)
  then show ?case by (auto intro: jobs_step.intros writes_rows.intros)
next
  case (4 now t j ow d db)
  then have "jobs db' = update_where (\<lambda>r. job_id r = j \<and> (waiting now r \<or> lapsed now r))
      (claimed_row now t ow d) (jobs db)"
    by (auto simp: claim_def Let_def result_simps split: list.splits dest!: record_event_jobs)
  then show ?case by (auto intro: jobs_step.intros writes_rows.intros)
next
  case (5 now db)
  then have "jobs db' = update_where (lapsed_for_good now) (retired_row now) (jobs db)"
    by (auto simp: retire_lapsed_def Let_def result_simps dest!: record_events_jobs)
  then show ?case by (auto intro: jobs_step.intros writes_rows.intros)
next
  case (6 now l d db)
  then have "jobs db' = update_where (fencing l) (extended_row now d) (jobs db)"
    by (auto simp: extend_def Let_def split: list.splits)
  then show ?case by (auto intro: jobs_step.intros writes_rows.intros)
next
  case (7 now l ref db)
  then have "jobs db' = update_where (fencing l) (acked_row now ref) (jobs db)"
    by (auto simp: ack_def Let_def result_simps split: list.splits dest!: record_event_jobs)
  then show ?case by (auto intro: jobs_step.intros writes_rows.intros)
next
  case (8 now l e rt db)
  then have "jobs db' = update_where (fencing l) (nacked_row now e rt) (jobs db)"
    by (auto simp: nack_def Let_def result_simps split: list.splits dest!: record_event_jobs)
  then show ?case by (auto intro: jobs_step.intros writes_rows.intros)
next
  case (9 now s db)
  then show ?case by (auto simp: ensure_session_def split: option.splits intro!: jobs_step_frame)
next
  case (10 now m s k x db)
  then show ?case
    by (auto simp: record_user_message_def Let_def result_simps allocate_seq_Inr
        split: if_splits intro!: jobs_step_frame)
next
  case (11 now m s db)
  then show ?case
    by (auto simp: start_assistant_message_def Let_def result_simps allocate_seq_Inr
        split: if_splits intro!: jobs_step_frame)
next
  case (12 now m x db)
  then show ?case
    by (auto simp: complete_assistant_message_def finish_message_def intro!: jobs_step_frame)
next
  case (13 now m db)
  then show ?case
    by (auto simp: fail_assistant_message_def finish_message_def intro!: jobs_step_frame)
qed

subsection \<open>The invariant holds of every run\<close>

lemma claim_Inr_ok:
  assumes ok: "db_ok db" and c: "claim now t j ow d db = Inr (x, db')"
  shows "db_ok db' \<and> chat_messages db' = chat_messages db"
proof (cases "\<exists>r \<in> set (jobs db). job_id r = j \<and> (waiting now r \<or> lapsed now r)")
  case True
  then obtain r where r: "r \<in> set (jobs db)" "waiting now r \<or> lapsed now r" "j = job_id r" by blast
  from claim_granted [OF ok r(1,2), of t ow d] c r(3) show ?thesis by auto
next
  case False
  with claim_refused [of db j now t ow d] c ok show ?thesis by auto
qed

lemma cancel_Inr_ok:
  assumes ok: "db_ok db" and c: "cancel now j db = Inr (x, db')"
  shows "db_ok db' \<and> chat_messages db' = chat_messages db"
proof (cases "\<exists>r \<in> set (jobs db). job_id r = j \<and> \<not> terminal (state r)")
  case True
  then obtain r where r: "r \<in> set (jobs db)" "\<not> terminal (state r)" "j = job_id r" by blast
  from cancel_live [OF ok r(1,2), of now] c r(3) show ?thesis by auto
next
  case False
  with cancel_unknown [of db j now] c ok show ?thesis by auto
qed

lemma extend_Inr_ok:
  assumes ok: "db_ok db" and c: "extend now l d db = Inr (x, db')"
  shows "db_ok db' \<and> chat_messages db' = chat_messages db"
proof (cases "\<exists>r \<in> set (jobs db). fencing l r")
  case True
  then obtain r where r: "r \<in> set (jobs db)" "fencing l r" by blast
  from extend_live [OF ok r, of now d] c show ?thesis by auto
next
  case False
  with extend_stale [of db l now d] c show ?thesis by auto
qed

lemma ack_Inr_ok:
  assumes ok: "db_ok db" and c: "ack now l ref db = Inr (x, db')"
  shows "db_ok db' \<and> chat_messages db' = chat_messages db"
proof (cases "\<exists>r \<in> set (jobs db). fencing l r")
  case True
  then obtain r where r: "r \<in> set (jobs db)" "fencing l r" by blast
  from ack_live [OF ok r, of now ref] c show ?thesis by auto
next
  case False
  with ack_stale [of db l now ref] c show ?thesis by auto
qed

lemma nack_Inr_ok:
  assumes ok: "db_ok db" and c: "nack now l e rt db = Inr (x, db')"
  shows "db_ok db' \<and> chat_messages db' = chat_messages db"
proof (cases "\<exists>r \<in> set (jobs db). fencing l r")
  case True
  then obtain r where r: "r \<in> set (jobs db)" "fencing l r" by blast
  from nack_live [OF ok r, of now e rt] c show ?thesis by auto
next
  case False
  with nack_stale [of db l now e rt] c show ?thesis by auto
qed

lemma insert_messages:
  "insert_or_get now i req db = Inr (res, db') \<Longrightarrow> chat_messages db' = chat_messages db"
  by (auto simp: insert_or_get_def Let_def result_simps split: option.splits if_splits
      dest!: record_event_jobs)

lemma exec_sys_ok:
  assumes ok: "sys_ok db" and ex: "exec op db = Inr db'"
  shows "sys_ok db'"
proof -
  have job_side: ?thesis if "db_ok db' \<and> chat_messages db' = chat_messages db"
    using that ok chat_ok_frame [of db' db] by (simp add: sys_ok_def)
  have db: "db_ok db" using ok by (simp add: sys_ok_def)
  show ?thesis
  proof (cases op)
    case (Enqueue now i req)
    with ex db show ?thesis by (auto intro: job_side insert_Inr_ok insert_messages)
  next
    case (MarkPublished now j)
    with ex db show ?thesis by (intro job_side) (auto simp: mark_published_def mark_published_ok)
  next
    case (Cancel now j)
    with ex db show ?thesis by (auto intro: job_side dest: cancel_Inr_ok [OF db])
  next
    case (Claim now t j ow d)
    with ex db show ?thesis by (auto intro: job_side dest: claim_Inr_ok [OF db])
  next
    case (Retire now)
    with ex retire_lapsed_ok [OF db, of now] show ?thesis by (auto intro: job_side)
  next
    case (Extend now l d)
    with ex db show ?thesis by (auto intro: job_side dest: extend_Inr_ok [OF db])
  next
    case (Ack now l ref)
    with ex db show ?thesis by (auto intro: job_side dest: ack_Inr_ok [OF db])
  next
    case (Nack now l e rt)
    with ex db show ?thesis by (auto intro: job_side dest: nack_Inr_ok [OF db])
  next
    case (EnsureSession now s)
    with ex ensure_session_ok [OF ok, of now s] show ?thesis by auto
  next
    case (RecordUser now m s k x)
    with ex ok show ?thesis by (auto intro: record_Inr_ok)
  next
    case (StartAssistant now m s)
    with ex ok show ?thesis by (auto intro: start_Inr_ok)
  next
    case (CompleteAssistant now m x)
    with ex finish_message_ok [OF ok, of now m COMPLETE "Some x"] show ?thesis
      by (auto simp: complete_assistant_message_def)
  next
    case (FailAssistant now m)
    with ex finish_message_ok [OF ok, of now m MSG_FAILED None] show ?thesis
      by (auto simp: fail_assistant_message_def)
  qed
qed

lemma run_sys_ok: "sys_ok db \<Longrightarrow> sys_ok (run ops db)"
  by (rule exec_Inr_induct) (auto intro: exec_sys_ok)

lemma reachable_sys_ok: "reachable db \<Longrightarrow> sys_ok db"
proof (induction rule: reachable.induct)
  case start
  show ?case by (rule sys_ok_empty)
next
  case (next_db db op db')
  then show ?case by (auto simp: step_iff intro: exec_sys_ok)
qed

lemma sys_ok_row: "sys_ok db \<Longrightarrow> r \<in> set (jobs db) \<Longrightarrow> row_ok r"
  by (auto simp: sys_ok_def db_ok_def dest: db_okD(3))

subsection \<open>How a row may evolve\<close>

definition evolves :: "job_row \<Rightarrow> job_row \<Rightarrow> bool" where
  "evolves r r' \<longleftrightarrow>
     job_id r' = job_id r \<and> dedup_key r' = dedup_key r \<and> kind r' = kind r \<and>
     payload r' = payload r \<and> max_attempts r' = max_attempts r \<and>
     attempts r \<le> attempts r' \<and> (cancel_requested r \<longrightarrow> cancel_requested r') \<and>
     (terminal (state r) \<longrightarrow> to_job r' = to_job r)"

lemma evolves_refl [simp]: "evolves r r"
  by (simp add: evolves_def)

lemma evolves_trans: "evolves a b \<Longrightarrow> evolves b c \<Longrightarrow> evolves a c"
proof -
  assume 1: "evolves a b" and 2: "evolves b c"
  have "to_job c = to_job a" if t: "terminal (state a)"
  proof -
    from 1 t have ab: "to_job b = to_job a" by (simp add: evolves_def)
    then have "state b = state a" by (metis to_job_sel(4))
    with 2 t ab show ?thesis by (simp add: evolves_def)
  qed
  with 1 2 show "evolves a c" by (simp add: evolves_def)
qed

lemma writes_evolve:
  assumes "writes_rows op P f" "P r" "row_ok r"
  shows "evolves r (f r)"
  using assms
proof (cases rule: writes_rows.cases)
  case (published now j)
  then show ?thesis by (simp add: evolves_def published_row_def dedup_key_def to_job_def job.truncate_def)
next
  case (cancelled now j)
  with assms(2) show ?thesis by (simp add: evolves_def cancelled_row_def dedup_key_def)
next
  case (claimed now t j ow d)
  with assms(2) show ?thesis
    by (auto simp: evolves_def claimed_row_def dedup_key_def waiting_def lapsed_def)
next
  case (retired now)
  with assms(2) show ?thesis
    by (auto simp: evolves_def retired_row_def released_def dedup_key_def lapsed_for_good_def)
next
  case (extended now l d)
  with assms(2) fencing_running [OF assms(3), of l] show ?thesis
    by (simp add: evolves_def extended_row_def dedup_key_def)
next
  case (acked now l ref)
  with assms(2) fencing_running [OF assms(3), of l] show ?thesis
    by (simp add: evolves_def acked_row_def released_def dedup_key_def)
next
  case (nacked now l e rt)
  with assms(2) fencing_running [OF assms(3), of l] show ?thesis
    by (simp add: evolves_def nacked_row_def released_def dedup_key_def)
qed

lemma exec_evolves:
  assumes ok: "sys_ok db" and ex: "exec op db = Inr db'" and r: "r \<in> set (jobs db)"
  shows "\<exists>r' \<in> set (jobs db'). evolves r r'"
  using exec_jobs [OF ex]
proof (cases rule: jobs_step.cases)
  case same
  with r show ?thesis by (auto intro!: bexI [of _ r])
next
  case (append now i req)
  with r show ?thesis by (auto intro!: bexI [of _ r])
next
  case (rewrite P f)
  show ?thesis
  proof (cases "P r")
    case True
    with rewrite r show ?thesis
      using writes_evolve [OF rewrite(2) True sys_ok_row [OF ok r]] by (auto simp: set_update_where)
  next
    case False
    with rewrite r show ?thesis by (auto simp: set_update_where intro!: bexI [of _ r])
  qed
qed

lemma run_evolves:
  assumes "sys_ok db" "r \<in> set (jobs db)"
  shows "\<exists>r' \<in> set (jobs (run ops db)). evolves r r'"
  using assms
proof (induction ops arbitrary: db r)
  case Nil
  then show ?case by (auto intro!: bexI [of _ r])
next
  case (Cons op ops)
  show ?case
  proof (cases "exec op db")
    case (Inl e)
    with Cons show ?thesis by simp
  next
    case (Inr db')
    from exec_evolves [OF Cons.prems(1) Inr Cons.prems(2)] obtain r1
      where r1: "r1 \<in> set (jobs db')" "evolves r r1" by blast
    from Cons.IH [OF exec_sys_ok [OF Cons.prems(1) Inr] r1(1)] Inr r1(2) show ?thesis
      by (auto intro: evolves_trans)
  qed
qed

end
