(* ===== verification/Store_Properties.thy ===== *)
theory Store_Properties
  imports System
begin

text \<open>
  The contract of the job store, over every run of the system: terminal states are final, a lease
  that was superseded is refused forever, attempts are bounded, a cancelled job is never reported as
  a failure, the history of a job follows the diagram of \<open>docs/jobs.md\<close>, and no job is left where
  neither a consumer nor the sweep will find it.
\<close>

subsection \<open>A small run the witnesses evaluate\<close>

definition demo_request :: job_request where
  "demo_request = request ''synthetic'' [] (Some 7) ''key''"

definition demo_lease :: lease where
  "demo_lease = \<lparr>l_id = 100, l_job = to_job (claimed_row 10 100 ''w1'' 60 (new_row 5 1 demo_request)),
     l_owner = ''w1'', l_expires_at = 70\<rparr>"

definition demo_queued :: db where
  "demo_queued = run [EnsureSession 1 7, Enqueue 5 1 demo_request] empty_db"

definition demo_running :: db where
  "demo_running = run [Claim 10 100 1 ''w1'' 60] demo_queued"

lemmas demo_eval = demo_queued_def demo_running_def demo_request_def demo_lease_def request_def
  empty_db_def commit_def ensure_session_def insert_or_get_def Let_def new_row_def int4_def
  int4_max_def attempts_sane_def lease_is_whole_def record_event_def allocate_seq_def
  insert_job_event_def log_append_event_def claim_def waiting_def lapsed_def claimed_row_def
  to_job_def job.truncate_def dedup_key_def fencing_def

lemma demo_queued_ok: "sys_ok demo_queued"
  unfolding demo_queued_def by (rule run_sys_ok [OF sys_ok_empty])

lemma demo_running_ok: "sys_ok demo_running"
  unfolding demo_running_def by (rule run_sys_ok [OF demo_queued_ok])

lemma demo_queued_reachable: "reachable demo_queued"
  unfolding demo_queued_def by (rule reachable_run [OF reachable.start])

lemma demo_running_reachable: "reachable demo_running"
  unfolding demo_running_def by (rule reachable_run [OF demo_queued_reachable])

lemma demo_queued_jobs: "jobs demo_queued = [new_row 5 1 demo_request]"
  by (simp add: demo_eval)

lemma demo_queued_session: "chat_sessions demo_queued 7 =
    Some \<lparr>next_seq = 2, session_created_at = 1, last_seen_at = 5\<rparr>"
  by (simp add: demo_eval)

lemma demo_running_jobs: "jobs demo_running = [claimed_row 10 100 ''w1'' 60 (new_row 5 1 demo_request)]"
  by (simp add: demo_eval)

lemma demo_running_fenced: "fencing demo_lease (claimed_row 10 100 ''w1'' 60 (new_row 5 1 demo_request))"
  by (simp add: demo_eval)

subsection \<open>Reachable states\<close>

text \<open>C1: Every reachable database satisfies the whole invariant: well-formed rows (attempts within
  bounds, a lease exactly while running, an error on every failure), unique job ids, unique
  idempotency keys, foreign keys that resolve, gap-free session logs and histories that agree with
  the rows. The transactions may come in any order, with any arguments.\<close>

theorem reachable_invariant: "reachable db \<Longrightarrow> db_ok db \<and> chat_ok db"
  using reachable_sys_ok by (simp add: sys_ok_def)

theorem reachable_invariant_witness: "db_ok demo_running \<and> chat_ok demo_running"
  by (rule reachable_invariant [OF demo_running_reachable])

text \<open>C10: A terminal job is final: whatever transactions follow, the row is still there and the job
  a reader is given (state, result, error, attempts) is the one recorded when it ended.\<close>

theorem terminal_is_final:
  assumes "sys_ok db" "r \<in> set (jobs db)" "terminal (state r)"
  shows "\<exists>r' \<in> set (jobs (run ops db)). job_id r' = job_id r \<and> to_job r' = to_job r"
  using run_evolves [OF assms(1,2), of ops] assms(3) by (auto simp: evolves_def)

theorem terminal_is_final_witness:
  "\<exists>r' \<in> set (jobs (run [Claim 99 5 1 ''w2'' 60] (run [Cancel 6 1] demo_queued))).
     job_id r' = 1 \<and> state r' = CANCELLED"
proof -
  let ?r = "cancelled_row 6 (new_row 5 1 demo_request)"
  have "?r \<in> set (jobs (run [Cancel 6 1] demo_queued))" "terminal (state ?r)" "job_id ?r = 1"
    "state (to_job ?r) = CANCELLED"
    by (simp_all add: demo_eval cancel_def cancelled_row_def)
  then show ?thesis
    using terminal_is_final [OF run_sys_ok [OF demo_queued_ok], of ?r "[Cancel 6 1]"
        "[Claim 99 5 1 ''w2'' 60]"]
    by (metis to_job_sel(4))
qed

subsection \<open>Fencing\<close>

lemma writes_token:
  assumes "writes_rows op P f" "lease_id (f r) = Some t"
  shows "lease_id r = Some t \<or> minted op = Some t"
  using assms
  by (cases rule: writes_rows.cases)
     (auto simp: published_row_def cancelled_row_def claimed_row_def retired_row_def released_def
        extended_row_def acked_row_def nacked_row_def)

lemma jobs_step_token:
  assumes "jobs_step op js js'" "\<forall>r \<in> set js. lease_id r \<noteq> Some t" "minted op \<noteq> Some t"
  shows "\<forall>r \<in> set js'. lease_id r \<noteq> Some t"
  using assms
  by (cases rule: jobs_step.cases)
     (auto simp: new_row_def elim!: in_update_whereE dest: writes_token)

lemma run_token_gone:
  assumes "\<forall>r \<in> set (jobs db). lease_id r \<noteq> Some t" "\<forall>op \<in> set ops. minted op \<noteq> Some t"
  shows "\<forall>r \<in> set (jobs (run ops db)). lease_id r \<noteq> Some t"
  using assms
proof (induction ops arbitrary: db)
  case Nil
  then show ?case by simp
next
  case (Cons op ops)
  show ?case
  proof (cases "exec op db")
    case (Inl e)
    with Cons show ?thesis by simp
  next
    case (Inr db')
    from Cons.prems(2) have "minted op \<noteq> Some t" "\<forall>op \<in> set ops. minted op \<noteq> Some t" by simp_all
    with jobs_step_token [OF exec_jobs [OF Inr] Cons.prems(1)]
    have "\<forall>r \<in> set (jobs (run ops db')). lease_id r \<noteq> Some t" by (intro Cons.IH)
    with Inr show ?thesis by simp
  qed
qed

lemma fencing_needs_token: "fencing l r \<Longrightarrow> lease_id r = Some (l_id l)"
  by (simp add: fencing_def)

lemma stale_refused:
  assumes "\<forall>r \<in> set (jobs db). \<not> fencing l r"
  shows "ack now l ref db = Inl (stale_lease l) \<and> nack now l err rt db = Inl (stale_lease l) \<and>
         extend now l dur db = Inl (stale_lease l)"
  using assms by (simp add: ack_stale nack_stale extend_stale)

text \<open>C2: Fencing. Once a token is on no row (the job was claimed again, finished, or retired), and
  as long as no later claim mints it again, every \<open>ack\<close>, \<open>nack\<close> and \<open>extend\<close> that presents it raises
  \<open>StaleLease\<close> and writes nothing, after any further transactions: the paused consumer that wakes up
  cannot overwrite a result someone else recorded.\<close>

theorem superseded_lease_is_refused:
  assumes "\<forall>r \<in> set (jobs db). lease_id r \<noteq> Some (l_id l)"
    and "\<forall>op \<in> set ops. minted op \<noteq> Some (l_id l)"
  shows "ack now l ref (run ops db) = Inl (stale_lease l) \<and>
         nack now l err rt (run ops db) = Inl (stale_lease l) \<and>
         extend now l dur (run ops db) = Inl (stale_lease l)"
  using run_token_gone [OF assms] by (intro stale_refused) (auto dest: fencing_needs_token)

theorem superseded_lease_is_refused_witness:
  "ack 99 demo_lease None (run [] (run [Claim 80 101 1 ''w2'' 60] demo_running)) =
     Inl (StaleLease 100 1)"
proof -
  have "jobs (run [Claim 80 101 1 ''w2'' 60] demo_running) =
      [claimed_row 80 101 ''w2'' 60 (claimed_row 10 100 ''w1'' 60 (new_row 5 1 demo_request))]"
    by (simp add: demo_eval lease_before_def)
  then have "\<forall>r \<in> set (jobs (run [Claim 80 101 1 ''w2'' 60] demo_running)).
      lease_id r \<noteq> Some (l_id demo_lease)"
    by (simp add: demo_lease_def claimed_row_def)
  from superseded_lease_is_refused [OF this, of "[]" 99 None] show ?thesis
    by (simp add: stale_lease_def demo_eval)
qed

text \<open>A live token is honoured whatever the clock says: an expired lease nobody has taken is still
  its holder's, so \<open>extend\<close>, \<open>ack\<close> and \<open>nack\<close> all commit, each with the transition recorded in the
  same transaction, and the job becomes \<open>DONE\<close>, or what \<open>nack_state\<close> says.\<close>

theorem live_lease_is_honoured:
  assumes "db_ok db" "r \<in> set (jobs db)" "fencing l r"
  shows "(\<exists>l' db'. extend now l dur db = Inr (l', db') \<and> l_id l' = l_id l \<and>
            l_job l' = to_job r \<and> l_expires_at l' = now + dur \<and> db_ok db') \<and>
         (\<exists>db'. ack now l ref db = Inr ((), db') \<and> db_ok db' \<and>
            get (job_id r) db' = Some (to_job r\<lparr>state := DONE, result_ref := ref\<rparr>)) \<and>
         (\<exists>db'. nack now l err rt db = Inr (to_job r\<lparr>state := nack_state r, error := Some err\<rparr>, db') \<and>
            db_ok db' \<and>
            get (job_id r) db' = Some (to_job r\<lparr>state := nack_state r, error := Some err\<rparr>))"
proof (intro conjI)
  show "\<exists>l' db'. extend now l dur db = Inr (l', db') \<and> l_id l' = l_id l \<and>
            l_job l' = to_job r \<and> l_expires_at l' = now + dur \<and> db_ok db'"
    using extend_live [OF assms, of now dur]
    by (simp add: extended_row_def to_job_def job.truncate_def)
  have a: "to_job (acked_row now ref r) = to_job r\<lparr>state := DONE, result_ref := ref\<rparr>"
    by (simp add: acked_row_def released_def to_job_def job.truncate_def)
  have n: "to_job (nacked_row now err rt r) = to_job r\<lparr>state := nack_state r, error := Some err\<rparr>"
    by (simp add: nacked_row_def released_def to_job_def job.truncate_def)
  have hit: "f r \<in> set (update_where (fencing l) f (jobs db))" for f
    using assms(2,3) by (auto simp: set_update_where)
  obtain da where da: "ack now l ref db = Inr ((), da)" "db_ok da"
      "jobs da = update_where (fencing l) (acked_row now ref) (jobs db)"
    using ack_live [OF assms, of now ref] by blast
  with hit [of "acked_row now ref"] get_known [of da "acked_row now ref r"] a
  show "\<exists>db'. ack now l ref db = Inr ((), db') \<and> db_ok db' \<and>
            get (job_id r) db' = Some (to_job r\<lparr>state := DONE, result_ref := ref\<rparr>)"
    by (auto simp: writes_keep_identity)
  obtain dn where dn: "nack now l err rt db = Inr (to_job (nacked_row now err rt r), dn)" "db_ok dn"
      "jobs dn = update_where (fencing l) (nacked_row now err rt) (jobs db)"
    using nack_live [OF assms, of now err rt] by blast
  with hit [of "nacked_row now err rt"] get_known [of dn "nacked_row now err rt r"] n
  show "\<exists>db'. nack now l err rt db = Inr (to_job r\<lparr>state := nack_state r, error := Some err\<rparr>, db') \<and>
            db_ok db' \<and>
            get (job_id r) db' = Some (to_job r\<lparr>state := nack_state r, error := Some err\<rparr>)"
    by (auto simp: writes_keep_identity)
qed

theorem live_lease_is_honoured_witness:
  "\<exists>db'. ack 5000 demo_lease (Some ''ref'') demo_running = Inr ((), db') \<and> db_ok db'"
  using live_lease_is_honoured [of demo_running "claimed_row 10 100 ''w1'' 60 (new_row 5 1 demo_request)"
      demo_lease 5000 0 "Some ''ref''"] demo_running_ok demo_running_jobs demo_running_fenced
  by (auto simp: sys_ok_def)

subsection \<open>Attempts\<close>

text \<open>A job is attempted at most \<open>max_attempts\<close> times: in every reachable database the count is
  between 0 and the bound, which fits the \<open>integer\<close> column, so \<open>attempts + 1\<close> never overflows; a job
  waiting for its next attempt always has one left.\<close>

theorem attempts_bounded:
  assumes "reachable db" "r \<in> set (jobs db)"
  shows "0 \<le> attempts r \<and> attempts r \<le> max_attempts r \<and> max_attempts r \<le> int4_max \<and>
         (waiting now r \<or> lapsed now r \<longrightarrow> attempts r < max_attempts r)"
  using sys_ok_row [OF reachable_sys_ok [OF assms(1)] assms(2)]
  by (auto simp: row_ok_defs waiting_def lapsed_def)

theorem attempts_bounded_witness:
  "\<exists>r \<in> set (jobs demo_running). attempts r = 1 \<and> attempts r \<le> max_attempts r"
  using attempts_bounded [OF demo_running_reachable,
      of "claimed_row 10 100 ''w1'' 60 (new_row 5 1 demo_request)" 0]
  by (simp add: demo_running_jobs) (simp add: claimed_row_def new_row_def)

subsection \<open>History and log\<close>

text \<open>C11: The transitions recorded for a job of a session are a path of the state diagram of
  \<open>docs/jobs.md\<close>: they begin with \<open>queued\<close>, follow its edges, end in the state the row holds, and
  contain \<open>done\<close> at most once, so no job is completed twice. A job without a session has none.\<close>

theorem history_follows_diagram:
  assumes "reachable db" "r \<in> set (jobs db)"
  shows "if session_id r = None then trace db (job_id r) = []
         else path (trace db (job_id r)) \<and> last (trace db (job_id r)) = state r \<and>
              count_list (trace db (job_id r)) DONE \<le> 1"
proof -
  have "row_trace_ok {} db r"
    using reachable_sys_ok [OF assms(1)] assms(2) by (auto simp: sys_ok_def db_ok_def dest: db_okD(5))
  then show ?thesis using path_done_once [of "trace db (job_id r)"] by (simp add: row_trace_ok_def)
qed

theorem history_follows_diagram_witness:
  "path (trace demo_running 1) \<and> last (trace demo_running 1) = RUNNING"
  using history_follows_diagram [OF demo_running_reachable,
      of "claimed_row 10 100 ''w1'' 60 (new_row 5 1 demo_request)"]
  by (simp add: demo_running_jobs) (simp add: claimed_row_def new_row_def demo_request_def request_def)

text \<open>The log of a session has no gap and no duplicate: the numbers its messages and its job
  transitions hold are together exactly \<open>1, 2, ..., next_seq - 1\<close>, each once.\<close>

theorem session_log_gap_free:
  assumes "reachable db" "chat_sessions db sid = Some c"
  shows "sort (map entry_seq (session_log sid db)) = [1..next_seq c - 1]"
proof -
  have "log_ok db" using reachable_sys_ok [OF assms(1)] by (simp add: sys_ok_def db_ok_log)
  then have "distinct (log_seqs db sid)" "set (log_seqs db sid) = {1..<next_seq c}"
    using assms(2) by (auto simp: log_ok_def session_log_ok_def split: option.splits)
  note log = this
  show ?thesis
    unfolding entry_seqs_log
  proof (rule sorted_distinct_set_unique)
    show "distinct (sort (log_seqs db sid))" using log by simp
    have "{1..<next_seq c} = {1..next_seq c - 1}" by auto
    then show "set (sort (log_seqs db sid)) = set [1..next_seq c - 1]" using log by simp
  qed simp_all
qed

theorem session_log_gap_free_witness: "sort (map entry_seq (session_log 7 demo_queued)) = [1..1]"
  using session_log_gap_free [OF demo_queued_reachable demo_queued_session] by simp

subsection \<open>Claiming\<close>

text \<open>C3: A claim succeeds exactly on a job that is reservable (waiting with its backoff over, or
  running on a lapsed lease with attempts left and no cancellation), increments its attempts and
  puts the fresh token on it; in every other case it changes nothing and never raises. So a job
  under a lease that has not passed its deadline is never handed out a second time.\<close>

theorem claim_decides:
  assumes "db_ok db"
  shows "(case find (\<lambda>r. job_id r = jid \<and> (waiting now r \<or> lapsed now r)) (jobs db) of
            None \<Rightarrow> claim now token jid owner dur db = Inr (None, db)
          | Some r \<Rightarrow> \<exists>l db'. claim now token jid owner dur db = Inr (Some l, db') \<and> db_ok db' \<and>
              l_id l = token \<and> l_expires_at l = now + dur \<and>
              l_job l = to_job r\<lparr>state := RUNNING, attempts := attempts r + 1\<rparr> \<and>
              get jid db' = Some (l_job l) \<and>
              (\<forall>now2 token2 owner2 dur2. now2 \<le> now + dur \<longrightarrow>
                 claim now2 token2 jid owner2 dur2 db' = Inr (None, db')))"
proof (cases "find (\<lambda>r. job_id r = jid \<and> (waiting now r \<or> lapsed now r)) (jobs db)")
  case None
  then have "\<forall>r \<in> set (jobs db). \<not> (job_id r = jid \<and> (waiting now r \<or> lapsed now r))"
    by (auto simp: find_None_iff)
  with None show ?thesis by (simp add: claim_refused)
next
  case (Some r)
  then have r: "r \<in> set (jobs db)" "waiting now r \<or> lapsed now r" "jid = job_id r"
    by (auto simp: find_Some_iff)
  let ?f = "claimed_row now token owner dur"
  let ?P = "\<lambda>x. job_id x = job_id r \<and> (waiting now x \<or> lapsed now x)"
  obtain db' where c: "claim now token (job_id r) owner dur db =
             Inr (Some \<lparr>l_id = token, l_job = to_job (?f r), l_owner = owner, l_expires_at = now + dur\<rparr>, db')"
      and ok': "db_ok db'" and js: "jobs db' = update_where ?P ?f (jobs db)"
    using claim_granted [OF assms r(1,2), of token owner dur] by blast
  have fr: "?f r \<in> set (jobs db')" using r by (auto simp: js set_update_where)
  have got: "get jid db' = Some (to_job (?f r))"
    using get_known [OF ok' fr] r(3) by (simp add: writes_keep_identity)
  have job: "to_job (?f r) = to_job r\<lparr>state := RUNNING, attempts := attempts r + 1\<rparr>"
    by (simp add: claimed_row_def to_job_def job.truncate_def)
  have held: "\<not> waiting now2 (?f r) \<and> (now2 \<le> now + dur \<longrightarrow> \<not> lapsed now2 (?f r))" for now2
    by (simp add: waiting_def lapsed_def lease_before_def claimed_row_def)
  have "claim now2 token2 jid owner2 dur2 db' = Inr (None, db')" if "now2 \<le> now + dur"
    for now2 token2 owner2 dur2
  proof (rule claim_refused, intro ballI notI)
    fix x
    assume x: "x \<in> set (jobs db')" "job_id x = jid \<and> (waiting now2 x \<or> lapsed now2 x)"
    have "x = ?f r"
      using same_job [OF ok' [unfolded db_ok_def] x(1) fr] x(2) r(3)
      by (simp add: writes_keep_identity)
    with x(2) held that show False by blast
  qed
  with Some c got job ok' r(3) show ?thesis by auto
qed

theorem claim_decides_witness:
  "claim 60 101 1 ''w2'' 60 demo_running = Inr (None, demo_running)"
  using claim_decides [of demo_running 1 60 101 "''w2''" 60] demo_running_ok
  by (simp add: sys_ok_def demo_running_jobs)
     (simp add: demo_eval lease_before_def)

subsection \<open>Producing\<close>

text \<open>Enqueueing is idempotent on the session and the key: once a submit has returned a job, every
  later submit with that key, whatever else it asks for and whatever happened in between, returns
  the job of that id, reports that it created nothing, and writes nothing.\<close>

theorem enqueue_is_idempotent:
  assumes ok: "sys_ok db" and first: "insert_or_get now i req db = Inr ((j, created), db1)"
    and key: "req_session_id req' = req_session_id req"
      "req_idempotency_key req' = req_idempotency_key req"
    and valid: "int4 (req_max_attempts req')" "0 < req_max_attempts req'"
  shows "\<exists>j'. insert_or_get now' i' req' (run ops db1) = Inr ((j', False), run ops db1) \<and>
           job_id j' = job_id j"
proof -
  let ?k = "(req_session_id req, req_idempotency_key req)"
  have ok1: "sys_ok db1"
    using exec_sys_ok [OF ok, of "Enqueue now i req" db1] first by (simp add: commit_def)
  have "\<exists>r \<in> set (jobs db1). job_id r = job_id j \<and> dedup_key r = ?k"
    using first
    by (auto simp: insert_or_get_def Let_def result_simps new_row_def dedup_key_def find_Some_iff
        split: option.splits if_splits dest!: record_event_jobs intro: nth_mem)
  then obtain r where r: "r \<in> set (jobs db1)" "job_id r = job_id j" "dedup_key r = ?k" by blast
  from run_evolves [OF ok1 r(1), of ops] obtain r'
    where r': "r' \<in> set (jobs (run ops db1))" "evolves r r'" by blast
  with r have id: "job_id r' = job_id j" "dedup_key r' = ?k" by (auto simp: evolves_def)
  have "distinct (map dedup_key (jobs (run ops db1)))"
    using run_sys_ok [OF ok1, of ops] by (auto simp: sys_ok_def db_ok_def dest: db_okD(2))
  from find_key_Some [OF this r'(1)] id(2)
  have "find (\<lambda>x. dedup_key x = (req_session_id req', req_idempotency_key req')) (jobs (run ops db1)) = Some r'"
    by (simp add: key)
  from insert_existing [OF valid this, of now' i'] id(1) show ?thesis by simp
qed

theorem enqueue_is_idempotent_witness:
  "\<exists>j'. insert_or_get 9 2 demo_request (run [] demo_queued) = Inr ((j', False), run [] demo_queued) \<and>
     job_id j' = 1"
proof -
  have first: "insert_or_get 5 1 demo_request (run [EnsureSession 1 7] empty_db) =
      Inr ((to_job (new_row 5 1 demo_request), True), demo_queued)"
    by (simp add: demo_eval)
  have "sys_ok (run [EnsureSession 1 7] empty_db)" by (rule run_sys_ok [OF sys_ok_empty])
  from enqueue_is_idempotent [OF this first, of demo_request 9 2 "[]"] show ?thesis
    by (simp add: demo_request_def request_def int4_def int4_max_def new_row_def)
qed

subsection \<open>Cancelling\<close>

text \<open>Cancelling is idempotent: the second request returns what the first returned (\<open>None\<close> for an
  unknown id), writes no event, and the answer is the row's: cancelled at once when no consumer
  holds the job, only flagged when one does, unchanged when the job had ended.\<close>

theorem cancel_is_idempotent:
  assumes ok: "db_ok db"
  shows "\<exists>res db1 db2. cancel now jid db = Inr (res, db1) \<and> cancel now2 jid db1 = Inr (res, db2) \<and>
           job_events db2 = job_events db1 \<and> get jid db1 = res \<and>
           (case find (\<lambda>r. job_id r = jid) (jobs db) of
              None \<Rightarrow> res = None
            | Some r \<Rightarrow> res = Some (if terminal (state r) then to_job r
                 else to_job r\<lparr>cancel_requested := True,
                        state := (if state r = RUNNING then RUNNING else CANCELLED)\<rparr>))"
proof (cases "find (\<lambda>r. job_id r = jid) (jobs db)")
  case None
  then have none: "\<forall>r \<in> set (jobs db). job_id r \<noteq> jid" by (auto simp: find_None_iff)
  have c: "cancel t jid db = Inr (None, db)" for t
    using cancel_unknown [of db jid t] none None by (simp add: get_def)
  with None show ?thesis by (simp add: get_def)
next
  case (Some r)
  then have r: "r \<in> set (jobs db)" "jid = job_id r" by (auto simp: find_Some_iff)
  have got: "get jid db = Some (to_job r)" using get_known [OF ok r(1)] r(2) by simp
  show ?thesis
  proof (cases "terminal (state r)")
    case True
    have "\<forall>x \<in> set (jobs db). \<not> (job_id x = jid \<and> \<not> terminal (state x))"
      using same_job [OF ok [unfolded db_ok_def] _ r(1)] r(2) True by blast
    then have "cancel t jid db = Inr (Some (to_job r), db)" for t
      using cancel_unknown [of db jid t] got by simp
    with Some True got show ?thesis by simp
  next
    case False
    let ?r1 = "cancelled_row now r"
    obtain db1 where c1: "cancel now (job_id r) db = Inr (Some (to_job ?r1), db1)" "db_ok db1"
        "jobs db1 = update_where (\<lambda>x. job_id x = job_id r \<and> \<not> terminal (state x)) (cancelled_row now) (jobs db)"
      using cancel_live [OF ok r(1) False, of now] by blast
    have r1: "?r1 \<in> set (jobs db1)" "job_id ?r1 = job_id r"
      using r(1) False by (auto simp: c1(3) set_update_where writes_keep_identity)
    have got1: "get (job_id r) db1 = Some (to_job ?r1)" using get_known [OF c1(2) r1(1)] r1(2) by simp
    have job: "to_job ?r1 = to_job r\<lparr>cancel_requested := True,
        state := (if state r = RUNNING then RUNNING else CANCELLED)\<rparr>"
      by (simp add: cancelled_row_def to_job_def job.truncate_def)
    have "\<exists>db2. cancel now2 (job_id r) db1 = Inr (Some (to_job ?r1), db2) \<and>
        job_events db2 = job_events db1"
    proof (cases "state r = RUNNING")
      case True
      have run1: "state ?r1 = RUNNING" using True by (simp add: cancelled_row_def)
      have same: "to_job (cancelled_row now2 ?r1) = to_job ?r1"
        using True by (simp add: cancelled_row_def to_job_def job.truncate_def)
      have "returning (\<lambda>x. job_id x = job_id r \<and> \<not> terminal (state x)) (cancelled_row now2) (jobs db1)
          = [cancelled_row now2 ?r1]"
        by (rule returning_unique [OF db_okD(1) [OF c1(2) [unfolded db_ok_def]] r1(1)])
           (simp_all add: run1 r1(2))
      moreover have "state (cancelled_row now2 ?r1) = RUNNING" using run1 by (simp add: cancelled_row_def)
      ultimately show ?thesis by (simp add: cancel_def same)
    next
      case other: False
      have "terminal (state ?r1)" using other by (simp add: cancelled_row_def)
      then have "\<forall>x \<in> set (jobs db1). \<not> (job_id x = job_id r \<and> \<not> terminal (state x))"
        using same_job [OF c1(2) [unfolded db_ok_def] _ r1(1)] r1(2) by metis
      from cancel_unknown [OF this, of now2] got1 show ?thesis by simp
    qed
    then obtain db2 where c2: "cancel now2 (job_id r) db1 = Inr (Some (to_job ?r1), db2)"
        "job_events db2 = job_events db1" by blast
    have what: "to_job ?r1 = (if terminal (state r) then to_job r
        else to_job r\<lparr>cancel_requested := True,
               state := (if state r = RUNNING then RUNNING else CANCELLED)\<rparr>)"
      using False job by simp
    have found: "find (\<lambda>x. job_id x = job_id r) (jobs db) = Some r" using Some r(2) by simp
    show ?thesis
      unfolding r(2) found option.case
      by (rule exI [of _ "Some (to_job ?r1)"], rule exI [of _ db1], rule exI [of _ db2])
         (use c1(1) c2 got1 what in blast)
  qed
qed

theorem cancel_is_idempotent_witness:
  "\<exists>db2. cancel 21 1 (run [Cancel 20 1] demo_running) =
     Inr (Some (to_job (cancelled_row 20 (hd (jobs demo_running)))), db2)"
proof -
  have "cancel 20 1 demo_running =
      Inr (Some (to_job (cancelled_row 20 (hd (jobs demo_running)))), run [Cancel 20 1] demo_running)"
    by (simp add: demo_eval cancel_def cancelled_row_def)
  moreover have "db_ok demo_running" using demo_running_ok by (simp add: sys_ok_def)
  note cancel_is_idempotent [OF this, of 20 1 21]
  ultimately show ?thesis by (elim exE conjE) (simp only: sum.inject prod.inject, blast)
qed

text \<open>Once \<open>cancel_requested\<close> is set, no path reports the job as a failure: in every reachable
  database such a job is running, done or cancelled, never \<open>failed\<close> nor \<open>dead\<close>; a \<open>nack\<close> makes it
  cancelled whatever error it carries, and the sweep of lapsed leases makes it cancelled too,
  without the lease-expiry message, however many attempts remain.\<close>

theorem cancelled_is_never_a_failure:
  assumes "reachable db" "r \<in> set (jobs db)" "cancel_requested r"
  shows "state r \<in> {RUNNING, DONE, CANCELLED} \<and> \<not> waiting now r \<and> \<not> lapsed now r \<and>
         state (nacked_row now err rt r) = CANCELLED \<and>
         state (retired_row now r) = CANCELLED \<and> error (retired_row now r) = error r \<and>
         (state r = RUNNING \<and> lease_before now r \<longrightarrow> lapsed_for_good now r)"
  using sys_ok_row [OF reachable_sys_ok [OF assms(1)] assms(2)] assms(3)
  by (cases "state r")
     (auto simp: row_ok_def waiting_def lapsed_def lapsed_for_good_def nacked_row_def released_def
        nack_state_def retired_row_def)

theorem cancelled_is_never_a_failure_witness:
  "state (retired_row 500 (cancelled_row 20 (hd (jobs demo_running)))) = CANCELLED"
proof -
  have "jobs (run [Cancel 20 1] demo_running) = [cancelled_row 20 (hd (jobs demo_running))]"
    by (simp add: demo_eval cancel_def cancelled_row_def)
  then show ?thesis
    using cancelled_is_never_a_failure [OF reachable_run [OF demo_running_reachable],
        of "cancelled_row 20 (hd (jobs demo_running))" "[Cancel 20 1]" 500]
    by (simp add: cancelled_row_def)
qed

subsection \<open>Nothing is stranded\<close>

lemma retire_hits:
  assumes "db_ok db" "r \<in> set (jobs db)" "lapsed_for_good now r"
  shows "\<exists>ids db'. retire_lapsed now db = Inr (ids, db') \<and> job_id r \<in> set ids \<and>
           (\<exists>j. get (job_id r) db' = Some j \<and> terminal (state j))"
proof -
  obtain db' where d: "retire_lapsed now db = Inr (map job_id (filter (lapsed_for_good now) (jobs db)), db')"
      "db_ok db'" "jobs db' = update_where (lapsed_for_good now) (retired_row now) (jobs db)"
    using retire_lapsed_ok [OF assms(1), of now] by blast
  have "retired_row now r \<in> set (jobs db')" using assms(2,3) by (auto simp: d(3) set_update_where)
  from get_known [OF d(2) this]
  have "get (job_id r) db' = Some (to_job (retired_row now r))" by (simp add: writes_keep_identity)
  moreover have "terminal (state (retired_row now r))" by (simp add: retired_row_def released_def)
  ultimately show ?thesis using d(1) assms(2,3) by auto
qed

text \<open>C4: No job is stranded. Every job that has not ended is, from some instant on, either handed
  out by the next claim that names it or finished by the next maintenance sweep, if nobody acts on it
  before: backoffs elapse, leases lapse, and no combination of the columns falls between the two
  predicates.\<close>

theorem no_job_is_stranded:
  assumes ok: "sys_ok db" and r: "r \<in> set (jobs db)" and live: "\<not> terminal (state r)"
  shows "\<exists>t0. \<forall>now \<ge> t0.
           (\<exists>l db'. claim now token (job_id r) owner dur db = Inr (Some l, db')) \<or>
           (\<exists>ids db'. retire_lapsed now db = Inr (ids, db') \<and> job_id r \<in> set ids \<and>
              (\<exists>j. get (job_id r) db' = Some j \<and> terminal (state j)))"
proof -
  let ?t0 = "case lease_expires_at r of None \<Rightarrow> run_after r | Some e \<Rightarrow> e + 1"
  have rok: "row_ok r" by (rule sys_ok_row [OF ok r])
  have dok: "db_ok db" using ok by (simp add: sys_ok_def)
  have "waiting now r \<or> lapsed now r \<or> lapsed_for_good now r" if "?t0 \<le> now" for now
    using rok live that
    by (cases "state r")
       (auto simp: row_ok_def lease_is_whole_def waiting_def lapsed_def lapsed_for_good_def
          lease_before_def split: option.splits)
  then show ?thesis
    using claim_granted [OF dok r, of _ token owner dur] retire_hits [OF dok r]
    by (intro exI [of _ ?t0]) blast
qed

theorem no_job_is_stranded_witness:
  "\<exists>t0. \<forall>now \<ge> t0. (\<exists>l db'. claim now 5 1 ''w'' 60 demo_running = Inr (Some l, db')) \<or>
     (\<exists>ids db'. retire_lapsed now demo_running = Inr (ids, db') \<and> 1 \<in> set ids \<and>
        (\<exists>j. get 1 db' = Some j \<and> terminal (state j)))"
  using no_job_is_stranded [OF demo_running_ok,
      of "claimed_row 10 100 ''w1'' 60 (new_row 5 1 demo_request)" 5 "''w''" 60]
  by (simp add: demo_running_jobs) (simp add: claimed_row_def new_row_def)

text \<open>The maintenance sweep never raises, ends exactly the running jobs whose lease lapsed with no
  attempt left or with a cancellation pending, and leaves every other row untouched: afterwards no
  row is lapsed for good, and the jobs to offer again are the same as before.\<close>

theorem sweep_retires_exactly:
  assumes "db_ok db"
  shows "\<exists>ids db'. retire_lapsed now db = Inr (ids, db') \<and> db_ok db' \<and>
           ids = map job_id (filter (lapsed_for_good now) (jobs db)) \<and>
           (\<forall>r \<in> set (jobs db'). \<not> lapsed_for_good now r) \<and>
           filter (\<lambda>r. \<not> lapsed_for_good now r) (jobs db) =
             filter (\<lambda>r. job_id r \<notin> set ids) (jobs db') \<and>
           lapsed_reservable now db' = lapsed_reservable now db"
proof -
  let ?P = "lapsed_for_good now" and ?f = "retired_row now"
  obtain db' where d: "retire_lapsed now db = Inr (map job_id (filter ?P (jobs db)), db')"
      "db_ok db'" "jobs db' = update_where ?P ?f (jobs db)"
    using retire_lapsed_ok [OF assms, of now] by blast
  have ended: "\<not> ?P (?f x) \<and> \<not> lapsed now (?f x)" for x
    by (simp add: lapsed_for_good_def lapsed_def retired_row_def released_def)
  have "\<forall>r \<in> set (jobs db'). \<not> ?P r" using ended by (auto simp: d(3) elim!: in_update_whereE)
  moreover have "filter (\<lambda>r. job_id r \<notin> set (map job_id (filter ?P (jobs db)))) (jobs db') =
      filter (\<lambda>r. \<not> ?P r) (jobs db)"
  proof -
    have "job_id x \<in> job_id ` {r \<in> set (jobs db). ?P r} \<longleftrightarrow> ?P x" if "x \<in> set (jobs db)" for x
      using same_job [OF assms [unfolded db_ok_def] that] that by blast
    then have "filter (\<lambda>r. job_id r \<notin> job_id ` {r \<in> set (jobs db). ?P r}) (update_where ?P ?f xs) =
        filter (\<lambda>r. \<not> ?P r) xs" if "set xs \<subseteq> set (jobs db)" for xs
      using that by (induction xs) (auto simp: writes_keep_identity)
    from this [of "jobs db"] show ?thesis by (simp add: d(3))
  qed
  moreover have "lapsed_reservable now db' = lapsed_reservable now db"
  proof -
    have excl: "lapsed now x \<Longrightarrow> \<not> ?P x" for x by (auto simp: lapsed_def lapsed_for_good_def)
    have "map job_id (filter (lapsed now) (update_where ?P ?f xs)) = map job_id (filter (lapsed now) xs)"
      for xs using ended excl by (induction xs) auto
    then show ?thesis by (simp add: lapsed_reservable_def d(3))
  qed
  ultimately show ?thesis using d(1,2) by auto
qed

theorem sweep_retires_exactly_witness:
  "\<exists>db'. retire_lapsed 500 (run [Cancel 20 1] demo_running) = Inr ([1], db') \<and> db_ok db'"
proof -
  have "jobs (run [Cancel 20 1] demo_running) = [cancelled_row 20 (hd (jobs demo_running))]"
    by (simp add: demo_eval cancel_def cancelled_row_def)
  moreover have "lapsed_for_good 500 (cancelled_row 20 (hd (jobs demo_running)))"
    "job_id (cancelled_row 20 (hd (jobs demo_running))) = 1"
    by (simp_all add: demo_running_jobs)
       (simp_all add: demo_eval cancelled_row_def lapsed_for_good_def lease_before_def)
  ultimately show ?thesis
    using sweep_retires_exactly [of "run [Cancel 20 1] demo_running" 500]
      run_sys_ok [OF demo_running_ok, of "[Cancel 20 1]"]
    by (auto simp: sys_ok_def simp del: run.simps)
qed

end
