(* ===== verification/Chat_Properties.thy ===== *)
theory Chat_Properties
  imports Store_Properties
begin

text \<open>
  The contract of the chat repository over every run of the system: a \<open>client_msg_id\<close> is recorded
  once, a replay is the window of the session's log it claims to be and has no hole, a client that
  asks page after page sees every entry once, and a reply is numbered before its text exists.
\<close>

subsection \<open>Rows are never lost\<close>

definition keeps_message :: "message_row \<Rightarrow> message_row \<Rightarrow> bool" where
  "keeps_message m m' \<longleftrightarrow> message_id m' = message_id m \<and> seq m' = seq m \<and>
     msg_role m' = msg_role m \<and> msg_session m' = msg_session m \<and> client_msg_id m' = client_msg_id m"

lemma keeps_message_refl [simp]: "keeps_message m m"
  by (simp add: keeps_message_def)

lemma keeps_message_finished [simp]: "keeps_message m (finished_row now st txt m)"
  by (simp add: keeps_message_def)

lemma keeps_message_trans: "keeps_message a b \<Longrightarrow> keeps_message b c \<Longrightarrow> keeps_message a c"
  by (simp add: keeps_message_def)

lemma record_messages:
  assumes "record_user_message now mid sid key txt db = Inr (res, db')" "m \<in> set (chat_messages db)"
  shows "m \<in> set (chat_messages db')"
  using assms by (auto simp: record_user_message_def Let_def result_simps allocate_seq_Inr split: if_splits)

lemma start_messages:
  assumes "start_assistant_message now mid sid db = Inr (res, db')" "m \<in> set (chat_messages db)"
  shows "m \<in> set (chat_messages db')"
  using assms by (auto simp: start_assistant_message_def Let_def result_simps allocate_seq_Inr split: if_splits)

lemma finish_messages:
  assumes "finish_message now mid st txt db = Inr (u, db')" "m \<in> set (chat_messages db)"
  shows "\<exists>m' \<in> set (chat_messages db'). keeps_message m m'"
proof (cases "message_id m = mid")
  case True
  with assms show ?thesis
    by (auto simp: finish_message_def set_update_where intro!: bexI [of _ "finished_row now st txt m"])
next
  case False
  with assms show ?thesis
    by (auto simp: finish_message_def set_update_where intro!: bexI [of _ m])
qed

lemma ensure_messages: "ensure_session now sid db = Inr (u, db') \<Longrightarrow> chat_messages db' = chat_messages db"
  by (auto simp: ensure_session_def split: option.splits)

lemma retire_messages:
  assumes "db_ok db" "retire_lapsed now db = Inr (ids, db')"
  shows "chat_messages db' = chat_messages db"
  using retire_lapsed_ok [OF assms(1), of now] assms(2) by auto

lemma exec_messages:
  assumes ok: "sys_ok db" and ex: "exec op db = Inr db'" and m: "m \<in> set (chat_messages db)"
  shows "\<exists>m' \<in> set (chat_messages db'). keeps_message m m'"
proof -
  have dok: "db_ok db" using ok by (simp add: sys_ok_def)
  have same: ?thesis if "chat_messages db' = chat_messages db"
    using that m by (auto intro!: bexI [of _ m])
  show ?thesis
  proof (cases op)
    case (MarkPublished now j)
    with ex show ?thesis by (intro same) (auto simp: mark_published_def)
  next
    case (RecordUser now i s k x)
    with ex m show ?thesis by (auto dest!: record_messages intro!: bexI [of _ m])
  next
    case (StartAssistant now i s)
    with ex m show ?thesis by (auto dest!: start_messages intro!: bexI [of _ m])
  next
    case (CompleteAssistant now i x)
    with ex finish_messages [OF _ m] show ?thesis by (auto simp: complete_assistant_message_def)
  next
    case (FailAssistant now i)
    with ex finish_messages [OF _ m] show ?thesis by (auto simp: fail_assistant_message_def)
  qed (use ex in \<open>auto intro!: same dest: insert_messages ensure_messages retire_messages [OF dok]
         claim_Inr_ok [OF dok] cancel_Inr_ok [OF dok] extend_Inr_ok [OF dok] ack_Inr_ok [OF dok]
         nack_Inr_ok [OF dok]\<close>)
qed

lemma run_messages:
  assumes "sys_ok db" "m \<in> set (chat_messages db)"
  shows "\<exists>m' \<in> set (chat_messages (run ops db)). keeps_message m m'"
  using assms
proof (induction ops arbitrary: db m)
  case Nil
  then show ?case by (auto intro!: bexI [of _ m])
next
  case (Cons op ops)
  show ?case
  proof (cases "exec op db")
    case (Inl e)
    with Cons show ?thesis by simp
  next
    case (Inr db')
    from exec_messages [OF Cons.prems(1) Inr Cons.prems(2)] obtain m1
      where m1: "m1 \<in> set (chat_messages db')" "keeps_message m m1" by blast
    from Cons.IH [OF exec_sys_ok [OF Cons.prems(1) Inr] m1(1)] Inr m1(2) show ?thesis
      by (auto intro: keeps_message_trans)
  qed
qed

subsection \<open>Properties\<close>

definition demo_chat :: db where
  "demo_chat = run [EnsureSession 1 7, RecordUser 2 11 7 ''c1'' ''hi'', StartAssistant 3 12 7] empty_db"

lemmas chat_eval = demo_chat_def empty_db_def commit_def ensure_session_def record_user_message_def
  start_assistant_message_def assistant_row_def user_row_def allocate_seq_def Let_def
  message_clash_def client_msg_id_matches_role_def log_append_message_def

lemma demo_chat_reachable: "reachable demo_chat"
  unfolding demo_chat_def by (rule reachable_run [OF reachable.start])

lemma demo_chat_ok: "sys_ok demo_chat"
  by (rule reachable_sys_ok [OF demo_chat_reachable])

lemma demo_chat_messages: "chat_messages demo_chat =
    [user_row 2 11 7 ''c1'' ''hi'' 1, assistant_row 3 12 7 2]"
  by (simp add: chat_eval)

lemma demo_chat_session: "chat_sessions demo_chat 7 =
    Some \<lparr>next_seq = 3, session_created_at = 1, last_seen_at = 3\<rparr>"
  by (simp add: chat_eval)

lemma session_of_message:
  assumes "sys_ok db" "m \<in> set (chat_messages db)"
  shows "chat_sessions db (msg_session m) \<noteq> None"
proof
  assume "chat_sessions db (msg_session m) = None"
  moreover have "session_log_ok db (msg_session m)"
    using assms(1) by (simp add: sys_ok_def db_ok_log log_ok_def [symmetric])
      (simp add: sys_ok_def db_ok_def db_ok_upto_def log_ok_def)
  ultimately have "messages_of db (msg_session m) = []" by (simp add: session_log_ok_def)
  with assms(2) show False by (auto simp: messages_of_def filter_empty_conv)
qed

lemma find_message:
  assumes ok: "sys_ok db" and m: "m \<in> set (chat_messages db)" "client_msg_id m = Some key"
  shows "find (\<lambda>x. msg_session x = msg_session m \<and> client_msg_id x = Some key) (chat_messages db) = Some m"
proof -
  let ?keyed = "filter (\<lambda>m. client_msg_id m \<noteq> None) (chat_messages db)"
  have d: "distinct (map user_key ?keyed)" using ok by (simp add: sys_ok_def chat_ok_def)
  have "find (\<lambda>x. msg_session x = msg_session m \<and> client_msg_id x = Some key) rows = Some m"
    if "m \<in> set rows" "set rows \<subseteq> set (chat_messages db)" for rows
    using that
  proof (induction rows)
    case (Cons a rows)
    have "a = m" if "msg_session a = msg_session m" "client_msg_id a = Some key"
      using distinct_key_eq [OF d, of a m] that m Cons.prems(2) by (simp add: user_key_def)
    with Cons m(2) show ?case by auto
  qed simp
  with m(1) show ?thesis by simp
qed

lemma recorded_row:
  assumes "record_user_message now mid sid key txt db = Inr (res, db1)"
  shows "\<exists>m \<in> set (chat_messages db1). msg_session m = sid \<and> client_msg_id m = Some key \<and>
           rec_message res = to_message m"
proof -
  obtain n db0 where a: "allocate_seq now sid db = Inr (n, db0)"
    using assms by (auto simp: record_user_message_def result_simps)
  let ?row = "user_row now mid sid key txt n"
  consider "\<exists>m. by_client_msg_id sid key db = Inr m \<and> res = \<lparr>rec_message = m, rec_created = False\<rparr> \<and> db1 = db"
    | "res = \<lparr>rec_message = to_message ?row, rec_created = True\<rparr>" "db1 = log_append_message ?row db0"
    using assms a by (auto simp: record_user_message_def Let_def result_simps split: if_splits)
  then show ?thesis
  proof cases
    case 1
    then show ?thesis
      by (auto simp: by_client_msg_id_def split: option.splits dest!: find_SomeD)
  next
    case 2
    then show ?thesis by (simp add: user_row_def)
  qed
qed

text \<open>Recording a user's message is idempotent on its \<open>client_msg_id\<close>: once it is stored, a
  retry at any later time, whatever else the system did between and whatever text it carries,
  returns the row already there with \<open>created = False\<close>, and the transaction leaves the whole
  database as it was, so the rolled-back insert costs no number.\<close>

theorem record_is_idempotent:
  assumes ok: "sys_ok db" and first: "record_user_message now mid sid key txt db = Inr (res, db1)"
  shows "\<exists>m. record_user_message now2 mid2 sid key txt2 (run ops db1) =
           Inr (\<lparr>rec_message = m, rec_created = False\<rparr>, run ops db1) \<and>
           message_id m = message_id (rec_message res) \<and> seq m = seq (rec_message res)"
proof -
  have ok1: "sys_ok db1" by (rule record_Inr_ok [OF ok first])
  obtain m1 where m1: "m1 \<in> set (chat_messages db1)" "msg_session m1 = sid" "client_msg_id m1 = Some key"
      "rec_message res = to_message m1"
    using recorded_row [OF first] by blast
  obtain m2 where m2: "m2 \<in> set (chat_messages (run ops db1))" "keeps_message m1 m2"
    using run_messages [OF ok1 m1(1)] by blast
  have ok2: "sys_ok (run ops db1)" by (rule run_sys_ok [OF ok1])
  have s: "msg_session m2 = sid" "client_msg_id m2 = Some key" using m2(2) m1 by (simp_all add: keeps_message_def)
  have "chat_sessions (run ops db1) sid \<noteq> None" using session_of_message [OF ok2 m2(1)] s(1) by simp
  from record_known [OF this] find_message [OF ok2 m2(1) s(2)] s(1)
  have "record_user_message now2 mid2 sid key txt2 (run ops db1) =
      Inr (\<lparr>rec_message = to_message m2, rec_created = False\<rparr>, run ops db1)" by simp
  with m2(2) m1(4) show ?thesis by (auto simp: keeps_message_def)
qed

theorem record_is_idempotent_witness:
  "\<exists>m. record_user_message 9 13 7 ''c1'' ''again'' (run [StartAssistant 3 12 7]
       (run [EnsureSession 1 7, RecordUser 2 11 7 ''c1'' ''hi''] empty_db)) =
     Inr (\<lparr>rec_message = m, rec_created = False\<rparr>, run [StartAssistant 3 12 7]
       (run [EnsureSession 1 7, RecordUser 2 11 7 ''c1'' ''hi''] empty_db)) \<and> seq m = 1"
proof -
  let ?db = "run [EnsureSession 1 7] empty_db"
  have "record_user_message 2 11 7 ''c1'' ''hi'' ?db =
      Inr (\<lparr>rec_message = to_message (user_row 2 11 7 ''c1'' ''hi'' 1), rec_created = True\<rparr>,
           run [EnsureSession 1 7, RecordUser 2 11 7 ''c1'' ''hi''] empty_db)"
    by (simp add: chat_eval)
  from record_is_idempotent [OF run_sys_ok [OF sys_ok_empty] this,
      of 9 13 "''again''" "[StartAssistant 3 12 7]"]
  obtain m where "record_user_message 9 13 7 ''c1'' ''again'' (run [StartAssistant 3 12 7]
       (run [EnsureSession 1 7, RecordUser 2 11 7 ''c1'' ''hi''] empty_db)) =
     Inr (\<lparr>rec_message = m, rec_created = False\<rparr>, run [StartAssistant 3 12 7]
       (run [EnsureSession 1 7, RecordUser 2 11 7 ''c1'' ''hi''] empty_db))"
    "seq m = seq (to_message (user_row 2 11 7 ''c1'' ''hi'' 1))" by fastforce
  then show ?thesis by (intro exI [of _ m] conjI) (assumption, simp add: user_row_def)
qed

text \<open>The merge of the two bounded range scans is exactly a window of the session's whole log:
  \<open>log_since\<close> returns the first \<open>limit\<close> of the entries after the cursor, messages and transitions
  together, in order of number, though each half is truncated before they meet.\<close>

theorem log_since_is_window:
  "log_since sid after limit db =
     take limit (sort_key entry_seq (filter (\<lambda>x. after < entry_seq x) (session_log sid db)))"
  by (rule log_since_window)

lemma upto_take: "take n [a..b] = [a..min b (a + int n - 1)]"
proof (induction n arbitrary: a)
  case 0
  then show ?case by simp
next
  case (Suc n)
  show ?case
  proof (cases "a \<le> b")
    case True
    have "min b (a + 1 + int n - 1) = min b (a + int (Suc n) - 1)" by simp
    with True Suc [of "a + 1"] show ?thesis by (simp add: upto_rec1 del: of_nat_Suc)
  next
    case False
    then show ?thesis by simp
  qed
qed

lemma replay_seqs:
  assumes "sys_ok db" "chat_sessions db sid = Some c" "0 \<le> after"
  shows "map entry_seq (log_since sid after limit db) =
           [after + 1..min (next_seq c - 1) (after + int limit)]"
proof -
  have "log_ok db" using assms(1) by (simp add: sys_ok_def db_ok_log)
  from replay_consecutive [OF this assms(2,3), of limit]
  show ?thesis by (simp add: log_since_window upto_take algebra_simps)
qed

text \<open>C19: A replay has no hole: for any cursor a client may hold, the entries \<open>log_since\<close> returns carry
  consecutive numbers from the one after the cursor, up to the limit or to the last number the
  session has allocated, and each is an entry of the session's log.\<close>

theorem replay_has_no_hole:
  assumes "reachable db" "chat_sessions db sid = Some c" "0 \<le> after"
  shows "map entry_seq (log_since sid after limit db) =
           [after + 1..min (next_seq c - 1) (after + int limit)] \<and>
         set (log_since sid after limit db) \<subseteq> set (session_log sid db)"
  using replay_seqs [OF reachable_sys_ok [OF assms(1)] assms(2,3)]
  by (auto simp: log_since_window dest!: in_set_takeD)

theorem replay_has_no_hole_witness: "map entry_seq (log_since 7 0 200 demo_chat) = [1..2]"
  using replay_has_no_hole [OF demo_chat_reachable demo_chat_session, of 0 200] by simp

lemma strict_sorted_entries:
  assumes "distinct (log_seqs db sid)"
  shows "sorted_wrt (<) (map entry_seq (sort_key entry_seq (filter P (session_log sid db))))"
proof -
  have "distinct (map entry_seq (session_log sid db))" using assms by (simp add: entry_seqs_log)
  then have "distinct (map entry_seq (sort_key entry_seq (filter P (session_log sid db))))"
    by (auto simp: distinct_map intro: inj_on_subset)
  then show ?thesis by (simp add: strict_sorted_iff)
qed

lemma filter_after:
  "sorted_wrt (<) (map k (page @ [e] @ rest)) \<Longrightarrow>
   filter (\<lambda>x. k e < (k x :: int)) (page @ [e] @ rest) = rest"
  by (fastforce simp: sorted_wrt_append filter_empty_conv filter_id_conv)

text \<open>Paging loses nothing: a client that asks again with the number of the last entry it was given
  is handed the continuation, so two pages are together the one longer page.\<close>

theorem pages_join:
  assumes "reachable db" "chat_sessions db sid = Some c" "0 \<le> after"
    and "log_since sid after n db = page @ [e]"
  shows "log_since sid after (n + k) db = page @ [e] @ log_since sid (entry_seq e) k db"
proof -
  let ?L = "\<lambda>a. sort_key entry_seq (filter (\<lambda>x. a < entry_seq x) (session_log sid db))"
  let ?rest = "drop n (?L after)"
  have log: "log_ok db" using reachable_sys_ok [OF assms(1)] by (simp add: sys_ok_def db_ok_log)
  have "distinct (log_seqs db sid)"
    using log assms(2) by (auto simp: log_ok_def session_log_ok_def split: option.splits)
  then have "sorted_wrt (<) (map entry_seq (?L after))"
    by (rule strict_sorted_entries)
  moreover have split: "?L after = page @ [e] @ ?rest"
    using assms(4) append_take_drop_id [of n "?L after"] by (simp add: log_since_window)
  ultimately have strict: "sorted_wrt (<) (map entry_seq (page @ [e] @ ?rest))" by metis
  have e: "after < entry_seq e"
  proof -
    have "e \<in> set (?L after)" by (subst split) simp
    then show ?thesis by simp
  qed
  have "?L (entry_seq e) = filter (\<lambda>x. entry_seq e < entry_seq x) (?L after)"
    using e by (simp add: filter_sort) (intro arg_cong [where f = "sort_key entry_seq"] filter_cong, auto)
  also have "\<dots> = ?rest"
    by (subst split) (rule filter_after [OF strict])
  finally have "log_since sid (entry_seq e) k db = take k ?rest" by (simp add: log_since_window)
  moreover have "log_since sid after (n + k) db = take n (?L after) @ take k ?rest"
    by (simp add: log_since_window take_add)
  moreover have "take n (?L after) = page @ [e]" using assms(4) by (simp add: log_since_window)
  ultimately show ?thesis by simp
qed

theorem pages_join_witness:
  "log_since 7 0 2 demo_chat =
     log_since 7 0 1 demo_chat @ log_since 7 1 1 demo_chat"
proof -
  let ?e = "LogMessage (to_message (user_row 2 11 7 ''c1'' ''hi'' 1))"
  have "log_since 7 0 1 demo_chat = [] @ [?e]"
    by (simp add: log_since_window session_log_def messages_of_def events_of_def demo_chat_messages
        user_row_def assistant_row_def) (simp add: chat_eval)
  moreover have "entry_seq ?e = 1" by (simp add: user_row_def)
  ultimately show ?thesis
    using pages_join [OF demo_chat_reachable demo_chat_session, of 0 1 "[]" ?e 1]
    by (simp add: numeral_2_eq_2)
qed

text \<open>A reply takes its number before its text exists: starting it allocates the next number of
  the session and stores an empty row in \<open>streaming\<close>; completing or failing it later keeps that
  number, changes only that row, and a failure leaves the text it had.\<close>

theorem reply_is_numbered_first:
  assumes ok: "sys_ok db" and c: "chat_sessions db sid = Some c"
    and fresh: "mid \<notin> message_id ` set (chat_messages db)"
  shows "\<exists>m db1. start_assistant_message now mid sid db = Inr (m, db1) \<and> sys_ok db1 \<and>
           seq m = next_seq c \<and> msg_status m = STREAMING \<and> msg_text m = [] \<and>
           (\<exists>db2. complete_assistant_message now2 mid txt db1 = Inr ((), db2) \<and> sys_ok db2 \<and>
              map to_message (chat_messages db2) = map to_message (chat_messages db) @
                [m\<lparr>msg_status := COMPLETE, msg_text := txt\<rparr>]) \<and>
           (\<exists>db2. fail_assistant_message now2 mid db1 = Inr ((), db2) \<and> sys_ok db2 \<and>
              map to_message (chat_messages db2) = map to_message (chat_messages db) @
                [m\<lparr>msg_status := MSG_FAILED\<rparr>])"
proof -
  let ?m = "assistant_row now mid sid (next_seq c)"
  obtain db1 where s: "start_assistant_message now mid sid db = Inr (to_message ?m, db1)" "sys_ok db1"
      "chat_messages db1 = chat_messages db @ [?m]"
    using start_assistant_ok [OF ok c fresh, of now] by blast
  have others: "\<forall>m \<in> set (chat_messages db). \<not> message_id m = mid" using fresh by auto
  have mid: "message_id ?m = mid" by (simp add: assistant_row_def)
  have upd: "map to_message (update_where (\<lambda>m. message_id m = mid) (finished_row now2 st x) (chat_messages db1)) =
      map to_message (chat_messages db) @ [to_message (finished_row now2 st x ?m)]" for st x
    using update_where_none [OF others] mid by (simp add: s(3) update_where_def)
  obtain db2 where "complete_assistant_message now2 mid txt db1 = Inr ((), db2)" "sys_ok db2"
      "map to_message (chat_messages db2) = map to_message (chat_messages db) @
         [(to_message ?m)\<lparr>msg_status := COMPLETE, msg_text := txt\<rparr>]"
    using finish_message_ok [OF s(2), of now2 mid COMPLETE "Some txt"] upd
    by (auto simp: complete_assistant_message_def finished_row_def Let_def to_message_def
        stored_message.truncate_def assistant_row_def)
  moreover obtain db3 where "fail_assistant_message now2 mid db1 = Inr ((), db3)" "sys_ok db3"
      "map to_message (chat_messages db3) = map to_message (chat_messages db) @
         [(to_message ?m)\<lparr>msg_status := MSG_FAILED\<rparr>]"
    using finish_message_ok [OF s(2), of now2 mid MSG_FAILED None] upd
    by (auto simp: fail_assistant_message_def finished_row_def Let_def to_message_def
        stored_message.truncate_def assistant_row_def)
  moreover have "seq ?m = next_seq c" "msg_status ?m = STREAMING" "msg_text ?m = []"
    by (simp_all add: assistant_row_def)
  ultimately show ?thesis using s(1,2)
    by (intro exI [of _ "to_message ?m"] exI [of _ db1]) auto
qed

theorem reply_is_numbered_first_witness:
  "\<exists>m db1. start_assistant_message 5 13 7 demo_chat = Inr (m, db1) \<and> seq m = 3 \<and> msg_status m = STREAMING"
proof -
  have "13 \<notin> message_id ` set (chat_messages demo_chat)"
    by (simp add: demo_chat_messages user_row_def assistant_row_def)
  from reply_is_numbered_first [OF demo_chat_ok demo_chat_session this, of 5] show ?thesis by fastforce
qed

end
