(* ===== verification/Mock_Repository.thy ===== *)
theory Mock_Repository
  imports Chat_Properties "HOL-Library.AList"
begin

text \<open>
  \<open>tests/MockChatRepository.py\<close>, the \<open>ChatRepository\<close> in dictionaries that the tests of the handler run
  on, and what it shares with the Postgres repository. The dictionary of messages is an association
  list in insertion order; a fresh \<open>uuid4\<close> is an argument. \<open>dictionaries\<close> is what the mock would hold of
  a database: under it every operation of the one is the operation of the other, but for an identifier
  nobody has. The protocol of
  \<open>core/chat_repository.py\<close> is the locale \<open>chat_log\<close>, interpreted on both.
\<close>

subsection \<open>The mock\<close>

record mock_repo =
  mock_next_seq :: "uuid \<Rightarrow> int option"
  mock_messages :: "(uuid \<times> uuid \<times> stored_message) list"
  mock_keys :: "uuid \<times> string \<Rightarrow> uuid option"
  mock_events :: "(uuid \<times> job_event) list"

definition new_mock :: mock_repo where
  "new_mock = \<lparr>mock_next_seq = (\<lambda>_. None), mock_messages = [], mock_keys = (\<lambda>_. None), mock_events = []\<rparr>"

datatype mock_error = NoSuchSession uuid | KeyMissing uuid

definition mock_ensure_session :: "uuid \<Rightarrow> mock_repo \<Rightarrow> mock_error + unit \<times> mock_repo" where
  "mock_ensure_session sid r =
     (case mock_next_seq r sid of
        Some n \<Rightarrow> Inr ((), r)
      | None \<Rightarrow> Inr ((), r\<lparr>mock_next_seq := (mock_next_seq r)(sid \<mapsto> 1)\<rparr>))"

definition mock_allocate :: "uuid \<Rightarrow> mock_repo \<Rightarrow> mock_error + int \<times> mock_repo" where
  "mock_allocate sid r =
     (case mock_next_seq r sid of
        None \<Rightarrow> Inl (NoSuchSession sid)
      | Some n \<Rightarrow> Inr (n, r\<lparr>mock_next_seq := (mock_next_seq r)(sid \<mapsto> n + 1)\<rparr>))"

definition mock_put :: "uuid \<Rightarrow> stored_message \<Rightarrow> mock_repo \<Rightarrow> mock_repo" where
  "mock_put sid m r = r\<lparr>mock_messages := AList.update (message_id m) (sid, m) (mock_messages r)\<rparr>"

definition mock_record_user_message ::
    "uuid \<Rightarrow> uuid \<Rightarrow> string \<Rightarrow> string \<Rightarrow> mock_repo \<Rightarrow> mock_error + recorded_user_message \<times> mock_repo" where
  "mock_record_user_message mid sid key txt r =
     (case mock_keys r (sid, key) of
        Some known \<Rightarrow>
          (case map_of (mock_messages r) known of
             None \<Rightarrow> Inl (KeyMissing known)
           | Some (s, m) \<Rightarrow> Inr (\<lparr>rec_message = m, rec_created = False\<rparr>, r))
      | None \<Rightarrow>
          bindE (mock_allocate sid r) (\<lambda>(n, r1).
            let m = \<lparr>seq = n, message_id = mid, msg_role = USER, msg_status = COMPLETE, msg_text = txt\<rparr>;
                r2 = mock_put sid m r1
            in Inr (\<lparr>rec_message = m, rec_created = True\<rparr>,
                    r2\<lparr>mock_keys := (mock_keys r2)((sid, key) \<mapsto> mid)\<rparr>)))"

definition mock_start_assistant_message ::
    "uuid \<Rightarrow> uuid \<Rightarrow> mock_repo \<Rightarrow> mock_error + stored_message \<times> mock_repo" where
  "mock_start_assistant_message mid sid r =
     bindE (mock_allocate sid r) (\<lambda>(n, r1).
       let m = \<lparr>seq = n, message_id = mid, msg_role = ASSISTANT, msg_status = STREAMING, msg_text = []\<rparr>
       in Inr (m, mock_put sid m r1))"

definition mock_update :: "uuid \<Rightarrow> (stored_message \<Rightarrow> stored_message) \<Rightarrow> mock_repo \<Rightarrow> mock_error + unit \<times> mock_repo" where
  "mock_update mid f r =
     (case map_of (mock_messages r) mid of
        None \<Rightarrow> Inl (KeyMissing mid)
      | Some (sid, m) \<Rightarrow> Inr ((), r\<lparr>mock_messages := AList.update mid (sid, f m) (mock_messages r)\<rparr>))"

definition mock_complete :: "uuid \<Rightarrow> string \<Rightarrow> mock_repo \<Rightarrow> mock_error + unit \<times> mock_repo" where
  "mock_complete mid txt = mock_update mid (\<lambda>m. m\<lparr>msg_status := COMPLETE, msg_text := txt\<rparr>)"

definition mock_fail :: "uuid \<Rightarrow> mock_repo \<Rightarrow> mock_error + unit \<times> mock_repo" where
  "mock_fail mid = mock_update mid (\<lambda>m. m\<lparr>msg_status := MSG_FAILED\<rparr>)"

definition mock_since :: "('a \<Rightarrow> int) \<Rightarrow> (uuid \<times> 'a) list \<Rightarrow> uuid \<Rightarrow> int \<Rightarrow> nat \<Rightarrow> 'a list" where
  "mock_since number rows sid after limit =
     take limit (sort_key number (map snd (filter (\<lambda>(s, row). s = sid \<and> after < number row) rows)))"

definition mock_log_since :: "uuid \<Rightarrow> int \<Rightarrow> nat \<Rightarrow> mock_repo \<Rightarrow> log_entry list" where
  "mock_log_since sid after limit r =
     take limit (heap_merge entry_seq
       (map LogMessage (mock_since seq (map snd (mock_messages r)) sid after limit))
       (map LogEvent (mock_since ev_seq (mock_events r) sid after limit)))"

definition mock_record_job_event ::
    "uuid \<Rightarrow> uuid \<Rightarrow> job_state \<Rightarrow> mock_repo \<Rightarrow> mock_error + job_event \<times> mock_repo" where
  "mock_record_job_event sid jid st r =
     bindE (mock_allocate sid r) (\<lambda>(n, r1).
       let e = \<lparr>ev_seq = n, ev_job_id = jid, ev_state = st\<rparr>
       in Inr (e, r1\<lparr>mock_events := mock_events r1 @ [(sid, e)]\<rparr>))"

subsection \<open>What the mock holds of a database\<close>

definition key_of_message :: "uuid \<times> string \<Rightarrow> message_row \<Rightarrow> bool" where
  "key_of_message k m \<longleftrightarrow> msg_session m = fst k \<and> client_msg_id m = Some (snd k)"

definition dictionaries :: "db \<Rightarrow> mock_repo" where
  "dictionaries db =
     \<lparr>mock_next_seq = (\<lambda>sid. map_option next_seq (chat_sessions db sid)),
      mock_messages = map (\<lambda>m. (message_id m, msg_session m, to_message m)) (chat_messages db),
      mock_keys = (\<lambda>k. map_option message_id (find (key_of_message k) (chat_messages db))),
      mock_events = map (\<lambda>e. (ev_session e, to_event e)) (job_events db)\<rparr>"

definition simulated :: "('e + 'a \<times> db) \<Rightarrow> ('f + 'a \<times> mock_repo) \<Rightarrow> bool" where
  "simulated x y \<longleftrightarrow>
     (case (x, y) of
        (Inl e, Inl f) \<Rightarrow> True
      | (Inr (a, db), Inr (b, r)) \<Rightarrow> b = a \<and> r = dictionaries db
      | _ \<Rightarrow> False)"

lemma alist_update_new: "k \<notin> fst ` set al \<Longrightarrow> AList.update k v al = al @ [(k, v)]"
  by (induction al) auto

lemma find_snoc: "find P (xs @ [x]) = (case find P xs of None \<Rightarrow> if P x then Some x else None | Some y \<Rightarrow> Some y)"
  by (induction xs) auto

lemma dictionaries_allocate:
  "(case allocate_seq now sid db of
      Inl e \<Rightarrow> mock_allocate sid (dictionaries db) = Inl (NoSuchSession sid)
    | Inr (n, db1) \<Rightarrow> mock_allocate sid (dictionaries db) = Inr (n, dictionaries db1))"
  by (auto simp: allocate_seq_def mock_allocate_def dictionaries_def Let_def fun_eq_iff split: option.splits)

lemma dictionaries_append:
  assumes "message_id m \<notin> message_id ` set (chat_messages db)" "client_msg_id m = None"
  shows "dictionaries (log_append_message m db) = mock_put (msg_session m) (to_message m) (dictionaries db)"
proof -
  have "find (key_of_message k) (chat_messages db @ [m]) = find (key_of_message k) (chat_messages db)" for k
    using assms(2) by (simp add: find_snoc key_of_message_def split: option.splits)
  moreover have "AList.update (message_id m) (msg_session m, to_message m) (mock_messages (dictionaries db)) =
      mock_messages (dictionaries db) @ [(message_id m, msg_session m, to_message m)]"
    by (rule alist_update_new) (use assms(1) in \<open>auto simp: dictionaries_def\<close>)
  ultimately show ?thesis by (simp add: dictionaries_def mock_put_def)
qed

lemma dictionaries_append_key:
  assumes "message_id m \<notin> message_id ` set (chat_messages db)" "client_msg_id m = Some key"
    and "find (key_of_message (msg_session m, key)) (chat_messages db) = None"
  shows "dictionaries (log_append_message m db) =
     (mock_put (msg_session m) (to_message m) (dictionaries db))
       \<lparr>mock_keys := (mock_keys (dictionaries db))((msg_session m, key) \<mapsto> message_id m)\<rparr>"
proof -
  have "map_option message_id (find (key_of_message k) (chat_messages db @ [m])) =
      ((mock_keys (dictionaries db))((msg_session m, key) \<mapsto> message_id m)) k" for k
    using assms(2,3) by (cases k) (auto simp: find_snoc key_of_message_def dictionaries_def split: option.splits)
  moreover have "AList.update (message_id m) (msg_session m, to_message m) (mock_messages (dictionaries db)) =
      mock_messages (dictionaries db) @ [(message_id m, msg_session m, to_message m)]"
    by (rule alist_update_new) (use assms(1) in \<open>auto simp: dictionaries_def\<close>)
  ultimately show ?thesis by (simp add: dictionaries_def mock_put_def fun_eq_iff)
qed


lemma key_find: "find (\<lambda>m. msg_session m = sid \<and> client_msg_id m = Some key) = find (key_of_message (sid, key))"
  by (simp add: key_of_message_def [abs_def])

lemma dictionaries_lookup:
  assumes "sys_ok db" "m \<in> set (chat_messages db)"
  shows "map_of (mock_messages (dictionaries db)) (message_id m) = Some (msg_session m, to_message m)"
  by (rule map_of_is_SomeI) (use assms in \<open>auto simp: dictionaries_def sys_ok_def chat_ok_def comp_def\<close>)

lemma dictionaries_no_session:
  assumes "sys_ok db" "chat_sessions db sid = None"
  shows "mock_keys (dictionaries db) (sid, key) = None" "mock_next_seq (dictionaries db) sid = None"
proof -
  have "session_log_ok db sid" using assms(1) db_ok_log [of db] by (simp add: sys_ok_def log_ok_def)
  then have "messages_of db sid = []" using assms(2) by (simp add: session_log_ok_def)
  then have "find (key_of_message (sid, key)) (chat_messages db) = None"
    by (auto simp: messages_of_def filter_empty_conv find_None_iff key_of_message_def)
  then show "mock_keys (dictionaries db) (sid, key) = None" "mock_next_seq (dictionaries db) sid = None"
    using assms(2) by (simp_all add: dictionaries_def)
qed

lemma dictionaries_numbered:
  assumes "allocate_seq now sid db = Inr (n, db1)"
  shows "mock_allocate sid (dictionaries db) = Inr (n, dictionaries db1)"
  using dictionaries_allocate [of sid db now] assms by simp

lemma record_simulated:
  assumes ok: "sys_ok db" and fresh: "mid \<notin> message_id ` set (chat_messages db)"
  shows "simulated (record_user_message now mid sid key txt db)
           (mock_record_user_message mid sid key txt (dictionaries db))"
proof (cases "chat_sessions db sid")
  case None
  then show ?thesis
    using dictionaries_no_session [OF ok None]
    by (simp add: record_no_session mock_record_user_message_def mock_allocate_def simulated_def)
next
  case (Some c)
  show ?thesis
  proof (cases "find (key_of_message (sid, key)) (chat_messages db)")
    case (Some m)
    then have m: "m \<in> set (chat_messages db)" "mock_keys (dictionaries db) (sid, key) = Some (message_id m)"
      by (auto simp: find_Some_iff dictionaries_def intro: nth_mem)
    then show ?thesis
      using record_known [of db sid key m] Some \<open>chat_sessions db sid = Some c\<close>
        dictionaries_lookup [OF ok m(1)]
      by (simp add: key_find mock_record_user_message_def simulated_def)
  next
    case new: None
    then have keys: "mock_keys (dictionaries db) (sid, key) = None" by (simp add: dictionaries_def)
    let ?m = "user_row now mid sid key txt (next_seq c)"
    obtain n db1 where a: "allocate_seq now sid db = Inr (n, db1)" "chat_messages db1 = chat_messages db" "n = next_seq c"
      using allocate_seq_known [of db sid now] Some by (auto simp: allocate_seq_Inr)
    have none: "\<forall>m \<in> set (chat_messages db). \<not> (msg_session m = sid \<and> client_msg_id m = Some key)"
      using new by (auto simp: find_None_iff key_of_message_def)
    have "record_user_message now mid sid key txt db =
        Inr (\<lparr>rec_message = to_message ?m, rec_created = True\<rparr>, log_append_message ?m db1)"
      using record_new [OF ok Some none fresh, of now "txt"] a none
      by (auto simp: record_user_message_def Let_def split: if_splits)
    moreover have "dictionaries (log_append_message ?m db1) = (mock_put sid (to_message ?m) (dictionaries db1))
        \<lparr>mock_keys := (mock_keys (dictionaries db1))((sid, key) \<mapsto> mid)\<rparr>"
      using dictionaries_append_key [of ?m db1 key] fresh new a(2) by (simp add: user_row_def)
    moreover have "to_message ?m =
        \<lparr>seq = n, message_id = mid, msg_role = USER, msg_status = COMPLETE, msg_text = txt\<rparr>"
      by (simp add: to_message_def stored_message.truncate_def user_row_def a(3))
    ultimately show ?thesis
      using keys dictionaries_numbered [OF a(1)]
      by (simp add: simulated_def mock_record_user_message_def Let_def mock_put_def)
  qed
qed

lemma start_simulated:
  assumes ok: "sys_ok db" and fresh: "mid \<notin> message_id ` set (chat_messages db)"
  shows "simulated (start_assistant_message now mid sid db) (mock_start_assistant_message mid sid (dictionaries db))"
proof (cases "chat_sessions db sid")
  case None
  then show ?thesis
    using dictionaries_no_session [OF ok None]
    by (simp add: start_no_session mock_start_assistant_message_def mock_allocate_def simulated_def)
next
  case (Some c)
  let ?m = "assistant_row now mid sid (next_seq c)"
  obtain n db1 where a: "allocate_seq now sid db = Inr (n, db1)" "chat_messages db1 = chat_messages db" "n = next_seq c"
    using allocate_seq_known [of db sid now] Some by (auto simp: allocate_seq_Inr)
  have "start_assistant_message now mid sid db = Inr (to_message ?m, log_append_message ?m db1)"
    using start_assistant_ok [OF ok Some fresh, of now] a
    by (auto simp: start_assistant_message_def Let_def split: if_splits)
  moreover have "dictionaries (log_append_message ?m db1) = mock_put sid (to_message ?m) (dictionaries db1)"
    using dictionaries_append [of ?m db1] fresh a(2) by (simp add: assistant_row_def)
  moreover have "to_message ?m =
      \<lparr>seq = n, message_id = mid, msg_role = ASSISTANT, msg_status = STREAMING, msg_text = []\<rparr>"
    by (simp add: to_message_def stored_message.truncate_def assistant_row_def a(3))
  ultimately show ?thesis
    using dictionaries_numbered [OF a(1)] by (simp add: simulated_def mock_start_assistant_message_def Let_def)
qed

lemma update_where_alist:
  assumes "distinct (map message_id ms)" "m \<in> set ms" "\<And>x. message_id (g x) = message_id x"
    and "\<And>x. msg_session (g x) = msg_session x" "\<And>x. to_message (g x) = f (to_message x)"
  shows "map (\<lambda>m. (message_id m, msg_session m, to_message m)) (update_where (\<lambda>x. message_id x = message_id m) g ms) =
     AList.update (message_id m) (msg_session m, f (to_message m))
       (map (\<lambda>m. (message_id m, msg_session m, to_message m)) ms)"
  using assms(1,2)
proof (induction ms)
  case (Cons x xs)
  show ?case
  proof (cases "x = m")
    case True
    with Cons.prems have "message_id m \<notin> message_id ` set xs" by auto
    then have "update_where (\<lambda>x. message_id x = message_id m) g xs = xs"
      by (intro update_where_none) (force simp: image_iff)
    with True assms(3-5) show ?thesis by simp
  next
    case False
    with Cons.prems have "message_id x \<noteq> message_id m" by auto
    with False Cons assms(3-5) show ?thesis by simp
  qed
qed simp

lemma finish_simulated:
  assumes ok: "sys_ok db" and m: "m \<in> set (chat_messages db)"
    and f: "\<And>x. to_message (finished_row now st txt x) = f (to_message x)"
  shows "simulated (finish_message now (message_id m) st txt db) (mock_update (message_id m) f (dictionaries db))"
proof -
  let ?ms = "update_where (\<lambda>x. message_id x = message_id m) (finished_row now st txt) (chat_messages db)"
  have "map_option message_id (find (key_of_message k) ?ms) = map_option message_id (find (key_of_message k) (chat_messages db))" for k
  proof -
    have "map_option message_id (find (key_of_message k) (update_where P (finished_row now st txt) ms)) =
        map_option message_id (find (key_of_message k) ms)" for P ms
      by (induction ms) (auto simp: key_of_message_def)
    then show ?thesis .
  qed
  moreover have "map (\<lambda>m. (message_id m, msg_session m, to_message m)) ?ms =
      AList.update (message_id m) (msg_session m, f (to_message m)) (mock_messages (dictionaries db))"
    using update_where_alist [of "chat_messages db" m "finished_row now st txt" f] ok m f
    by (simp add: dictionaries_def sys_ok_def chat_ok_def)
  ultimately have "dictionaries (db\<lparr>chat_messages := ?ms\<rparr>) =
      (dictionaries db)\<lparr>mock_messages := AList.update (message_id m) (msg_session m, f (to_message m)) (mock_messages (dictionaries db))\<rparr>"
    by (simp add: dictionaries_def)
  then show ?thesis
    using dictionaries_lookup [OF ok m] by (simp add: finish_message_def mock_update_def simulated_def)
qed

lemma log_simulated: "mock_log_since sid after limit (dictionaries db) = log_since sid after limit db"
proof -
  have "map snd (filter (\<lambda>(s, row). s = sid \<and> after < seq row) (map snd (mock_messages (dictionaries db)))) =
      map to_message (filter (\<lambda>m. after < seq m) (messages_of db sid))"
    by (simp add: dictionaries_def messages_of_def filter_map comp_def conj_commute)
  moreover have "map snd (filter (\<lambda>(s, row). s = sid \<and> after < ev_seq row) (mock_events (dictionaries db))) =
      map to_event (filter (\<lambda>e. after < ev_seq e) (events_of db sid))"
    by (simp add: dictionaries_def events_of_def filter_map comp_def conj_commute)
  ultimately show ?thesis
    by (simp add: mock_log_since_def log_since_def mock_since_def messages_since_def job_events_since_def
        sort_key_map take_map)
qed

lemma ensure_simulated:
  "simulated (ensure_session now sid db) (mock_ensure_session sid (dictionaries db))"
proof (cases "chat_sessions db sid")
  case None
  have "(\<lambda>s. map_option next_seq (((chat_sessions db)(sid \<mapsto> c)) s)) =
      (\<lambda>s. map_option next_seq (chat_sessions db s))(sid \<mapsto> next_seq c)" for c
    by (rule ext) simp
  with None show ?thesis by (simp add: ensure_session_def mock_ensure_session_def dictionaries_def simulated_def)
qed (simp add: ensure_session_def mock_ensure_session_def dictionaries_def simulated_def)


lemma finished_simulated:
  assumes "sys_ok db" "m \<in> set (chat_messages db)"
  shows "simulated (complete_assistant_message now (message_id m) txt db)
           (mock_complete (message_id m) txt (dictionaries db))"
    and "simulated (fail_assistant_message now (message_id m) db) (mock_fail (message_id m) (dictionaries db))"
  unfolding complete_assistant_message_def fail_assistant_message_def mock_complete_def mock_fail_def
  by (rule finish_simulated [OF assms],
      simp add: finished_row_def Let_def to_message_def stored_message.truncate_def)+

text \<open>An identifier no row has: the table's update matches nothing and says so to nobody, the mock's
  dictionary raises.\<close>

lemma finished_unknown:
  assumes "who \<notin> message_id ` set (chat_messages db)"
  shows "complete_assistant_message now who txt db = Inr ((), db)"
    and "fail_assistant_message now who db = Inr ((), db)"
    and "mock_complete who txt (dictionaries db) = Inl (KeyMissing who)"
    and "mock_fail who (dictionaries db) = Inl (KeyMissing who)"
proof -
  have "update_where (\<lambda>m. message_id m = who) f (chat_messages db) = chat_messages db" for f
    using assms by (intro update_where_none) auto
  then show "complete_assistant_message now who txt db = Inr ((), db)"
    "fail_assistant_message now who db = Inr ((), db)"
    by (simp_all add: complete_assistant_message_def fail_assistant_message_def finish_message_def)
  have "map_of (mock_messages (dictionaries db)) who = None"
    using assms by (simp add: dictionaries_def map_of_eq_None_iff image_image)
  then show "mock_complete who txt (dictionaries db) = Inl (KeyMissing who)"
    "mock_fail who (dictionaries db) = Inl (KeyMissing who)"
    by (simp_all add: mock_complete_def mock_fail_def mock_update_def)
qed

text \<open>C18: The Postgres repository does what the dictionaries of the tests do, but for one case. Under
  \<open>dictionaries\<close>, on a well-formed database and with an identifier nobody has, opening a session,
  recording a message (new, or under a key already used) and opening a reply give the mock's answer
  and the mock's next state, or fail when it raises; a replay is the mock's, entry by entry; and so
  are completing and failing a message that is stored. The case where they part: for an identifier
  no row has, the mock raises \<open>KeyError\<close> and the table reports success and changes nothing.\<close>

theorem repository_refines_mock:
  assumes "sys_ok db" "mid \<notin> message_id ` set (chat_messages db)"
  shows "simulated (ensure_session now sid db) (mock_ensure_session sid (dictionaries db)) \<and>
     simulated (record_user_message now mid sid key txt db) (mock_record_user_message mid sid key txt (dictionaries db)) \<and>
     simulated (start_assistant_message now mid sid db) (mock_start_assistant_message mid sid (dictionaries db)) \<and>
     mock_log_since sid after limit (dictionaries db) = log_since sid after limit db \<and>
     (if who \<in> message_id ` set (chat_messages db) then
        simulated (complete_assistant_message now who txt db) (mock_complete who txt (dictionaries db)) \<and>
        simulated (fail_assistant_message now who db) (mock_fail who (dictionaries db))
      else
        complete_assistant_message now who txt db = Inr ((), db) \<and>
        fail_assistant_message now who db = Inr ((), db) \<and>
        mock_complete who txt (dictionaries db) = Inl (KeyMissing who) \<and>
        mock_fail who (dictionaries db) = Inl (KeyMissing who))"
proof -
  have "if who \<in> message_id ` set (chat_messages db) then
        simulated (complete_assistant_message now who txt db) (mock_complete who txt (dictionaries db)) \<and>
        simulated (fail_assistant_message now who db) (mock_fail who (dictionaries db))
      else
        complete_assistant_message now who txt db = Inr ((), db) \<and>
        fail_assistant_message now who db = Inr ((), db) \<and>
        mock_complete who txt (dictionaries db) = Inl (KeyMissing who) \<and>
        mock_fail who (dictionaries db) = Inl (KeyMissing who)"
    using finished_simulated [OF assms(1)] finished_unknown [of who db] by auto
  with assms show ?thesis by (intro conjI ensure_simulated record_simulated start_simulated log_simulated)
qed

text \<open>\<open>record_job_event\<close> puts a transition in the log as the job store does.\<close>

lemma job_event_simulated:
  assumes "record_event now row db = Inr db'" "session_id row = Some sid"
  shows "\<exists>e. mock_record_job_event sid (job_id row) (state row) (dictionaries db) = Inr (e, dictionaries db')"
proof -
  obtain n db1 where a: "allocate_seq now sid db = Inr (n, db1)"
      "db' = log_append_event \<lparr>ev_seq = n, ev_job_id = job_id row, ev_state = state row,
         ev_session = sid, ev_created_at = now\<rparr> db1"
    using assms by (auto simp: record_event_def bindE_eq_Inr insert_job_event_def split: if_splits)
  then show ?thesis
    using dictionaries_numbered [OF a(1)]
    by (simp add: mock_record_job_event_def log_append_event_def dictionaries_def to_event_def job_event.truncate_def Let_def)
qed

definition greeted :: db where
  "greeted = run [EnsureSession 1 7, RecordUser 2 11 7 ''c1'' ''hi''] empty_db"

theorem repository_refines_mock_witness:
  "simulated (record_user_message 3 12 7 ''c2'' ''more'' greeted)
     (mock_record_user_message 12 7 ''c2'' ''more'' (dictionaries greeted)) \<and>
   simulated (complete_assistant_message 3 11 ''edited'' greeted) (mock_complete 11 ''edited'' (dictionaries greeted)) \<and>
   mock_complete 13 ''edited'' (dictionaries greeted) = Inl (KeyMissing 13) \<and>
   simulated (record_user_message 3 12 7 ''c2'' ''more'' empty_db)
     (mock_record_user_message 12 7 ''c2'' ''more'' (dictionaries empty_db))"
proof -
  let ?m = "user_row 2 11 7 ''c1'' ''hi'' 1"
  have "chat_messages greeted = [?m]" by (simp add: greeted_def chat_eval)
  then have ids: "message_id ` set (chat_messages greeted) = {11}" by (simp add: user_row_def)
  have "sys_ok greeted" unfolding greeted_def by (rule run_sys_ok [OF sys_ok_empty])
  note g = repository_refines_mock [OF this, of 12, unfolded ids]
  have "12 \<notin> message_id ` set (chat_messages empty_db)" by (simp add: empty_db_def)
  note e = repository_refines_mock [OF sys_ok_empty this]
  show ?thesis
    using g [of 3 7 "''c2''" "''more''" 0 0 11] g [of 3 7 "''c2''" "''edited''" 0 0 11]
      g [of 3 7 "''c2''" "''edited''" 0 0 13] e [of 3 7 "''c2''" "''more''" 0 0 11]
    by simp
qed

end
