(* ===== verification/Chat_Contract.thy ===== *)
theory Chat_Contract
  imports Mock_Repository
begin

text \<open>
  \<open>core/chat_repository.py\<close>, class \<open>ChatRepository\<close>: the protocol as an interface. A client sees a state
  it cannot look into, the log of a session and which identifiers are taken; the laws are what the
  docstrings promise of recording, opening and completing a reply, and of reading the log back. What a
  client makes of them is proved once, and holds of the Postgres repository and of the mock, the two
  interpretations.
\<close>

subsection \<open>The protocol\<close>

definition completed :: "string \<Rightarrow> stored_message \<Rightarrow> stored_message" where
  "completed txt m = m\<lparr>msg_status := COMPLETE, msg_text := txt\<rparr>"

lemma completed_sel [simp]:
  "seq (completed txt m) = seq m" "message_id (completed txt m) = message_id m"
  by (simp_all add: completed_def)

locale chat_log =
  fixes good :: "'s \<Rightarrow> bool"
    and whole_log :: "uuid \<Rightarrow> 's \<Rightarrow> log_entry list"
    and taken :: "uuid \<Rightarrow> 's \<Rightarrow> bool"
    and c_record :: "time \<Rightarrow> uuid \<Rightarrow> uuid \<Rightarrow> string \<Rightarrow> string \<Rightarrow> 's \<Rightarrow> 'e + recorded_user_message \<times> 's"
    and c_start :: "time \<Rightarrow> uuid \<Rightarrow> uuid \<Rightarrow> 's \<Rightarrow> 'e + stored_message \<times> 's"
    and c_complete :: "time \<Rightarrow> uuid \<Rightarrow> string \<Rightarrow> 's \<Rightarrow> 'e + unit \<times> 's"
    and c_since :: "uuid \<Rightarrow> int \<Rightarrow> nat \<Rightarrow> 's \<Rightarrow> log_entry list"
  assumes window: "c_since sid after limit s =
        take limit (sort_key entry_seq (filter (\<lambda>x. after < entry_seq x) (whole_log sid s)))"
    and logged_taken: "good s \<Longrightarrow> LogMessage m \<in> set (whole_log sid s) \<Longrightarrow> taken (message_id m) s"
    and recorded: "good s \<Longrightarrow> \<not> taken mid s \<Longrightarrow> c_record now mid sid key txt s = Inr (res, s') \<Longrightarrow>
        good s' \<and> LogMessage (rec_message res) \<in> set (whole_log sid s') \<and>
        set (whole_log sid s) \<subseteq> set (whole_log sid s') \<and> (\<forall>i. taken i s' \<longrightarrow> taken i s \<or> i = mid)"
    and again: "good s \<Longrightarrow> \<not> taken mid s \<Longrightarrow> c_record now mid sid key txt s = Inr (res, s') \<Longrightarrow>
        c_record now' mid' sid key txt' s' = Inr (\<lparr>rec_message = rec_message res, rec_created = False\<rparr>, s')"
    and started: "good s \<Longrightarrow> \<not> taken mid s \<Longrightarrow> c_start now mid sid s = Inr (m, s') \<Longrightarrow>
        good s' \<and> message_id m = mid \<and> LogMessage m \<in> set (whole_log sid s') \<and>
        set (whole_log sid s) \<subseteq> set (whole_log sid s')"
    and finished: "good s \<Longrightarrow> LogMessage m \<in> set (whole_log sid s) \<Longrightarrow>
        \<exists>s'. c_complete now (message_id m) txt s = Inr ((), s') \<and> good s' \<and>
          LogMessage (completed txt m) \<in> set (whole_log sid s') \<and>
          (\<forall>m'. message_id m' \<noteq> message_id m \<longrightarrow> LogMessage m' \<in> set (whole_log sid s) \<longrightarrow>
             LogMessage m' \<in> set (whole_log sid s'))"
begin

lemma replayed_if_logged:
  assumes "x \<in> set (whole_log sid s)" "after < entry_seq x" "length (whole_log sid s) \<le> limit"
  shows "x \<in> set (c_since sid after limit s)"
proof -
  have "length (filter (\<lambda>x. after < entry_seq x) (whole_log sid s)) \<le> limit"
    using assms(3) length_filter_le [of _ "whole_log sid s"] le_trans by blast
  with assms(1,2) show ?thesis by (simp add: window)
qed

text \<open>Retrying a message any number of times, with any text, changes nothing.\<close>

lemma retries_change_nothing:
  assumes "good s" "\<not> taken mid s" "c_record now mid sid key txt s = Inr (res, s')"
  shows "foldl (\<lambda>x (now', mid', txt'). case x of Inl e \<Rightarrow> Inl e | Inr (_, s1) \<Rightarrow> c_record now' mid' sid key txt' s1)
           (Inr (\<lparr>rec_message = rec_message res, rec_created = False\<rparr>, s')) tries =
         Inr (\<lparr>rec_message = rec_message res, rec_created = False\<rparr>, s')"
  by (induction tries) (auto simp: again [OF assms])

text \<open>A turn that was recorded, opened and completed is replayed whole: the message and the finished reply.\<close>

lemma turn_is_replayed:
  assumes "good s" "\<not> taken i s" "\<not> taken j s" "i \<noteq> j"
    and rec: "c_record now1 i sid key txt s = Inr (res, s1)" and start: "c_start now2 j sid s1 = Inr (m, s2)"
    and new: "rec_created res" "message_id (rec_message res) = i"
  shows "\<exists>s3. c_complete now3 j reply s2 = Inr ((), s3) \<and> good s3 \<and>
     (\<forall>after limit. after < seq (rec_message res) \<longrightarrow> after < seq m \<longrightarrow> length (whole_log sid s3) \<le> limit \<longrightarrow>
        {LogMessage (rec_message res), LogMessage (completed reply m)} \<subseteq> set (c_since sid after limit s3))"
proof -
  note s1 = recorded [OF assms(1,2) rec]
  have "\<not> taken j s1" using s1 assms(3,4) by auto
  note s2 = started [OF conjunct1 [OF s1] this start]
  have "LogMessage (rec_message res) \<in> set (whole_log sid s2)" using s1 s2 by blast
  moreover have "message_id (rec_message res) \<noteq> message_id m" using new s2 assms(4) by simp
  ultimately obtain s3 where s3: "c_complete now3 j reply s2 = Inr ((), s3)" "good s3"
      "LogMessage (completed reply m) \<in> set (whole_log sid s3)" "LogMessage (rec_message res) \<in> set (whole_log sid s3)"
    using finished [of s2 m sid now3 reply] s2 by blast
  then show ?thesis by (auto intro!: replayed_if_logged)
qed

end

subsection \<open>The Postgres repository\<close>

definition message_taken :: "uuid \<Rightarrow> db \<Rightarrow> bool" where
  "message_taken i db \<longleftrightarrow> i \<in> message_id ` set (chat_messages db)"

lemma logged_message:
  "LogMessage m \<in> set (session_log sid db) \<longleftrightarrow> (\<exists>r \<in> set (chat_messages db). msg_session r = sid \<and> m = to_message r)"
  by (auto simp: session_log_def messages_of_def)

lemma logged_event:
  "LogEvent e \<in> set (session_log sid db) \<longleftrightarrow> (\<exists>r \<in> set (job_events db). ev_session r = sid \<and> e = to_event r)"
  by (auto simp: session_log_def events_of_def)

lemma session_log_mono:
  assumes "set (chat_messages db) \<subseteq> set (chat_messages db')" "job_events db' = job_events db"
  shows "set (session_log sid db) \<subseteq> set (session_log sid db')"
  using assms by (auto simp: session_log_def messages_of_def events_of_def)

lemma appended:
  assumes "record_user_message now mid sid key txt db = Inr (res, db')"
  shows "job_events db' = job_events db \<and> set (chat_messages db) \<subseteq> set (chat_messages db') \<and>
     (\<forall>i. message_taken i db' \<longrightarrow> message_taken i db \<or> i = mid)"
  using assms
  by (auto simp: record_user_message_def Let_def result_simps message_taken_def user_row_def allocate_seq_Inr
      split: if_splits)

lemma opened_row:
  assumes "start_assistant_message now mid sid db = Inr (m, db')"
  shows "job_events db' = job_events db \<and> message_id m = mid \<and>
     (\<exists>r. chat_messages db' = chat_messages db @ [r] \<and> msg_session r = sid \<and> m = to_message r)"
  using assms
  by (auto simp: start_assistant_message_def Let_def result_simps assistant_row_def allocate_seq_Inr split: if_splits)

lemma recorded_again:
  assumes "sys_ok db" "record_user_message now mid sid key txt db = Inr (res, db')"
  shows "record_user_message now' mid' sid key txt' db' =
     Inr (\<lparr>rec_message = rec_message res, rec_created = False\<rparr>, db')"
proof -
  have ok: "sys_ok db'" by (rule record_Inr_ok [OF assms])
  obtain m where m: "m \<in> set (chat_messages db')" "msg_session m = sid" "client_msg_id m = Some key"
      "rec_message res = to_message m" using recorded_row [OF assms(2)] by blast
  have "chat_sessions db' sid \<noteq> None" using session_of_message [OF ok m(1)] m(2) by simp
  with record_known [OF this] find_message [OF ok m(1,3)] m(2,4) show ?thesis by simp
qed

lemma completed_row:
  assumes ok: "sys_ok db" and r: "r \<in> set (chat_messages db)" "msg_session r = sid"
  shows "\<exists>db'. complete_assistant_message now (message_id r) txt db = Inr ((), db') \<and> sys_ok db' \<and>
     LogMessage (completed txt (to_message r)) \<in> set (session_log sid db') \<and>
     (\<forall>m'. message_id m' \<noteq> message_id r \<longrightarrow> LogMessage m' \<in> set (session_log sid db) \<longrightarrow>
        LogMessage m' \<in> set (session_log sid db'))"
proof -
  let ?f = "finished_row now COMPLETE (Some txt)"
  obtain db' where db': "complete_assistant_message now (message_id r) txt db = Inr ((), db')" "sys_ok db'"
      "chat_messages db' = update_where (\<lambda>x. message_id x = message_id r) ?f (chat_messages db)"
    using finish_message_ok [OF ok] by (metis complete_assistant_message_def)
  have "?f r \<in> set (chat_messages db')" using r by (auto simp: db'(3) set_update_where)
  moreover have "completed txt (to_message r) = to_message (?f r)" "msg_session (?f r) = sid"
    using r(2) by (simp_all add: completed_def finished_row_def Let_def to_message_def stored_message.truncate_def)
  ultimately have "LogMessage (completed txt (to_message r)) \<in> set (session_log sid db')"
    unfolding logged_message by blast
  moreover have "x \<in> set (chat_messages db')" if "x \<in> set (chat_messages db)" "message_id x \<noteq> message_id r" for x
    using that by (auto simp: db'(3) set_update_where)
  then have "\<forall>m'. message_id m' \<noteq> message_id r \<longrightarrow> LogMessage m' \<in> set (session_log sid db) \<longrightarrow>
      LogMessage m' \<in> set (session_log sid db')"
    unfolding logged_message by (metis to_message_sel(2))
  ultimately show ?thesis using db'(1,2) by blast
qed

interpretation pg: chat_log sys_ok session_log message_taken record_user_message start_assistant_message
  complete_assistant_message log_since
proof unfold_locales
  fix s m sid
  assume "LogMessage m \<in> set (session_log sid s)"
  then show "message_taken (message_id m) s" by (auto simp: logged_message message_taken_def)
next
  fix s mid now sid key "txt" res s'
  assume a: "sys_ok s" "record_user_message now mid sid key txt s = Inr (res, s')"
  show "sys_ok s' \<and> LogMessage (rec_message res) \<in> set (session_log sid s') \<and>
      set (session_log sid s) \<subseteq> set (session_log sid s') \<and> (\<forall>i. message_taken i s' \<longrightarrow> message_taken i s \<or> i = mid)"
    using record_Inr_ok [OF a] recorded_row [OF a(2)] appended [OF a(2)] session_log_mono [of s s' sid]
    by (auto simp: logged_message)
next
  fix s mid now sid m s'
  assume a: "sys_ok s" "start_assistant_message now mid sid s = Inr (m, s')"
  show "sys_ok s' \<and> message_id m = mid \<and> LogMessage m \<in> set (session_log sid s') \<and>
      set (session_log sid s) \<subseteq> set (session_log sid s')"
    using start_Inr_ok [OF a] opened_row [OF a(2)] session_log_mono [of s s' sid]
    by (metis logged_message Un_upper1 in_set_conv_decomp set_append)
next
  fix s m sid now "txt"
  assume a: "sys_ok s" "LogMessage m \<in> set (session_log sid s)"
  then obtain r where "r \<in> set (chat_messages s)" "msg_session r = sid" "m = to_message r"
    by (auto simp: logged_message)
  with completed_row [OF a(1) this(1,2), of now "txt"]
  show "\<exists>s'. complete_assistant_message now (message_id m) txt s = Inr ((), s') \<and> sys_ok s' \<and>
          LogMessage (completed txt m) \<in> set (session_log sid s') \<and>
          (\<forall>m'. message_id m' \<noteq> message_id m \<longrightarrow> LogMessage m' \<in> set (session_log sid s) \<longrightarrow>
             LogMessage m' \<in> set (session_log sid s'))" by simp
qed (simp_all add: log_since_window recorded_again)


subsection \<open>The mock\<close>

definition mock_find :: "uuid \<Rightarrow> mock_repo \<Rightarrow> (uuid \<times> stored_message) option" where
  "mock_find i r = map_of (mock_messages r) i"

definition mock_ok :: "mock_repo \<Rightarrow> bool" where
  "mock_ok r \<longleftrightarrow> distinct (map fst (mock_messages r)) \<and>
     (\<forall>i s m. mock_find i r = Some (s, m) \<longrightarrow> message_id m = i) \<and>
     (\<forall>s k i. mock_keys r (s, k) = Some i \<longrightarrow> (\<exists>m. mock_find i r = Some (s, m)))"

definition mock_taken :: "uuid \<Rightarrow> mock_repo \<Rightarrow> bool" where
  "mock_taken i r \<longleftrightarrow> mock_find i r \<noteq> None"

definition mock_log :: "uuid \<Rightarrow> mock_repo \<Rightarrow> log_entry list" where
  "mock_log sid r =
     map LogMessage (map snd (filter (\<lambda>(s, m). s = sid) (map snd (mock_messages r)))) @
     map LogEvent (map snd (filter (\<lambda>(s, e). s = sid) (mock_events r)))"

lemma new_mock_ok: "mock_ok new_mock"
  by (simp add: mock_ok_def new_mock_def mock_find_def)

lemma mock_find_put:
  "mock_messages r' = AList.update j v (mock_messages r) \<Longrightarrow>
   mock_find i r' = (if i = j then Some v else mock_find i r)"
  by (simp add: mock_find_def update_conv')

lemma mock_window:
  "mock_log_since sid after limit r =
     take limit (sort_key entry_seq (filter (\<lambda>x. after < entry_seq x) (mock_log sid r)))"
proof -
  have "filter (\<lambda>x. after < entry_seq x) (mock_log sid r) =
      map LogMessage (map snd (filter (\<lambda>(s, m). s = sid \<and> after < seq m) (map snd (mock_messages r)))) @
      map LogEvent (map snd (filter (\<lambda>(s, e). s = sid \<and> after < ev_seq e) (mock_events r)))"
    by (simp add: mock_log_def filter_map comp_def split_def conj_commute)
  then show ?thesis by (simp add: mock_log_since_def mock_since_def merged_window)
qed

lemma mock_logged:
  assumes "mock_ok r"
  shows "LogMessage m \<in> set (mock_log sid r) \<longleftrightarrow> mock_find (message_id m) r = Some (sid, m)"
proof -
  have "LogMessage m \<in> set (mock_log sid r) \<longleftrightarrow> (\<exists>i. (i, sid, m) \<in> set (mock_messages r))"
    by (force simp: mock_log_def)
  also have "\<dots> \<longleftrightarrow> (\<exists>i. mock_find i r = Some (sid, m))"
    using assms by (simp add: mock_ok_def mock_find_def)
  finally show ?thesis using assms by (auto simp: mock_ok_def)
qed

lemma mock_log_mono:
  assumes "mock_ok r" "mock_ok r'" "mock_events r' = mock_events r"
    and "\<And>i v. mock_find i r = Some v \<Longrightarrow> mock_find i r' = Some v"
  shows "set (mock_log sid r) \<subseteq> set (mock_log sid r')"
proof
  fix x assume x: "x \<in> set (mock_log sid r)"
  show "x \<in> set (mock_log sid r')"
  proof (cases x)
    case (LogMessage m)
    with x assms show ?thesis by (simp add: mock_logged)
  next
    case (LogEvent e)
    with x assms(3) show ?thesis by (force simp: mock_log_def)
  qed
qed

text \<open>A message under a fresh identifier, with or without its key.\<close>

lemma mock_put_fresh:
  assumes ok: "mock_ok r" and fresh: "\<not> mock_taken (message_id m) r"
    and same: "mock_messages r' = AList.update (message_id m) (sid, m) (mock_messages r)" "mock_events r' = mock_events r"
    and keys: "mock_keys r' = mock_keys r \<or> (\<exists>k. mock_keys r' = (mock_keys r)((sid, k) \<mapsto> message_id m))"
  shows "mock_ok r' \<and> LogMessage m \<in> set (mock_log sid r') \<and> set (mock_log sid r) \<subseteq> set (mock_log sid r') \<and>
     (\<forall>i. mock_taken i r' \<longrightarrow> mock_taken i r \<or> i = message_id m)"
proof -
  note lookup = mock_find_put [OF same(1)]
  have "distinct (map fst (mock_messages r'))" using ok by (simp add: same(1) mock_ok_def distinct_update)
  moreover have "message_id x = i" if "mock_find i r' = Some (s, x)" for i s x
    using that ok by (auto simp: lookup mock_ok_def split: if_splits)
  moreover have "\<exists>x. mock_find i r' = Some (s, x)" if "mock_keys r' (s, k) = Some i" for s k i
  proof (cases "i = message_id m")
    case True
    with fresh ok have "mock_keys r (s, k) \<noteq> Some i" by (force simp: mock_ok_def mock_taken_def)
    with that keys have "s = sid" by (auto split: if_splits)
    with True show ?thesis by (simp add: lookup)
  next
    case False
    with that keys have "mock_keys r (s, k) = Some i" by (auto split: if_splits)
    with ok False show ?thesis by (simp add: lookup mock_ok_def)
  qed
  ultimately have ok': "mock_ok r'" by (auto simp: mock_ok_def)
  moreover have "set (mock_log sid r) \<subseteq> set (mock_log sid r')"
    by (rule mock_log_mono [OF ok ok' same(2)]) (use fresh in \<open>auto simp: lookup mock_taken_def\<close>)
  ultimately show ?thesis by (auto simp: mock_logged lookup mock_taken_def split: if_splits)
qed

lemma mock_recorded:
  assumes ok: "mock_ok r" "\<not> mock_taken mid r" and rec: "mock_record_user_message mid sid key txt r = Inr (res, r')"
  shows "mock_ok r' \<and> LogMessage (rec_message res) \<in> set (mock_log sid r') \<and>
      set (mock_log sid r) \<subseteq> set (mock_log sid r') \<and> (\<forall>i. mock_taken i r' \<longrightarrow> mock_taken i r \<or> i = mid) \<and>
      mock_keys r' (sid, key) = Some (message_id (rec_message res))"
proof (cases "mock_keys r (sid, key)")
  case (Some known)
  with ok(1) obtain m where m: "mock_find known r = Some (sid, m)" "message_id m = known"
    by (metis mock_ok_def)
  with rec Some have "r' = r" "rec_message res = m" by (auto simp: mock_record_user_message_def mock_find_def)
  with m ok(1) Some show ?thesis by (simp add: mock_logged)
next
  case None
  obtain n r1 where a: "mock_allocate sid r = Inr (n, r1)"
      "rec_message res = \<lparr>seq = n, message_id = mid, msg_role = USER, msg_status = COMPLETE, msg_text = txt\<rparr>"
      "r' = (mock_put sid (rec_message res) r1)\<lparr>mock_keys := (mock_keys r1)((sid, key) \<mapsto> mid)\<rparr>"
    using rec None by (auto simp: mock_record_user_message_def bindE_eq_Inr Let_def mock_put_def)
  have r1: "mock_messages r1 = mock_messages r" "mock_keys r1 = mock_keys r" "mock_events r1 = mock_events r"
    using a(1) by (auto simp: mock_allocate_def split: option.splits)
  have id: "message_id (rec_message res) = mid" by (simp add: a(2))
  have "\<not> mock_taken (message_id (rec_message res)) r" using ok(2) id by simp
  moreover have "mock_messages r' = AList.update mid (sid, rec_message res) (mock_messages r)" "mock_events r' = mock_events r"
      "mock_keys r' = (mock_keys r)((sid, key) \<mapsto> mid)"
    by (simp_all add: a(3) mock_put_def r1 id)
  ultimately show ?thesis using mock_put_fresh [OF ok(1), of "rec_message res" r' sid] id by auto
qed

lemma mock_started:
  assumes ok: "mock_ok r" "\<not> mock_taken mid r" and start: "mock_start_assistant_message mid sid r = Inr (m, r')"
  shows "mock_ok r' \<and> message_id m = mid \<and> LogMessage m \<in> set (mock_log sid r') \<and>
      set (mock_log sid r) \<subseteq> set (mock_log sid r')"
proof -
  obtain n r1 where a: "mock_allocate sid r = Inr (n, r1)" "message_id m = mid" "r' = mock_put sid m r1"
    using start by (auto simp: mock_start_assistant_message_def bindE_eq_Inr Let_def)
  have r1: "mock_messages r1 = mock_messages r" "mock_keys r1 = mock_keys r" "mock_events r1 = mock_events r"
    using a(1) by (auto simp: mock_allocate_def split: option.splits)
  have "\<not> mock_taken (message_id m) r" using ok(2) a(2) by simp
  from mock_put_fresh [OF ok(1) this, of r' sid] a(2) show ?thesis by (simp add: a(3) mock_put_def r1)
qed

lemma mock_completed:
  assumes ok: "mock_ok r" and m: "LogMessage m \<in> set (mock_log sid r)"
  shows "\<exists>r'. mock_complete (message_id m) txt r = Inr ((), r') \<and> mock_ok r' \<and>
     LogMessage (completed txt m) \<in> set (mock_log sid r') \<and>
     (\<forall>m'. message_id m' \<noteq> message_id m \<longrightarrow> LogMessage m' \<in> set (mock_log sid r) \<longrightarrow>
        LogMessage m' \<in> set (mock_log sid r'))"
proof -
  let ?i = "message_id m"
  let ?r = "r\<lparr>mock_messages := AList.update ?i (sid, completed txt m) (mock_messages r)\<rparr>"
  have here: "mock_find ?i r = Some (sid, m)" using m ok by (simp add: mock_logged)
  have lookup: "mock_find i ?r = (if i = ?i then Some (sid, completed txt m) else mock_find i r)" for i
    by (rule mock_find_put) simp
  have "distinct (map fst (mock_messages ?r))" using ok by (simp add: mock_ok_def distinct_update)
  moreover have "message_id x = i" if "mock_find i ?r = Some (s, x)" for i s x
    using that ok by (auto simp: lookup mock_ok_def split: if_splits)
  moreover have "\<exists>x. mock_find i ?r = Some (s, x)" if "mock_keys ?r (s, k) = Some i" for s k i
  proof -
    have "mock_keys r (s, k) = Some i" using that by simp
    then obtain x where "mock_find i r = Some (s, x)" using ok by (metis mock_ok_def)
    with here show ?thesis by (auto simp: lookup)
  qed
  ultimately have ok': "mock_ok ?r" unfolding mock_ok_def by blast
  have "mock_complete ?i txt r = Inr ((), ?r)"
    using here by (simp add: mock_complete_def mock_update_def completed_def mock_find_def)
  moreover have "LogMessage (completed txt m) \<in> set (mock_log sid ?r)" by (simp add: mock_logged [OF ok'] lookup)
  moreover have "LogMessage m' \<in> set (mock_log sid ?r)"
    if "message_id m' \<noteq> ?i" "LogMessage m' \<in> set (mock_log sid r)" for m'
    using that by (simp add: mock_logged [OF ok'] mock_logged [OF ok] lookup)
  ultimately show ?thesis using ok' by blast
qed

lemma mock_again:
  assumes ok: "mock_ok r" "\<not> mock_taken mid r" and rec: "mock_record_user_message mid sid key txt r = Inr (res, r')"
  shows "mock_record_user_message mid' sid key txt' r' = Inr (\<lparr>rec_message = rec_message res, rec_created = False\<rparr>, r')"
proof -
  note r' = mock_recorded [OF ok rec]
  then have "mock_find (message_id (rec_message res)) r' = Some (sid, rec_message res)"
    using mock_logged by blast
  with r' show ?thesis by (simp add: mock_record_user_message_def mock_find_def)
qed

interpretation mock: chat_log mock_ok mock_log mock_taken "\<lambda>now. mock_record_user_message"
  "\<lambda>now. mock_start_assistant_message" "\<lambda>now. mock_complete" mock_log_since
proof unfold_locales
  show "mock_log_since sid after limit s =
      take limit (sort_key entry_seq (filter (\<lambda>x. after < entry_seq x) (mock_log sid s)))" for sid after limit s
    by (rule mock_window)
next
  fix s m sid
  assume "mock_ok s" "LogMessage m \<in> set (mock_log sid s)"
  then show "mock_taken (message_id m) s" by (simp add: mock_logged mock_taken_def)
qed (erule mock_completed | drule (2) mock_recorded mock_started, blast | erule (2) mock_again)+

text \<open>What the protocol gives a client of the store: a turn that was recorded, opened and completed is
  replayed whole to a client that comes back with any cursor before it.\<close>

theorem stored_turn_is_replayed:
  assumes "sys_ok db" "\<not> message_taken i db" "\<not> message_taken j db" "i \<noteq> j"
    and "record_user_message now1 i sid key txt db = Inr (res, db1)"
    and "start_assistant_message now2 j sid db1 = Inr (m, db2)"
    and "rec_created res" "message_id (rec_message res) = i"
  shows "\<exists>db3. complete_assistant_message now3 j reply db2 = Inr ((), db3) \<and> sys_ok db3 \<and>
     (\<forall>after limit. after < seq (rec_message res) \<longrightarrow> after < seq m \<longrightarrow> length (session_log sid db3) \<le> limit \<longrightarrow>
        {LogMessage (rec_message res), LogMessage (completed reply m)} \<subseteq> set (log_since sid after limit db3))"
  using pg.turn_is_replayed [OF assms] .

end
