(* ===== verification/Calls.thy ===== *)
theory Calls
  imports System
begin

text \<open>
  A call across the network to the store. Other processes commit before it; the link answers, fails
  before the transaction commits, or loses the reply after it did. \<open>Inl None\<close> is a call nobody
  answered, \<open>Inl (Some e)\<close> one the store refused. Whatever happens, the database left behind is one
  the transactions can reach.
\<close>

datatype link = Works | Fails | LosesReply

definition call_txn ::
    "link \<Rightarrow> operation list \<Rightarrow> 'a txn \<Rightarrow> db \<Rightarrow> (db_error option + 'a) \<times> db" where
  "call_txn k ops t db =
     (let db1 = run ops db; r = t db1 in
      case k of
        Fails \<Rightarrow> (Inl None, db1)
      | LosesReply \<Rightarrow> (Inl None, case r of Inl _ \<Rightarrow> db1 | Inr (_, db2) \<Rightarrow> db2)
      | Works \<Rightarrow> (case r of Inl e \<Rightarrow> (Inl (Some e), db1) | Inr (x, db2) \<Rightarrow> (Inr x, db2)))"

lemma call_txn_sys_ok:
  assumes t: "\<And>db x db'. sys_ok db \<Longrightarrow> t db = Inr (x, db') \<Longrightarrow> sys_ok db'"
    and ok: "sys_ok db"
  shows "sys_ok (snd (call_txn k ops t db))"
  using t [OF run_sys_ok [OF ok, of ops]] run_sys_ok [OF ok, of ops]
  by (auto simp: call_txn_def Let_def split: link.splits sum.splits)

lemma call_txn_works:
  "t (run ops db) = Inr (x, db') \<Longrightarrow> call_txn Works ops t db = (Inr x, db')"
  by (simp add: call_txn_def)

lemma call_txn_InrD:
  "call_txn k ops t db = (Inr x, db') \<Longrightarrow> k = Works \<and> t (run ops db) = Inr (x, db')"
  by (auto simp: call_txn_def Let_def split: link.splits sum.splits)

lemma exec_case: "exec op db = commit r \<Longrightarrow> sys_ok db \<Longrightarrow> r = Inr (x, db') \<Longrightarrow> sys_ok db'"
  using exec_sys_ok [of db op db'] by auto

lemma txn_sys_ok:
  "sys_ok db \<Longrightarrow> insert_or_get now i req db = Inr (x, db') \<Longrightarrow> sys_ok db'"
  "sys_ok db \<Longrightarrow> mark_published now j db = Inr (u, db') \<Longrightarrow> sys_ok db'"
  "sys_ok db \<Longrightarrow> cancel now j db = Inr (y, db') \<Longrightarrow> sys_ok db'"
  "sys_ok db \<Longrightarrow> claim now t j ow d db = Inr (z, db') \<Longrightarrow> sys_ok db'"
  "sys_ok db \<Longrightarrow> retire_lapsed now db = Inr (ids, db') \<Longrightarrow> sys_ok db'"
  "sys_ok db \<Longrightarrow> extend now l d db = Inr (l', db') \<Longrightarrow> sys_ok db'"
  "sys_ok db \<Longrightarrow> ack now l ref db = Inr (v, db') \<Longrightarrow> sys_ok db'"
  "sys_ok db \<Longrightarrow> nack now l e rt db = Inr (jb, db') \<Longrightarrow> sys_ok db'"
  "sys_ok db \<Longrightarrow> ensure_session now s db = Inr (u2, db') \<Longrightarrow> sys_ok db'"
  "sys_ok db \<Longrightarrow> record_user_message now m s k tx db = Inr (rm, db') \<Longrightarrow> sys_ok db'"
  "sys_ok db \<Longrightarrow> start_assistant_message now m s db = Inr (sm, db') \<Longrightarrow> sys_ok db'"
  "sys_ok db \<Longrightarrow> complete_assistant_message now m tx db = Inr (u3, db') \<Longrightarrow> sys_ok db'"
  "sys_ok db \<Longrightarrow> fail_assistant_message now m db = Inr (u4, db') \<Longrightarrow> sys_ok db'"
  by (rule exec_case [OF exec.simps(1)] exec_case [OF exec.simps(2)] exec_case [OF exec.simps(3)]
      exec_case [OF exec.simps(4)] exec_case [OF exec.simps(5)] exec_case [OF exec.simps(6)]
      exec_case [OF exec.simps(7)] exec_case [OF exec.simps(8)] exec_case [OF exec.simps(9)]
      exec_case [OF exec.simps(10)] exec_case [OF exec.simps(11)] exec_case [OF exec.simps(12)]
      exec_case [OF exec.simps(13)]; assumption)+

end
