(* ===== verification/Uuid.thy ===== *)
theory Uuid
  imports Prelude
begin

text \<open>
  The text of an identifier. \<open>str(uuid)\<close> and \<open>uuid.UUID(text)\<close> are the standard library's, as
  \<open>api/chat.py\<close>, \<open>core/artifacts.py\<close> and \<open>adapters/rabbitmq/job_queue.py\<close> use them: the first is the
  canonical dashed lower-case form, the second removes \<open>urn:\<close>, \<open>uuid:\<close>, braces and dashes and
  reads what is left as thirty-two characters in base 16, with all the spellings \<open>int(text, 16)\<close>
  takes (a sign, a \<open>0x\<close> prefix, underscores, surrounding blanks). Characters are code points below
  256. The parse inverts the print, so the print is injective.
\<close>

subsection \<open>Printing\<close>

definition hex_digit :: "nat \<Rightarrow> char" where
  "hex_digit n = ''0123456789abcdef'' ! n"

fun hex_digits :: "nat \<Rightarrow> nat \<Rightarrow> string" where
  "hex_digits 0 n = []"
| "hex_digits (Suc k) n = hex_digits k (n div 16) @ [hex_digit (n mod 16)]"

definition dashed :: "string \<Rightarrow> string" where
  "dashed h = take 8 h @ ''-'' @ take 4 (drop 8 h) @ ''-'' @ take 4 (drop 12 h) @ ''-'' @
     take 4 (drop 16 h) @ ''-'' @ drop 20 h"

definition uuid_str :: "uuid \<Rightarrow> string" where
  "uuid_str u = dashed (hex_digits 32 (unat u))"

text \<open>\<open>uuid.hex\<close>: the same digits without dashes, as the frames carry an identifier.\<close>

definition uuid_hex :: "uuid \<Rightarrow> string" where
  "uuid_hex u = hex_digits 32 (unat u)"

subsection \<open>Parsing\<close>

text \<open>\<open>text.replace(pat, '')\<close>: occurrences from the left, not overlapping.\<close>

function remove_all :: "string \<Rightarrow> string \<Rightarrow> string" where
  "remove_all pat s =
     (if s = [] then []
      else if pat \<noteq> [] \<and> take (length pat) s = pat then remove_all pat (drop (length pat) s)
      else hd s # remove_all pat (tl s))"
  by pat_completeness auto
termination by (relation "measure (\<lambda>(pat, s). length s)") auto

declare remove_all.simps [simp del]

definition strip_chars :: "(char \<Rightarrow> bool) \<Rightarrow> string \<Rightarrow> string" where
  "strip_chars P s = rev (dropWhile P (rev (dropWhile P s)))"

definition hex_val :: "char \<Rightarrow> nat option" where
  "hex_val c =
     (let n = of_char c in
      if 48 \<le> n \<and> n \<le> 57 then Some (n - 48)
      else if 97 \<le> n \<and> n \<le> 102 then Some (n - 87)
      else if 65 \<le> n \<and> n \<le> 70 then Some (n - 55)
      else None)"

text \<open>Digits, with at most one underscore between two of them; at least one digit.\<close>

fun hex_number :: "nat \<Rightarrow> string \<Rightarrow> nat option" where
  "hex_number acc [] = None"
| "hex_number acc [c] = map_option (\<lambda>d. 16 * acc + d) (hex_val c)"
| "hex_number acc (c # d # s) =
     (case hex_val c of
        None \<Rightarrow> None
      | Some v \<Rightarrow> if d = CHR ''_'' then hex_number (16 * acc + v) s
                  else hex_number (16 * acc + v) (d # s))"

definition blank :: "char \<Rightarrow> bool" where
  "blank c \<longleftrightarrow> (let n = (of_char c :: nat) in (9 \<le> n \<and> n \<le> 13) \<or> n = 32 \<or> n = 133 \<or> n = 160)"

definition unsigned_part :: "string \<Rightarrow> string" where
  "unsigned_part s = (case s of [] \<Rightarrow> [] | c # t \<Rightarrow> if c = CHR ''+'' then t else s)"

definition unprefixed_part :: "string \<Rightarrow> string" where
  "unprefixed_part s =
     (if take 2 s = ''0x'' \<or> take 2 s = ''0X''
      then (case drop 2 s of [] \<Rightarrow> [] | c # t \<Rightarrow> if c = CHR ''_'' then t else c # t)
      else s)"

definition int_base16 :: "string \<Rightarrow> nat option" where
  "int_base16 s = hex_number 0 (unprefixed_part (unsigned_part (strip_chars blank s)))"

definition uuid_parse :: "string \<Rightarrow> uuid option" where
  "uuid_parse s =
     (let h = remove_all ''uuid:'' (remove_all ''urn:'' s);
          h = remove_all ''-'' (strip_chars (\<lambda>c. c = CHR ''{'' \<or> c = CHR ''}'') h)
      in if length h \<noteq> 32 then None else map_option of_nat (int_base16 h))"

subsection \<open>The parse inverts the print\<close>

definition hexes :: "char set" where
  "hexes = set ''0123456789abcdef''"

lemma hex_val_digits: "\<forall>n \<in> set [0..<16]. hex_val (hex_digit n) = Some n"
  by code_simp

lemma hex_val_digit: "n < 16 \<Longrightarrow> hex_val (hex_digit n) = Some n"
  using hex_val_digits by simp

lemma hex_digit_in: "n < 16 \<Longrightarrow> hex_digit n \<in> hexes"
  unfolding hexes_def hex_digit_def by (rule nth_mem) simp

lemma hex_digits_in: "set (hex_digits k n) \<subseteq> hexes"
  by (induction k arbitrary: n) (auto simp: hex_digit_in)

lemma length_hex_digits [simp]: "length (hex_digits k n) = k"
  by (induction k arbitrary: n) simp_all

lemma hex_number_snoc:
  assumes "CHR ''_'' \<notin> set s" "s \<noteq> []"
  shows "hex_number acc (s @ [c]) =
    (case hex_number acc s of None \<Rightarrow> None | Some v \<Rightarrow> if c = CHR ''_'' then None
       else map_option (\<lambda>d. 16 * v + d) (hex_val c))"
  using assms
  by (induction acc s rule: hex_number.induct) (auto split: option.splits simp: hex_val_def)

lemma underscore_not_hex: "CHR ''_'' \<notin> hexes"
  by (simp add: hexes_def)

lemma hex_number_digits:
  "k \<noteq> 0 \<Longrightarrow> hex_number 0 (hex_digits k n) = Some (n mod 16 ^ k)"
proof (induction k arbitrary: n)
  case (Suc k)
  show ?case
  proof (cases "k = 0")
    case True
    then show ?thesis by (simp add: hex_val_digit)
  next
    case False
    have u: "CHR ''_'' \<notin> set (hex_digits k (n div 16))" "hex_digits k (n div 16) \<noteq> []"
      using hex_digits_in [of k "n div 16"] underscore_not_hex False by (auto simp flip: length_0_conv)
    have d: "hex_digit (n mod 16) \<noteq> CHR ''_''"
      using hex_digit_in [of "n mod 16"] underscore_not_hex by auto
    have "n mod 16 ^ Suc k = 16 * (n div 16 mod 16 ^ k) + n mod 16"
      by (simp add: mod_mult2_eq)
    with hex_number_snoc [OF u] d Suc.IH [OF False] show ?thesis by (simp add: hex_val_digit)
  qed
qed simp

lemma remove_all_absent:
  assumes "pat \<noteq> []" "hd pat \<notin> set s"
  shows "remove_all pat s = s"
  using assms(2)
proof (induction s)
  case Nil
  show ?case by (subst remove_all.simps) simp
next
  case (Cons c s)
  have "take (length pat) (c # s) \<noteq> pat"
  proof
    assume "take (length pat) (c # s) = pat"
    with assms(1) have "hd pat = c" by (cases pat) auto
    with Cons.prems show False by simp
  qed
  with Cons show ?case by (subst remove_all.simps) simp
qed

lemma remove_all_one: "remove_all [c] s = filter (\<lambda>x. x \<noteq> c) s"
proof (induction s)
  case Nil
  show ?case by (subst remove_all.simps) simp
next
  case (Cons a s)
  then show ?case by (subst remove_all.simps) auto
qed

lemma dropWhile_id: "(\<forall>c \<in> set s. \<not> P c) \<Longrightarrow> dropWhile P s = s"
  by (cases s) auto

lemma strip_chars_id: "(\<forall>c \<in> set s. \<not> P c) \<Longrightarrow> strip_chars P s = s"
  by (simp add: strip_chars_def dropWhile_id)

lemma dashed_set: "set h \<subseteq> hexes \<Longrightarrow> set (dashed h) \<subseteq> insert (CHR ''-'') hexes"
  using set_take_subset set_drop_subset by (fastforce simp: dashed_def dest: in_set_takeD in_set_dropD)

lemma filter_dash: "set h \<subseteq> hexes \<Longrightarrow> filter (\<lambda>x. x \<noteq> CHR ''-'') h = h"
  by (auto simp: filter_id_conv hexes_def)

lemma undash:
  assumes "set h \<subseteq> hexes"
  shows "filter (\<lambda>x. x \<noteq> CHR ''-'') (dashed h) = h"
proof -
  have part: "filter (\<lambda>x. x \<noteq> CHR ''-'') (take i (drop j h)) = take i (drop j h)" for i j
    using assms by (intro filter_dash) (auto dest: in_set_takeD in_set_dropD)
  have "take 4 (drop 8 h) @ drop 12 h = drop 8 h" "take 4 (drop 12 h) @ drop 16 h = drop 12 h"
    "take 4 (drop 16 h) @ drop 20 h = drop 16 h"
    using append_take_drop_id [of 4 "drop 8 h"] append_take_drop_id [of 4 "drop 12 h"]
      append_take_drop_id [of 4 "drop 16 h"] by (simp_all add: drop_drop)
  then have "take 8 h @ take 4 (drop 8 h) @ take 4 (drop 12 h) @ take 4 (drop 16 h) @ drop 20 h = h"
    by simp
  then show ?thesis
    using part [of 8 0] part [of 4 8] part [of 4 12] part [of 4 16]
      filter_dash [OF subset_trans [OF set_drop_subset assms], of 20]
    by (simp add: dashed_def)
qed

lemma int_base16_hex:
  assumes "set h \<subseteq> hexes"
  shows "int_base16 h = hex_number 0 h"
proof -
  have "\<not> blank c" "c \<noteq> CHR ''+''" "c \<noteq> CHR ''x''" "c \<noteq> CHR ''X''" if "c \<in> set h" for c
    using assms that by (auto simp: hexes_def blank_def)
  note plain = this
  have "strip_chars blank h = h" using plain by (simp add: strip_chars_id)
  moreover have "unsigned_part h = h"
    using plain by (auto simp: unsigned_part_def split: list.splits)
  moreover have "unprefixed_part h = h"
  proof -
    have "take 2 h \<noteq> ''0x'' \<and> take 2 h \<noteq> ''0X''"
      using plain(3) [of "CHR ''x''"] plain(4) [of "CHR ''X''"] in_set_takeD [of "CHR ''x''" 2 h]
        in_set_takeD [of "CHR ''X''" 2 h] by force
    then show ?thesis by (simp add: unprefixed_part_def)
  qed
  ultimately show ?thesis by (simp add: int_base16_def)
qed

lemma uuid_parse_str: "uuid_parse (uuid_str u) = Some u"
proof -
  let ?h = "hex_digits 32 (unat u)"
  have h: "set ?h \<subseteq> hexes" by (rule hex_digits_in)
  have d: "set (dashed ?h) \<subseteq> insert (CHR ''-'') hexes" by (rule dashed_set [OF h])
  then have "CHR ''u'' \<notin> set (dashed ?h)" "\<forall>c \<in> set (dashed ?h). \<not> (c = CHR ''{'' \<or> c = CHR ''}'')"
    by (auto simp: hexes_def)
  then have "remove_all ''urn:'' (dashed ?h) = dashed ?h" "remove_all ''uuid:'' (dashed ?h) = dashed ?h"
    "strip_chars (\<lambda>c. c = CHR ''{'' \<or> c = CHR ''}'') (dashed ?h) = dashed ?h"
    by (simp_all add: remove_all_absent strip_chars_id)
  moreover have "unat u mod 16 ^ 32 = unat u"
    using unsigned_less [of u, where 'a = nat] by simp
  ultimately show ?thesis
    by (simp add: uuid_parse_def uuid_str_def remove_all_one undash [OF h] int_base16_hex [OF h]
        hex_number_digits)
qed

lemma uuid_str_inj: "uuid_str a = uuid_str b \<longleftrightarrow> a = b"
  by (metis option.inject uuid_parse_str)

lemma uuid_hex_inj: "uuid_hex a = uuid_hex b \<longleftrightarrow> a = b"
  by (metis uuid_hex_def uuid_str_def uuid_str_inj)

lemma separator_split:
  "c \<notin> set a \<Longrightarrow> c \<notin> set a' \<Longrightarrow> a @ c # b = a' @ c # b' \<Longrightarrow> a = a' \<and> b = b'"
proof (induction a arbitrary: a')
  case Nil
  then show ?case by (cases a') auto
next
  case (Cons x a)
  then show ?case by (cases a') auto
qed

end
