(* ===== verification/Frames.thy ===== *)
theory Frames
  imports Messages Uuid
begin

text \<open>
  \<open>core/frames.py\<close>: the frames of the chat protocol in both directions. Every server frame carries
  the protocol version as a constant, which is left out of the constructors. Reading JSON text is
  pydantic's; what the models ask of it, the bounds on the fields, is \<open>frame_ok\<close>.
\<close>

definition PROTOCOL_VERSION :: int where
  "PROTOCOL_VERSION = 1"

definition MAX_MESSAGE_CHARS :: nat where
  "MAX_MESSAGE_CHARS = 8000"

datatype error_code =
    BAD_FRAME | UNSUPPORTED_VERSION | TOO_MANY_TURNS | TOO_MANY_CONNECTIONS | GOING_AWAY
  | INTERNAL | RESUME_TOO_OLD

fun error_code_value :: "error_code \<Rightarrow> string" where
  "error_code_value BAD_FRAME = ''bad_frame''"
| "error_code_value UNSUPPORTED_VERSION = ''unsupported_version''"
| "error_code_value TOO_MANY_TURNS = ''too_many_turns''"
| "error_code_value TOO_MANY_CONNECTIONS = ''too_many_connections''"
| "error_code_value GOING_AWAY = ''going_away''"
| "error_code_value INTERNAL = ''internal''"
| "error_code_value RESUME_TOO_OLD = ''resume_too_old''"

subsection \<open>Client to server\<close>

datatype client_frame =
    UserMessage (frame_v: int) (um_text: string) (um_key: string)
  | Ping (frame_v: int)
  | Resume (frame_v: int) (last_seq: int)

fun frame_ok :: "client_frame \<Rightarrow> bool" where
  "frame_ok (UserMessage v t key) \<longleftrightarrow>
     1 \<le> length t \<and> length t \<le> MAX_MESSAGE_CHARS \<and> 1 \<le> length key \<and> length key \<le> 64"
| "frame_ok (Ping v) \<longleftrightarrow> True"
| "frame_ok (Resume v n) \<longleftrightarrow> 0 \<le> n"

subsection \<open>Server to client\<close>

datatype server_frame =
    AckFrame (ack_key: string) (frame_seq: int) (frame_message: string) (reply_message: "string option")
  | Delta (frame_message: string) (chunk_index: nat) (chunk: string)
  | DoneFrame (frame_message: string) (frame_seq: int)
  | ErrorFrame (code: error_code) (reason: string) (retryable: bool)
  | Pong
  | Message (frame_seq: int) (frame_message: string) (frame_role: role) (frame_status: status)
      (frame_text: string)
  | JobStatus (frame_seq: int) (frame_job: string) (frame_state: job_state)

text \<open>\<open>core/chat_handler.py\<close>, \<open>_replayed\<close>: the frame for one entry of the session's log.\<close>

fun replayed :: "log_entry \<Rightarrow> server_frame" where
  "replayed (LogEvent e) = JobStatus (ev_seq e) (uuid_hex (ev_job_id e)) (ev_state e)"
| "replayed (LogMessage m) =
     Message (seq m) (uuid_hex (message_id m)) (msg_role m) (msg_status m) (msg_text m)"

lemma frame_seq_replayed [simp]: "frame_seq (replayed e) = entry_seq e"
  by (cases e) simp_all

lemma replayed_inj: "inj replayed"
proof (rule injI)
  fix a b
  assume "replayed a = replayed b"
  then show "a = b"
    by (cases a; cases b) (auto simp: uuid_hex_inj)
qed

end
