(* ===== verification/Ws.thy ===== *)
theory Ws
  imports Frames "HOL-Library.AList"
begin

text \<open>
  \<open>core/ws.py\<close>: the bounded queue in front of one socket, the writer that drains it, and the
  registry of the connections a replica holds. A socket is the list of the frames put on the wire
  and an answer for each attempt: a write either reaches the peer or finds it gone.
\<close>

definition WS_NORMAL :: int where "WS_NORMAL = 1000"
definition WS_POLICY_VIOLATION :: int where "WS_POLICY_VIOLATION = 1008"
definition WS_INTERNAL_ERROR :: int where "WS_INTERNAL_ERROR = 1011"
definition WS_SERVICE_RESTART :: int where "WS_SERVICE_RESTART = 1012"
definition WS_TRY_AGAIN_LATER :: int where "WS_TRY_AGAIN_LATER = 1013"

lemmas ws_codes = WS_NORMAL_def WS_POLICY_VIOLATION_def WS_INTERNAL_ERROR_def WS_SERVICE_RESTART_def
  WS_TRY_AGAIN_LATER_def

subsection \<open>One connection\<close>

datatype out_item = Frame server_frame | CloseToken

record connection =
  conn_session :: uuid
  out :: "out_item list"
  out_max :: int
  overflowed :: bool
  close_code :: int

definition new_connection :: "uuid \<Rightarrow> int \<Rightarrow> connection" where
  "new_connection sid bound =
     \<lparr>conn_session = sid, out = [], out_max = bound, overflowed = False, close_code = WS_NORMAL\<rparr>"

text \<open>An \<open>asyncio.Queue\<close> with a bound that is not positive is unbounded.\<close>

definition full :: "connection \<Rightarrow> bool" where
  "full c \<longleftrightarrow> 0 < out_max c \<and> out_max c \<le> int (length (out c))"

definition enqueue_item :: "out_item \<Rightarrow> connection \<Rightarrow> bool \<times> connection" where
  "enqueue_item x c =
     (if full c then (False, c\<lparr>overflowed := True\<rparr>) else (True, c\<lparr>out := out c @ [x]\<rparr>))"

definition send :: "server_frame \<Rightarrow> connection \<Rightarrow> connection" where
  "send f c = (if overflowed c then c else snd (enqueue_item (Frame f) c))"

definition request_close :: "int \<Rightarrow> server_frame option \<Rightarrow> connection \<Rightarrow> connection" where
  "request_close code' f c =
     (let c1 = (case f of None \<Rightarrow> c | Some f' \<Rightarrow> send f' c)
      in snd (enqueue_item CloseToken (c1\<lparr>close_code := code'\<rparr>)))"

text \<open>
  One turn of \<open>run_writer\<close>: nothing to take, a frame on the wire, or the return with a close code.
  \<open>peer\<close> tells whether a write reaches the peer.
\<close>

datatype writer_turn = Waits | Wrote server_frame | Returns int

definition writer_step :: "(server_frame \<Rightarrow> bool) \<Rightarrow> connection \<Rightarrow> writer_turn \<times> connection" where
  "writer_step peer c =
     (case out c of
        [] \<Rightarrow> (Waits, c)
      | x # xs \<Rightarrow>
          let c1 = c\<lparr>out := xs\<rparr> in
          (case x of
             CloseToken \<Rightarrow> (Returns (close_code c), c1)
           | Frame f \<Rightarrow>
               if overflowed c then (Returns WS_TRY_AGAIN_LATER, c1)
               else if peer f then (Wrote f, c1)
               else (Returns WS_NORMAL, c1)))"

text \<open>
  The writer left alone: it runs until the queue is empty (\<open>None\<close>) or it returns a code.
\<close>

function run_writer ::
    "(server_frame \<Rightarrow> bool) \<Rightarrow> connection \<Rightarrow> server_frame list \<times> int option \<times> connection" where
  "run_writer peer c =
     (case writer_step peer c of
        (Waits, c1) \<Rightarrow> ([], None, c1)
      | (Returns code', c1) \<Rightarrow> ([], Some code', c1)
      | (Wrote f, c1) \<Rightarrow>
          (case run_writer peer c1 of (fs, r, c2) \<Rightarrow> (f # fs, r, c2)))"
  by pat_completeness auto
termination
  by (relation "measure (\<lambda>(peer, c). length (out c))")
     (auto simp: writer_step_def Let_def split: list.splits out_item.splits if_splits)

declare run_writer.simps [simp del]

subsection \<open>What the queue keeps\<close>

definition within_bound :: "connection \<Rightarrow> bool" where
  "within_bound c \<longleftrightarrow> (0 < out_max c \<longrightarrow> int (length (out c)) \<le> out_max c)"

lemma enqueue_item_sel [simp]:
  "out_max (snd (enqueue_item x c)) = out_max c" "close_code (snd (enqueue_item x c)) = close_code c"
  "conn_session (snd (enqueue_item x c)) = conn_session c"
  by (simp_all add: enqueue_item_def)

lemma send_sel [simp]:
  "out_max (send f c) = out_max c" "close_code (send f c) = close_code c"
  "conn_session (send f c) = conn_session c"
  by (simp_all add: send_def)

lemma within_bound_enqueue: "within_bound c \<Longrightarrow> within_bound (snd (enqueue_item x c))"
  by (auto simp: within_bound_def enqueue_item_def full_def)

lemma within_bound_send: "within_bound c \<Longrightarrow> within_bound (send f c)"
  by (simp add: send_def within_bound_enqueue)

lemma within_bound_close: "within_bound c \<Longrightarrow> within_bound (request_close code' f c)"
proof -
  assume "within_bound c"
  then have "within_bound (case f of None \<Rightarrow> c | Some f' \<Rightarrow> send f' c)"
    by (simp add: within_bound_send split: option.splits)
  then show ?thesis
    by (auto simp: request_close_def Let_def within_bound_def enqueue_item_def full_def)
qed

lemma within_bound_writer: "within_bound c \<Longrightarrow> within_bound (snd (writer_step peer c))"
  by (auto simp: within_bound_def writer_step_def Let_def split: list.splits out_item.splits)

lemma send_overflowed: "overflowed c \<Longrightarrow> send f c = c"
  by (simp add: send_def)

lemma send_stays_overflowed: "overflowed c \<Longrightarrow> overflowed (send f c)"
  by (simp add: send_def)

text \<open>Sending a burst with no turn of the writer in between.\<close>

definition send_all :: "server_frame list \<Rightarrow> connection \<Rightarrow> connection" where
  "send_all fs c = fold send fs c"

lemma send_all_simps [simp]:
  "send_all [] c = c" "send_all (f # fs) c = send_all fs (send f c)"
  by (simp_all add: send_all_def)

lemma send_all_sel [simp]: "out_max (send_all fs c) = out_max c"
  "close_code (send_all fs c) = close_code c"
  by (induction fs arbitrary: c) simp_all

lemma send_all_overflowed: "overflowed c \<Longrightarrow> send_all fs c = c"
  by (induction fs) (simp_all add: send_overflowed)

text \<open>The room left in the queue decides a burst: what fits is queued in order, the rest is lost.\<close>

definition room :: "connection \<Rightarrow> nat" where
  "room c = nat (out_max c - int (length (out c)))"

lemma send_all_fits:
  assumes "\<not> overflowed c" "out_max c \<le> 0 \<or> length fs \<le> room c"
  shows "send_all fs c = c\<lparr>out := out c @ map Frame fs\<rparr>"
  using assms
proof (induction fs arbitrary: c)
  case (Cons f fs)
  have "\<not> full c" using Cons.prems(2) by (auto simp: full_def room_def)
  then have s: "send f c = c\<lparr>out := out c @ [Frame f]\<rparr>"
    using Cons.prems(1) by (simp add: send_def enqueue_item_def)
  have "send_all fs (send f c) = (send f c)\<lparr>out := out (send f c) @ map Frame fs\<rparr>"
    by (rule Cons.IH) (use Cons.prems s in \<open>auto simp: room_def\<close>)
  with s show ?case by simp
qed simp

lemma send_all_overflows:
  assumes "\<not> overflowed c" "0 < out_max c" "within_bound c" "room c < length fs"
  shows "send_all fs c =
           c\<lparr>out := out c @ map Frame (take (room c) fs), overflowed := True\<rparr>"
  using assms
proof (induction fs arbitrary: c)
  case (Cons f fs)
  show ?case
  proof (cases "full c")
    case True
    then have "room c = 0" by (simp add: full_def room_def)
    moreover have "send f c = c\<lparr>overflowed := True\<rparr>"
      using True Cons.prems(1) by (simp add: send_def enqueue_item_def)
    ultimately show ?thesis by (simp add: send_all_overflowed)
  next
    case False
    then have s: "send f c = c\<lparr>out := out c @ [Frame f]\<rparr>"
      using Cons.prems(1) by (simp add: send_def enqueue_item_def)
    have r: "room c = Suc (room (send f c))"
      using False Cons.prems(2) by (simp add: room_def full_def s)
    have "within_bound (send f c)" using Cons.prems(3) by (rule within_bound_send)
    with Cons.IH [of "send f c"] Cons.prems r s show ?thesis by simp
  qed
qed simp

lemma writer_gives_up:
  assumes "overflowed c" "out c = Frame f # xs"
  shows "run_writer peer c = ([], Some WS_TRY_AGAIN_LATER, c\<lparr>out := xs\<rparr>)"
  using assms by (simp add: run_writer.simps [of peer c] writer_step_def Let_def)

lemma writer_flushes:
  assumes "\<not> overflowed c" "\<forall>f \<in> set fs. peer f" "out c = map Frame fs"
  shows "run_writer peer c = (fs, None, c\<lparr>out := []\<rparr>)"
  using assms
proof (induction fs arbitrary: c)
  case Nil
  then show ?case by (simp add: run_writer.simps [of peer c] writer_step_def)
next
  case (Cons f fs)
  have "run_writer peer (c\<lparr>out := map Frame fs\<rparr>) = (fs, None, c\<lparr>out := []\<rparr>)"
    using Cons.IH [of "c\<lparr>out := map Frame fs\<rparr>"] Cons.prems by simp
  with Cons.prems show ?case by (simp add: run_writer.simps [of peer c] writer_step_def Let_def)
qed

lemma writer_flushes_and_closes:
  assumes "\<not> overflowed c" "\<forall>f \<in> set fs. peer f" "out c = map Frame fs @ [CloseToken]"
  shows "run_writer peer c = (fs, Some (close_code c), c\<lparr>out := []\<rparr>)"
  using assms
proof (induction fs arbitrary: c)
  case Nil
  then show ?case by (simp add: run_writer.simps [of peer c] writer_step_def Let_def)
next
  case (Cons f fs)
  have "run_writer peer (c\<lparr>out := map Frame fs @ [CloseToken]\<rparr>) = (fs, Some (close_code c), c\<lparr>out := []\<rparr>)"
    using Cons.IH [of "c\<lparr>out := map Frame fs @ [CloseToken]\<rparr>"] Cons.prems by simp
  with Cons.prems show ?case by (simp add: run_writer.simps [of peer c] writer_step_def Let_def)
qed

subsection \<open>The registry\<close>

text \<open>
  The dictionary of sessions in insertion order, each with the connections held for it. A
  connection is a handle; \<open>drain\<close> reaches the connections themselves through a heap.
\<close>

record registry =
  max_per_session :: int
  by_session :: "(uuid \<times> nat list) list"

definition for_session :: "uuid \<Rightarrow> registry \<Rightarrow> nat list" where
  "for_session sid reg = (case map_of (by_session reg) sid of None \<Rightarrow> [] | Some cs \<Rightarrow> cs)"

definition registry_add :: "uuid \<Rightarrow> nat \<Rightarrow> registry \<Rightarrow> bool \<times> registry" where
  "registry_add sid c reg =
     (let cs = for_session sid reg in
      if max_per_session reg \<le> int (length cs)
      then (False, reg\<lparr>by_session := AList.update sid cs (by_session reg)\<rparr>)
      else (True, reg\<lparr>by_session := AList.update sid (if c \<in> set cs then cs else cs @ [c]) (by_session reg)\<rparr>))"

definition registry_remove :: "uuid \<Rightarrow> nat \<Rightarrow> registry \<Rightarrow> registry" where
  "registry_remove sid c reg =
     (case map_of (by_session reg) sid of
        None \<Rightarrow> reg
      | Some cs \<Rightarrow>
          let cs' = removeAll c cs in
          reg\<lparr>by_session := (if cs' = [] then AList.delete sid (by_session reg)
                             else AList.update sid cs' (by_session reg))\<rparr>)"

definition registry_len :: "registry \<Rightarrow> nat" where
  "registry_len reg = sum_list (map (\<lambda>(_, cs). length cs) (by_session reg))"

definition drain :: "server_frame \<Rightarrow> registry \<Rightarrow> (nat \<Rightarrow> connection) \<Rightarrow> (nat \<Rightarrow> connection)" where
  "drain going_away reg heap =
     fold (\<lambda>c h. h(c := request_close WS_SERVICE_RESTART (Some going_away) (h c)))
       (concat (map snd (by_session reg))) heap"

definition registry_ok :: "registry \<Rightarrow> bool" where
  "registry_ok reg \<longleftrightarrow> distinct (map fst (by_session reg)) \<and>
     (\<forall>(sid, cs) \<in> set (by_session reg). distinct cs \<and> cs \<noteq> [] \<and>
        int (length cs) \<le> max_per_session reg)"

lemma for_session_in: "for_session sid reg \<noteq> [] \<Longrightarrow> (sid, for_session sid reg) \<in> set (by_session reg)"
  by (auto simp: for_session_def split: option.splits dest: map_of_SomeD)

lemma for_session_ok:
  "registry_ok reg \<Longrightarrow> 0 \<le> max_per_session reg \<Longrightarrow>
   distinct (for_session sid reg) \<and> int (length (for_session sid reg)) \<le> max_per_session reg"
  using for_session_in [of sid reg] by (cases "for_session sid reg = []") (auto simp: registry_ok_def)

lemma update_entries:
  assumes "distinct (map fst al)" "p \<in> set (AList.update k v al)"
  shows "p = (k, v) \<or> (p \<in> set al \<and> fst p \<noteq> k)"
proof -
  obtain a b where p: "p = (a, b)" by (cases p)
  have d: "distinct (map fst (AList.update k v al))" using assms(1) by (rule distinct_update)
  then have "map_of (AList.update k v al) a = Some b" using assms(2) p by simp
  then have "((map_of al)(k \<mapsto> v)) a = Some b" by (simp add: update_conv')
  with p show ?thesis by (auto split: if_splits dest: map_of_SomeD)
qed

lemma registry_ok_update:
  assumes ok: "registry_ok reg" and cs: "distinct cs" "cs \<noteq> []" "int (length cs) \<le> max_per_session reg"
  shows "registry_ok (reg\<lparr>by_session := AList.update sid cs (by_session reg)\<rparr>)"
proof -
  have d: "distinct (map fst (by_session reg))" using ok by (simp add: registry_ok_def)
  have "distinct b \<and> b \<noteq> [] \<and> int (length b) \<le> max_per_session reg"
    if "(a, b) \<in> set (AList.update sid cs (by_session reg))" for a b
    using update_entries [OF d that] ok cs by (auto simp: registry_ok_def)
  then show ?thesis using d by (auto simp: registry_ok_def distinct_update)
qed

lemma registry_ok_add:
  assumes ok: "registry_ok reg" and pos: "0 < max_per_session reg"
  shows "registry_ok (snd (registry_add sid c reg))"
proof -
  let ?cs = "for_session sid reg"
  have cs: "distinct ?cs" "int (length ?cs) \<le> max_per_session reg"
    using for_session_ok [OF ok] pos by simp_all
  note upd = registry_ok_update [OF ok]
  show ?thesis
  proof (cases "max_per_session reg \<le> int (length ?cs)")
    case True
    with pos have "?cs \<noteq> []" by auto
    with True cs upd show ?thesis by (simp add: registry_add_def Let_def)
  next
    case False
    have "distinct (if c \<in> set ?cs then ?cs else ?cs @ [c])"
      "(if c \<in> set ?cs then ?cs else ?cs @ [c]) \<noteq> []"
      "int (length (if c \<in> set ?cs then ?cs else ?cs @ [c])) \<le> max_per_session reg"
      using cs False by auto
    from upd [OF this] False show ?thesis by (simp add: registry_add_def Let_def)
  qed
qed

lemma registry_ok_remove: "registry_ok reg \<Longrightarrow> registry_ok (registry_remove sid c reg)"
proof (cases "map_of (by_session reg) sid")
  case None
  assume "registry_ok reg"
  with None show ?thesis by (simp add: registry_remove_def)
next
  case (Some cs)
  assume ok: "registry_ok reg"
  have d: "distinct (map fst (by_session reg))" using ok by (simp add: registry_ok_def)
  have cs: "distinct cs" "int (length cs) \<le> max_per_session reg"
    using ok map_of_SomeD [OF Some] by (auto simp: registry_ok_def)
  show ?thesis
  proof (cases "removeAll c cs = []")
    case True
    with Some ok d show ?thesis
      by (auto simp: registry_remove_def registry_ok_def distinct_map_filter AList.delete_eq)
  next
    case False
    have "length (removeAll c cs) \<le> length cs" by (simp add: removeAll_filter_not_eq)
    have "registry_ok (reg\<lparr>by_session := AList.update sid (removeAll c cs) (by_session reg)\<rparr>)"
      using registry_ok_update [OF ok, of "removeAll c cs" sid] cs False
        \<open>length (removeAll c cs) \<le> length cs\<close> by (simp add: distinct_removeAll)
    with False Some show ?thesis by (simp add: registry_remove_def Let_def)
  qed
qed

subsection \<open>Properties\<close>

datatype conn_op = DoSend server_frame | DoClose int "server_frame option" | DoWrite bool

fun conn_do :: "conn_op \<Rightarrow> connection \<Rightarrow> connection" where
  "conn_do (DoSend f) c = send f c"
| "conn_do (DoClose k f) c = request_close k f c"
| "conn_do (DoWrite b) c = snd (writer_step (\<lambda>_. b) c)"

lemma request_close_sel [simp]: "out_max (request_close k f c) = out_max c"
  by (cases f) (simp_all add: request_close_def Let_def)

lemma writer_step_max: "out_max (snd (writer_step peer c)) = out_max c"
  by (simp add: writer_step_def Let_def split: list.splits out_item.splits)

lemma conn_do_bound: "within_bound c \<Longrightarrow> within_bound (conn_do op c) \<and> out_max (conn_do op c) = out_max c"
  by (cases op)
     (simp_all add: within_bound_send within_bound_close within_bound_writer writer_step_max)

text \<open>A slow reader cannot make the process buffer: whatever is sent, closed or written, in any order,
  the queue of a connection with a positive bound never holds more than the bound.\<close>

theorem buffer_is_bounded:
  assumes "0 < bound"
  shows "int (length (out (fold conn_do ops (new_connection sid bound)))) \<le> bound"
proof -
  have "within_bound (fold conn_do ops c) \<and> out_max (fold conn_do ops c) = out_max c"
    if "within_bound c" for c
    using that
  proof (induction ops arbitrary: c)
    case (Cons op ops)
    with conn_do_bound [OF Cons.prems, of op] show ?case by auto
  qed simp
  moreover have "within_bound (new_connection sid bound)" "out_max (new_connection sid bound) = bound"
    using assms by (simp_all add: new_connection_def within_bound_def)
  ultimately show ?thesis using assms by (metis within_bound_def)
qed

theorem buffer_is_bounded_witness:
  "int (length (out (fold conn_do [DoSend Pong, DoSend Pong, DoSend Pong] (new_connection 7 2)))) \<le> 2"
  by (rule buffer_is_bounded) simp

text \<open>A burst sent while the writer does not run arrives whole or not at all: if it fits the queue,
  the writer puts exactly those frames on the wire, in order; if it is one frame longer, the client
  is sent none of them, not even those that were queued, and the code is \<open>1013\<close>.\<close>

theorem burst_is_all_or_nothing:
  assumes "0 < bound"
  shows "(case run_writer (\<lambda>_. True) (send_all fs (new_connection sid bound)) of
            (wire, code', c) \<Rightarrow>
              if int (length fs) \<le> bound then wire = fs \<and> code' = None
              else wire = [] \<and> code' = Some WS_TRY_AGAIN_LATER)"
proof -
  let ?c = "new_connection sid bound"
  have c: "\<not> overflowed ?c" "0 < out_max ?c" "within_bound ?c" "room ?c = nat bound" "out ?c = []"
    using assms by (simp_all add: new_connection_def within_bound_def room_def)
  show ?thesis
  proof (cases "int (length fs) \<le> bound")
    case True
    then have s: "send_all fs ?c = ?c\<lparr>out := map Frame fs\<rparr>"
      using send_all_fits [OF c(1), of fs] c(4,5) by (simp add: le_nat_iff)
    have "run_writer (\<lambda>_. True) (?c\<lparr>out := map Frame fs\<rparr>) = (fs, None, ?c\<lparr>out := []\<rparr>)"
      using writer_flushes [of "?c\<lparr>out := map Frame fs\<rparr>" fs "\<lambda>_. True"] c(1) by simp
    with s True show ?thesis by simp
  next
    case False
    with assms have long: "room ?c < length fs" by (simp add: c(4))
    let ?c' = "?c\<lparr>out := map Frame (take (room ?c) fs), overflowed := True\<rparr>"
    have s: "send_all fs ?c = ?c'" using send_all_overflows [OF c(1-3) long] c(5) by simp
    obtain f rest where "take (room ?c) fs = f # rest"
      using long assms by (cases fs) (auto simp: c(4) take_Cons' split: if_splits)
    then have "run_writer (\<lambda>_. True) ?c' = ([], Some WS_TRY_AGAIN_LATER, ?c'\<lparr>out := map Frame rest\<rparr>)"
      by (intro writer_gives_up [of _ f]) simp_all
    with s False show ?thesis by simp
  qed
qed

theorem burst_is_all_or_nothing_witness:
  "fst (run_writer (\<lambda>_. True) (send_all [Pong, Pong, Pong] (new_connection 7 2))) = []"
  using burst_is_all_or_nothing [of 2 "[Pong, Pong, Pong]" 7]
  by (simp split: prod.splits)

text \<open>A close that finds room for its frame and its stop signal flushes what is ahead of it: the
  writer sends the backlog, then the closing frame, then returns the requested code.\<close>

theorem close_flushes_backlog:
  assumes "\<not> overflowed c" "out c = map Frame fs" "2 \<le> room c"
  shows "\<exists>c'. run_writer (\<lambda>_. True) (request_close code' (Some f) c) = (fs @ [f], Some code', c')"
proof -
  have nf: "\<not> full c" "\<not> full (c\<lparr>out := out c @ [Frame f], close_code := code'\<rparr>)"
    using assms(3) by (auto simp: full_def room_def)
  let ?c = "c\<lparr>out := map Frame (fs @ [f]) @ [CloseToken], close_code := code'\<rparr>"
  have "request_close code' (Some f) c = ?c"
    using assms(1,2) nf by (simp add: request_close_def send_def enqueue_item_def Let_def)
  then show ?thesis
    using writer_flushes_and_closes [of ?c "fs @ [f]" "\<lambda>_. True"] assms(1) by simp
qed

theorem close_flushes_backlog_witness:
  "fst (run_writer (\<lambda>_. True) (request_close WS_SERVICE_RESTART (Some Pong) (new_connection 7 64))) = [Pong]"
proof -
  have "\<not> overflowed (new_connection 7 64)" "out (new_connection 7 64) = map Frame []"
    "2 \<le> room (new_connection 7 64)"
    by (simp_all add: new_connection_def room_def)
  from close_flushes_backlog [OF this, of WS_SERVICE_RESTART Pong] show ?thesis by auto
qed

text \<open>A close that finds exactly one free slot loses the backlog: the closing frame takes the slot,
  the stop signal does not fit and marks the connection overflowed, and the writer returns \<open>1013\<close>
  instead of the requested code without sending anything that was queued.\<close>

theorem close_on_last_slot_loses_backlog:
  assumes "\<not> overflowed c" "0 < out_max c" "out c = map Frame (f0 # fs)" "room c = 1"
  shows "\<exists>c'. run_writer (\<lambda>_. True) (request_close code' (Some f) c) =
           ([], Some WS_TRY_AGAIN_LATER, c')"
proof -
  have nf: "\<not> full c" "full (c\<lparr>out := out c @ [Frame f], close_code := code'\<rparr>)"
    using assms(2,4) by (auto simp: full_def room_def)
  let ?c = "c\<lparr>out := map Frame (f0 # fs @ [f]), close_code := code', overflowed := True\<rparr>"
  have "request_close code' (Some f) c = ?c"
    using assms(1,3) nf by (simp add: request_close_def send_def enqueue_item_def Let_def)
  then show ?thesis
    using writer_gives_up [of ?c f0 "map Frame (fs @ [f])" "\<lambda>_. True"] by simp
qed

theorem close_on_last_slot_loses_backlog_witness:
  "fst (run_writer (\<lambda>_. True) (request_close WS_SERVICE_RESTART (Some Pong)
      (send_all [Pong] (new_connection 7 2)))) = []"
proof -
  let ?c = "send_all [Pong] (new_connection 7 2)"
  have "\<not> overflowed ?c" "0 < out_max ?c" "out ?c = map Frame (Pong # [])" "room ?c = 1"
    by (simp_all add: new_connection_def room_def send_def enqueue_item_def full_def)
  from close_on_last_slot_loses_backlog [OF this, of WS_SERVICE_RESTART Pong] show ?thesis by auto
qed

datatype registry_op = Adds uuid nat | Removes uuid nat

fun registry_do :: "registry_op \<Rightarrow> registry \<Rightarrow> registry" where
  "registry_do (Adds sid c) reg = snd (registry_add sid c reg)"
| "registry_do (Removes sid c) reg = registry_remove sid c reg"

lemma registry_sel [simp]: "max_per_session (snd (registry_add sid c reg)) = max_per_session reg"
  "max_per_session (registry_remove sid c reg) = max_per_session reg"
  by (simp_all add: registry_add_def registry_remove_def Let_def split: option.splits)

lemma for_session_update:
  "for_session s (reg\<lparr>by_session := AList.update sid cs (by_session reg)\<rparr>) =
     (if s = sid then cs else for_session s reg)"
  by (simp add: for_session_def update_conv')

text \<open>A session never holds more than its share of connections on a replica, and the registry keeps
  no entry for a session with none, after any adds and removes; an add is refused exactly at the
  cap and then changes nobody's connections.\<close>

theorem registry_is_capped:
  assumes "0 < cap"
  shows "(let reg = fold registry_do ops \<lparr>max_per_session = cap, by_session = []\<rparr> in
            registry_ok reg \<and> int (length (for_session sid reg)) \<le> cap \<and>
            (fst (registry_add sid c reg) \<longleftrightarrow> int (length (for_session sid reg)) < cap) \<and>
            (\<not> fst (registry_add sid c reg) \<longrightarrow>
               (\<forall>s. for_session s (snd (registry_add sid c reg)) = for_session s reg)))"
proof -
  let ?reg0 = "\<lparr>max_per_session = cap, by_session = []\<rparr>"
  have step: "registry_ok (fold registry_do ops reg) \<and> max_per_session (fold registry_do ops reg) = cap"
    if "registry_ok reg" "max_per_session reg = cap" for reg
    using that
  proof (induction ops arbitrary: reg)
    case (Cons op ops)
    have "registry_ok (registry_do op reg) \<and> max_per_session (registry_do op reg) = cap"
      using Cons.prems assms by (cases op) (simp_all add: registry_ok_add registry_ok_remove)
    with Cons.IH show ?case by simp
  qed simp
  define reg where "reg = fold registry_do ops ?reg0"
  have ok: "registry_ok reg" "max_per_session reg = cap"
    using step [of ?reg0, unfolded reg_def [symmetric]] by (auto simp: registry_ok_def [of ?reg0])
  have "int (length (for_session sid reg)) \<le> cap" using for_session_ok [OF ok(1), of sid] ok(2) assms by simp
  moreover have "for_session s (snd (registry_add sid c reg)) = for_session s reg"
    if "\<not> fst (registry_add sid c reg)" for s
    using that by (auto simp: registry_add_def Let_def for_session_update split: if_splits)
  moreover have "fst (registry_add sid c reg) \<longleftrightarrow> int (length (for_session sid reg)) < cap"
    using ok(2) by (simp add: registry_add_def Let_def not_le)
  ultimately show ?thesis using ok(1) by (simp add: Let_def flip: reg_def)
qed

theorem registry_is_capped_witness:
  "\<not> fst (registry_add 7 3 (fold registry_do [Adds 7 1, Adds 7 2] \<lparr>max_per_session = 2, by_session = []\<rparr>))"
  using registry_is_capped [of 2 "[Adds 7 1, Adds 7 2]" 7 3]
  by (simp add: Let_def) (simp add: registry_add_def for_session_def)

end
