(* ===== verification/Chat_Handler.thy ===== *)
theory Chat_Handler
  imports Calls Ws Config Chat_Properties
begin

text \<open>
  \<open>core/chat_handler.py\<close>: one accepted connection, its reader, its writer and the turns in flight.
  Asyncio runs the code of one task between two awaits without interruption, so the handler is a
  machine whose events are those stretches: a frame arrives, a call to the repository is answered, a
  responder yields, the writer takes its turn, a task is cancelled or its callback runs. \<open>reader\<close> and
  \<open>turn_phase\<close> say which await each task is at. Any sequence of events is a run; an event whose task
  is not at the await it belongs to changes nothing.

  An \<open>answer\<close> says when a call runs, what other processes commit before it, whether the link delivers
  its reply, and which identifier \<open>uuid4\<close> mints in it. Reading a frame's JSON is pydantic's: \<open>parse\<close> is
  a parameter, with the number of validation errors on the left. What a cancelled call had time to
  write is left to the other processes of the next answer.
\<close>

subsection \<open>State\<close>

datatype phase = Spawned | Streaming | Completing | Breaking | Stopping | Ended

record turn =
  turn_id :: nat
  turn_key :: string
  turn_text :: string
  turn_reply :: stored_message
  turn_chunks :: "string list"
  turn_index :: nat
  turn_phase :: phase

datatype reader =
    Opening
  | Reading
  | Replaying int
  | Recording string string
  | Starting string string recorded_user_message
  | Gathering bool
  | ReaderEnded bool
  | NeverServed

datatype task_result = Returned | ReturnedCode int | Raised

record handler =
  h_conn :: connection
  wire :: "server_frame list"
  reader :: reader
  writer_end :: "task_result option"
  turns :: "turn list"
  next_turn :: nat
  live_replies :: "string \<Rightarrow> uuid option"
  closing :: "int option"
  closed_with :: "int option"
  h_db :: db

definition new_handler :: "settings \<Rightarrow> uuid \<Rightarrow> db \<Rightarrow> handler" where
  "new_handler cfg sid db =
     \<lparr>h_conn = new_connection sid (ws_send_queue_size cfg), wire = [], reader = Opening,
      writer_end = None, turns = [], next_turn = 0, live_replies = (\<lambda>_. None),
      closing = None, closed_with = None, h_db = db\<rparr>"

record answer =
  at_time :: time
  before :: "operation list"
  over :: link
  minted_id :: uuid

definition repo_call :: "answer \<Rightarrow> (time \<Rightarrow> uuid \<Rightarrow> 'a txn) \<Rightarrow> handler \<Rightarrow> 'a option \<times> handler" where
  "repo_call a t h =
     (case call_txn (over a) (before a) (t (at_time a) (minted_id a)) (h_db h) of
        (Inl e, db) \<Rightarrow> (None, h\<lparr>h_db := db\<rparr>)
      | (Inr x, db) \<Rightarrow> (Some x, h\<lparr>h_db := db\<rparr>))"

definition say :: "server_frame \<Rightarrow> handler \<Rightarrow> handler" where
  "say f h = h\<lparr>h_conn := send f (h_conn h)\<rparr>"

abbreviation sid_of :: "handler \<Rightarrow> uuid" where
  "sid_of h \<equiv> conn_session (h_conn h)"

subsection \<open>Dispatching a frame\<close>

definition dispatch ::
    "settings \<Rightarrow> (string \<Rightarrow> nat + client_frame) \<Rightarrow> string \<Rightarrow> handler \<Rightarrow> handler" where
  "dispatch cfg parse raw h =
     (case parse raw of
        Inl n \<Rightarrow> say (ErrorFrame BAD_FRAME (nat_digits n @ '' validation error(s)'') False) h
      | Inr frame \<Rightarrow>
          if PROTOCOL_VERSION < frame_v frame
          then say (ErrorFrame UNSUPPORTED_VERSION
                 (''this server speaks v'' @ int_text PROTOCOL_VERSION) False) h
          else case frame of
            Ping v \<Rightarrow> say Pong h
          | Resume v after \<Rightarrow> h\<lparr>reader := Replaying after\<rparr>
          | UserMessage v txt key \<Rightarrow>
              if ws_max_concurrent_turns cfg \<le> int (length (turns h))
              then say (ErrorFrame TOO_MANY_TURNS ''too many turns in flight on this connection'' True) h
              else h\<lparr>reader := Recording key txt\<rparr>)"

definition ack_frame :: "string \<Rightarrow> stored_message \<Rightarrow> uuid option \<Rightarrow> server_frame" where
  "ack_frame key m reply =
     AckFrame key (seq m) (uuid_hex (message_id m)) (map_option uuid_hex reply)"

definition not_stored :: server_frame where
  "not_stored = ErrorFrame INTERNAL ''the message was not stored'' True"

definition too_old :: "settings \<Rightarrow> int \<Rightarrow> server_frame" where
  "too_old cfg after = ErrorFrame RESUME_TOO_OLD
     (''more than '' @ nat_digits (ws_resume_max_messages cfg) @ '' entries since seq '' @ int_text after) False"

definition resume_answered :: "settings \<Rightarrow> int \<Rightarrow> answer \<Rightarrow> handler \<Rightarrow> handler" where
  "resume_answered cfg after a h =
     (let limit = ws_resume_max_messages cfg in
      case repo_call a (\<lambda>_ _ db. Inr (log_since (sid_of h) after (limit + 1) db, db)) h of
        (None, h1) \<Rightarrow> say (ErrorFrame INTERNAL ''the session could not be replayed'' True) h1
      | (Some missed, h1) \<Rightarrow>
          if limit < length missed then say (too_old cfg after) h1
          else fold (\<lambda>e. say (replayed e)) missed h1)"

definition record_answered :: "string \<Rightarrow> string \<Rightarrow> answer \<Rightarrow> handler \<Rightarrow> handler" where
  "record_answered key txt a h =
     (case repo_call a (\<lambda>now mid. record_user_message now mid (sid_of h) key txt) h of
        (None, h1) \<Rightarrow> say not_stored (h1\<lparr>reader := Reading\<rparr>)
      | (Some rec, h1) \<Rightarrow>
          if rec_created rec then h1\<lparr>reader := Starting key txt rec\<rparr>
          else say (ack_frame key (rec_message rec) (live_replies h1 key)) (h1\<lparr>reader := Reading\<rparr>))"

text \<open>The turn keeps the text it was spawned with. The code hands it to the responder, which is the caller's
  and may yield anything: what it yields are the events of the turn.\<close>

definition spawn :: "string \<Rightarrow> string \<Rightarrow> stored_message \<Rightarrow> handler \<Rightarrow> handler" where
  "spawn key txt m h =
     h\<lparr>turns := turns h @ [\<lparr>turn_id = next_turn h, turn_key = key, turn_text = txt, turn_reply = m,
                            turn_chunks = [], turn_index = 0, turn_phase = Spawned\<rparr>],
       next_turn := next_turn h + 1\<rparr>"

definition start_answered ::
    "string \<Rightarrow> string \<Rightarrow> recorded_user_message \<Rightarrow> answer \<Rightarrow> handler \<Rightarrow> handler" where
  "start_answered key txt rec a h =
     (case repo_call a (\<lambda>now mid. start_assistant_message now mid (sid_of h)) h of
        (None, h1) \<Rightarrow> say not_stored (h1\<lparr>reader := Reading\<rparr>)
      | (Some m, h1) \<Rightarrow>
          let h2 = h1\<lparr>reader := Reading, live_replies := (live_replies h1)(key \<mapsto> message_id m)\<rparr>;
              h3 = say (ack_frame key (rec_message rec) (Some (message_id m))) h2
          in spawn key txt m h3)"

definition reader_answered :: "settings \<Rightarrow> answer \<Rightarrow> handler \<Rightarrow> handler" where
  "reader_answered cfg a h =
     (case reader h of
        Opening \<Rightarrow>
          (case repo_call a (\<lambda>now _. ensure_session now (sid_of h)) h of
             (None, h1) \<Rightarrow> h1\<lparr>reader := NeverServed, closed_with := Some WS_INTERNAL_ERROR\<rparr>
           | (Some _, h1) \<Rightarrow> h1\<lparr>reader := Reading\<rparr>)
      | Replaying after \<Rightarrow> resume_answered cfg after a (h\<lparr>reader := Reading\<rparr>)
      | Recording key txt \<Rightarrow> record_answered key txt a h
      | Starting key txt rec \<Rightarrow> start_answered key txt rec a h
      | _ \<Rightarrow> h)"

subsection \<open>Running a turn\<close>

definition change_turn :: "nat \<Rightarrow> (turn \<Rightarrow> turn) \<Rightarrow> handler \<Rightarrow> handler" where
  "change_turn i f h = h\<lparr>turns := map (\<lambda>t. if turn_id t = i then f t else t) (turns h)\<rparr>"

definition turn_of :: "nat \<Rightarrow> handler \<Rightarrow> turn option" where
  "turn_of i h = find (\<lambda>t. turn_id t = i) (turns h)"

definition reply_hex :: "turn \<Rightarrow> string" where
  "reply_hex t = uuid_hex (message_id (turn_reply t))"

definition turn_begins :: "turn \<Rightarrow> handler \<Rightarrow> handler" where
  "turn_begins t h = change_turn (turn_id t) (\<lambda>t. t\<lparr>turn_phase := Streaming\<rparr>) h"

definition turn_yields :: "turn \<Rightarrow> string \<Rightarrow> handler \<Rightarrow> handler" where
  "turn_yields t chunk' h =
     change_turn (turn_id t)
       (\<lambda>t. t\<lparr>turn_chunks := turn_chunks t @ [chunk'], turn_index := turn_index t + 1\<rparr>)
       (say (Delta (reply_hex t) (turn_index t) chunk') h)"

definition turn_failed_frame :: server_frame where
  "turn_failed_frame = ErrorFrame INTERNAL ''the turn failed'' True"

definition turn_answered :: "turn \<Rightarrow> answer \<Rightarrow> handler \<Rightarrow> handler" where
  "turn_answered t a h =
     (let mid = message_id (turn_reply t); end_turn = change_turn (turn_id t) (\<lambda>t. t\<lparr>turn_phase := Ended\<rparr>) in
      case turn_phase t of
        Completing \<Rightarrow>
          (case repo_call a (\<lambda>now _. complete_assistant_message now mid (concat (turn_chunks t))) h of
             (None, h1) \<Rightarrow> change_turn (turn_id t) (\<lambda>t. t\<lparr>turn_phase := Breaking\<rparr>) h1
           | (Some _, h1) \<Rightarrow> end_turn (say (DoneFrame (reply_hex t) (seq (turn_reply t))) h1))
      | Breaking \<Rightarrow>
          end_turn (say turn_failed_frame (snd (repo_call a (\<lambda>now _. fail_assistant_message now mid) h)))
      | Stopping \<Rightarrow> end_turn (snd (repo_call a (\<lambda>now _. fail_assistant_message now mid) h))
      | _ \<Rightarrow> h)"

text \<open>
  A cancellation reaches the task at its await. A task that has not begun never enters the body of
  \<open>_run_turn\<close>; one that is marking a failure is not shielded; one that is already stopping suppresses
  it and ends, whether or not its write has landed.
\<close>

fun cancelled_phase :: "phase \<Rightarrow> phase" where
  "cancelled_phase Spawned = Ended"
| "cancelled_phase Streaming = Stopping"
| "cancelled_phase Completing = Stopping"
| "cancelled_phase Breaking = Ended"
| "cancelled_phase Stopping = Ended"
| "cancelled_phase Ended = Ended"

definition cancel_turns :: "handler \<Rightarrow> handler" where
  "cancel_turns h = h\<lparr>turns := map (\<lambda>t. t\<lparr>turn_phase := cancelled_phase (turn_phase t)\<rparr>) (turns h)\<rparr>"

definition reap_turn :: "turn \<Rightarrow> handler \<Rightarrow> handler" where
  "reap_turn t h =
     h\<lparr>turns := filter (\<lambda>u. turn_id u \<noteq> turn_id t) (turns h),
       live_replies := (live_replies h)(turn_key t := None)\<rparr>"

subsection \<open>Serving\<close>

definition stop_reading :: "bool \<Rightarrow> handler \<Rightarrow> handler" where
  "stop_reading raised h = (cancel_turns h)\<lparr>reader := Gathering raised\<rparr>"

definition serve_code :: "task_result list \<Rightarrow> int" where
  "serve_code done' =
     fold (\<lambda>t c. case t of Raised \<Rightarrow> WS_INTERNAL_ERROR | ReturnedCode c' \<Rightarrow> c' | Returned \<Rightarrow> c)
       done' WS_NORMAL"

definition reader_result :: "handler \<Rightarrow> task_result option" where
  "reader_result h =
     (case reader h of ReaderEnded raised \<Rightarrow> Some (if raised then Raised else Returned) | _ \<Rightarrow> None)"

definition finished_tasks :: "bool \<Rightarrow> handler \<Rightarrow> task_result list" where
  "finished_tasks reader_first h =
     (let w = (case writer_end h of None \<Rightarrow> [] | Some r \<Rightarrow> [r]);
          r = (case reader_result h of None \<Rightarrow> [] | Some r \<Rightarrow> [r])
      in if reader_first then r @ w else w @ r)"

definition serve_wakes :: "bool \<Rightarrow> handler \<Rightarrow> handler" where
  "serve_wakes reader_first h =
     (if closing h \<noteq> None \<or> finished_tasks reader_first h = [] then h
      else let h1 = h\<lparr>closing := Some (serve_code (finished_tasks reader_first h))\<rparr> in
        case reader h of ReaderEnded r \<Rightarrow> h1 | _ \<Rightarrow> stop_reading False h1)"

definition writer_turns :: "bool \<Rightarrow> handler \<Rightarrow> handler" where
  "writer_turns reaches h =
     (case writer_step (\<lambda>_. reaches) (h_conn h) of
        (Waits, c) \<Rightarrow> h
      | (Wrote f, c) \<Rightarrow> h\<lparr>h_conn := c, wire := wire h @ [f]\<rparr>
      | (Returns code', c) \<Rightarrow> h\<lparr>h_conn := c, writer_end := Some (ReturnedCode code')\<rparr>)"

text \<open>A write that raises something other than the peer having gone.\<close>

definition writer_breaks :: "handler \<Rightarrow> handler" where
  "writer_breaks h =
     (case writer_step (\<lambda>_. True) (h_conn h) of
        (Wrote f, c) \<Rightarrow> h\<lparr>h_conn := c, writer_end := Some Raised\<rparr>
      | _ \<Rightarrow> h)"

text \<open>The frame \<open>api/main.py\<close> hands to \<open>ConnectionRegistry.drain\<close> when the process shuts down.\<close>

definition going_away :: server_frame where
  "going_away = ErrorFrame GOING_AWAY ''server is shutting down'' True"

datatype event =
    Receives string
  | ReaderAnswered answer
  | PeerGone
  | ReaderBreaks
  | Gathered
  | WriterTurn bool
  | WriterBreaks
  | Drained
  | Begins nat
  | Yields nat string
  | Exhausts nat
  | Breaks nat
  | TurnAnswered nat answer
  | Reaps nat
  | Wakes bool
  | Closes

definition with_turn :: "nat \<Rightarrow> phase set \<Rightarrow> (turn \<Rightarrow> handler \<Rightarrow> handler) \<Rightarrow> handler \<Rightarrow> handler" where
  "with_turn i ps f h =
     (case turn_of i h of None \<Rightarrow> h | Some t \<Rightarrow> if turn_phase t \<in> ps then f t h else h)"

definition set_phase :: "phase \<Rightarrow> turn \<Rightarrow> handler \<Rightarrow> handler" where
  "set_phase p t h = change_turn (turn_id t) (\<lambda>t. t\<lparr>turn_phase := p\<rparr>) h"

fun handle :: "settings \<Rightarrow> (string \<Rightarrow> nat + client_frame) \<Rightarrow> event \<Rightarrow> handler \<Rightarrow> handler" where
  "handle cfg parse (Receives raw) h = (if reader h = Reading then dispatch cfg parse raw h else h)"
| "handle cfg parse (ReaderAnswered a) h = reader_answered cfg a h"
| "handle cfg parse PeerGone h = (if reader h = Reading then stop_reading False h else h)"
| "handle cfg parse ReaderBreaks h = (if reader h = Reading then stop_reading True h else h)"
| "handle cfg parse Gathered h =
     (case reader h of
        Gathering raised \<Rightarrow>
          if \<forall>t \<in> set (turns h). turn_phase t = Ended then h\<lparr>reader := ReaderEnded raised\<rparr> else h
      | _ \<Rightarrow> h)"
| "handle cfg parse (WriterTurn reaches) h =
     (if reader h \<in> {Opening, NeverServed} \<or> writer_end h \<noteq> None \<or> closing h \<noteq> None then h
      else writer_turns reaches h)"
| "handle cfg parse WriterBreaks h =
     (if reader h \<in> {Opening, NeverServed} \<or> writer_end h \<noteq> None \<or> closing h \<noteq> None then h
      else writer_breaks h)"
| "handle cfg parse Drained h =
     h\<lparr>h_conn := request_close WS_SERVICE_RESTART (Some going_away) (h_conn h)\<rparr>"
| "handle cfg parse (Begins i) h = with_turn i {Spawned} turn_begins h"
| "handle cfg parse (Yields i c) h = with_turn i {Streaming} (\<lambda>t. turn_yields t c) h"
| "handle cfg parse (Exhausts i) h = with_turn i {Streaming} (set_phase Completing) h"
| "handle cfg parse (Breaks i) h = with_turn i {Streaming} (set_phase Breaking) h"
| "handle cfg parse (TurnAnswered i a) h =
     with_turn i {Completing, Breaking, Stopping} (\<lambda>t. turn_answered t a) h"
| "handle cfg parse (Reaps i) h = with_turn i {Ended} reap_turn h"
| "handle cfg parse (Wakes reader_first) h = serve_wakes reader_first h"
| "handle cfg parse Closes h =
     (case (closing h, reader h) of
        (Some code', ReaderEnded r) \<Rightarrow> h\<lparr>closed_with := Some code'\<rparr>
      | _ \<Rightarrow> h)"

fun serve_run ::
    "settings \<Rightarrow> (string \<Rightarrow> nat + client_frame) \<Rightarrow> event list \<Rightarrow> handler \<Rightarrow> handler" where
  "serve_run cfg parse [] h = h"
| "serve_run cfg parse (e # evs) h = serve_run cfg parse evs (handle cfg parse e h)"

lemma serve_run_append: "serve_run cfg parse (xs @ ys) h = serve_run cfg parse ys (serve_run cfg parse xs h)"
  by (induction xs arbitrary: h) simp_all

lemma serve_run_induct:
  assumes "\<And>e h. Q h \<Longrightarrow> Q (handle cfg parse e h)" "Q h"
  shows "Q (serve_run cfg parse evs h)"
  using assms(2) by (induction evs arbitrary: h) (simp_all add: assms(1))

end
