(* ===== verification/Handler_Invariant.thy ===== *)
theory Handler_Invariant
  imports Chat_Handler
begin

text \<open>
  What a connection keeps while its events run, whatever other processes commit in between:
  \<open>control_ok\<close> (the cap, the identities of the turns, the map of live replies), \<open>rows_ok\<close> (each turn and
  each frame names a row that is stored) and \<open>streams_ok\<close> (the frames about one reply are its
  chunks in order and then, at most once, the end).
\<close>

subsection \<open>Rows that stay\<close>

definition stored :: "db \<Rightarrow> uuid \<Rightarrow> uuid \<Rightarrow> int \<Rightarrow> string option \<Rightarrow> bool" where
  "stored db sid mid n key \<longleftrightarrow>
     (\<exists>m \<in> set (chat_messages db). msg_session m = sid \<and> message_id m = mid \<and> seq m = n \<and> client_msg_id m = key)"

definition later :: "db \<Rightarrow> db \<Rightarrow> bool" where
  "later db db' \<longleftrightarrow> sys_ok db' \<and> (\<forall>sid mid n key. stored db sid mid n key \<longrightarrow> stored db' sid mid n key)"

lemma later_refl: "sys_ok db \<Longrightarrow> later db db"
  by (simp add: later_def)

lemma later_trans: "later a b \<Longrightarrow> later b c \<Longrightarrow> later a c"
  by (simp add: later_def)

lemma laterI:
  assumes "sys_ok db'" "\<And>m. m \<in> set (chat_messages db) \<Longrightarrow> \<exists>m' \<in> set (chat_messages db'). keeps_message m m'"
  shows "later db db'"
  unfolding later_def stored_def using assms by (fastforce simp: keeps_message_def)

lemma later_run: "sys_ok db \<Longrightarrow> later db (run ops db)"
  by (rule laterI) (auto intro: run_sys_ok run_messages)

lemma later_exec: "sys_ok db \<Longrightarrow> exec op db = Inr db' \<Longrightarrow> later db db'"
  by (rule laterI) (auto intro: exec_sys_ok exec_messages)

lemma later_call:
  assumes ok: "sys_ok db" and t: "\<And>db x db'. sys_ok db \<Longrightarrow> t db = Inr (x, db') \<Longrightarrow> later db db'"
  shows "later db (snd (call_txn k ops t db))"
  using later_run [OF ok, of ops] t [OF run_sys_ok [OF ok, of ops]]
  by (auto simp: call_txn_def Let_def split: link.splits sum.splits intro: later_trans)

lemma later_exec_commit: "sys_ok db \<Longrightarrow> exec op db = commit r \<Longrightarrow> r = Inr (x, db') \<Longrightarrow> later db db'"
  by (rule later_exec [of _ op]) auto

lemma later_txn:
  "sys_ok db \<Longrightarrow> ensure_session now s db = Inr (u, db') \<Longrightarrow> later db db'"
  "sys_ok db \<Longrightarrow> record_user_message now m s k tx db = Inr (rm, db') \<Longrightarrow> later db db'"
  "sys_ok db \<Longrightarrow> start_assistant_message now m s db = Inr (sm, db') \<Longrightarrow> later db db'"
  "sys_ok db \<Longrightarrow> complete_assistant_message now m tx db = Inr (u, db') \<Longrightarrow> later db db'"
  "sys_ok db \<Longrightarrow> fail_assistant_message now m db = Inr (u, db') \<Longrightarrow> later db db'"
  "sys_ok db \<Longrightarrow> Inr (g db, db) = Inr (x, db') \<Longrightarrow> later db db'"
  by (rule later_exec_commit [OF _ exec.simps(9)] later_exec_commit [OF _ exec.simps(10)]
      later_exec_commit [OF _ exec.simps(11)] later_exec_commit [OF _ exec.simps(12)]
      later_exec_commit [OF _ exec.simps(13)]; assumption)+
     (auto intro: later_refl)

text \<open>What a recorded message and an opened reply leave behind.\<close>

lemma record_Inr:
  assumes "record_user_message now mid sid key txt db = Inr (rec, db')"
  shows "stored db' sid (message_id (rec_message rec)) (seq (rec_message rec)) (Some key)"
    "rec_created rec \<Longrightarrow> \<not> stored db sid i n (Some key)"
proof -
  show "stored db' sid (message_id (rec_message rec)) (seq (rec_message rec)) (Some key)"
    using recorded_row [OF assms] by (force simp: stored_def)
  show "\<not> stored db sid i n (Some key)" if "rec_created rec"
    using assms that
    by (auto simp: record_user_message_def Let_def result_simps allocate_seq_Inr stored_def split: if_splits)
qed

lemma start_Inr:
  assumes "start_assistant_message now mid sid db = Inr (m, db')"
  shows "stored db' sid (message_id m) (seq m) None" "\<not> stored db s (message_id m) n key"
    "\<exists>r \<in> set (chat_messages db'). to_message r = m \<and> msg_status r = STREAMING \<and> msg_text r = []"
  using assms
  by (auto simp: start_assistant_message_def Let_def result_simps allocate_seq_Inr stored_def
      message_clash_def assistant_row_def log_append_message_def split: if_splits)

subsection \<open>What the peer has been, or may yet be, sent\<close>

definition queued :: "out_item list \<Rightarrow> server_frame list" where
  "queued xs = concat (map (\<lambda>x. case x of Frame f \<Rightarrow> [f] | CloseToken \<Rightarrow> []) xs)"

definition outbox :: "handler \<Rightarrow> server_frame list" where
  "outbox h = wire h @ (if writer_end h = None then queued (out (h_conn h)) else [])"

definition open_out :: "handler \<Rightarrow> bool" where
  "open_out h \<longleftrightarrow> writer_end h = None \<and> \<not> overflowed (h_conn h)"

lemma queued_simps [simp]:
  "queued [] = []" "queued (Frame f # xs) = f # queued xs" "queued (CloseToken # xs) = queued xs"
  "queued (xs @ ys) = queued xs @ queued ys"
  by (simp_all add: queued_def)

lemma say_sel [simp]:
  "wire (say f h) = wire h" "reader (say f h) = reader h" "writer_end (say f h) = writer_end h"
  "turns (say f h) = turns h" "next_turn (say f h) = next_turn h" "live_replies (say f h) = live_replies h"
  "closing (say f h) = closing h" "closed_with (say f h) = closed_with h" "h_db (say f h) = h_db h"
  "sid_of (say f h) = sid_of h"
  by (simp_all add: say_def)

text \<open>A frame is either the next one in the outbox or lost, and after a loss nothing is added.\<close>

lemma say_cases:
  obtains (queued) "open_out h" "open_out (say f h)" "outbox (say f h) = outbox h @ [f]"
  | (lost) "\<not> open_out (say f h)" "outbox (say f h) = outbox h"
proof (cases "open_out h \<and> \<not> full (h_conn h)")
  case True
  then show ?thesis
    by (intro queued) (auto simp: say_def outbox_def open_out_def send_def enqueue_item_def)
next
  case False
  then show ?thesis
    by (intro lost) (auto simp: say_def outbox_def open_out_def send_def enqueue_item_def)
qed

subsection \<open>The frames about one reply\<close>

fun about :: "string \<Rightarrow> server_frame \<Rightarrow> bool" where
  "about mid (Delta m i c) = (m = mid)"
| "about mid (DoneFrame m n) = (m = mid)"
| "about mid _ = False"

definition stream :: "string \<Rightarrow> server_frame list \<Rightarrow> server_frame list" where
  "stream mid fs = filter (about mid) fs"

fun stream_ok :: "nat \<Rightarrow> server_frame list \<Rightarrow> bool" where
  "stream_ok i [] = True"
| "stream_ok i (Delta m j c # fs) = (j = i \<and> stream_ok (i + 1) fs)"
| "stream_ok i (DoneFrame m n # fs) = (fs = [])"
| "stream_ok i (_ # fs) = False"

definition deltas :: "string \<Rightarrow> string list \<Rightarrow> server_frame list" where
  "deltas mid cs = map (\<lambda>(i, c). Delta mid i c) (enumerate 0 cs)"

lemma deltas_snoc: "deltas mid (cs @ [c]) = deltas mid cs @ [Delta mid (length cs) c]"
  by (simp add: deltas_def enumerate_append_eq)

lemma deltas_Nil [simp]: "deltas mid [] = []"
  by (simp add: deltas_def)

lemma stream_append [simp]: "stream mid (xs @ ys) = stream mid xs @ stream mid ys"
  by (simp add: stream_def)

lemma stream_simps [simp]:
  "stream mid [] = []" "stream mid (f # fs) = (if about mid f then f # stream mid fs else stream mid fs)"
  by (simp_all add: stream_def)

lemma stream_ok_enumerate:
  "stream_ok i (map (\<lambda>(i, c). Delta mid i c) (enumerate i cs) @ fs) = stream_ok (i + length cs) fs"
  by (induction cs arbitrary: i) simp_all

lemma stream_ok_deltas: "stream_ok 0 (deltas mid cs @ fs) = stream_ok (length cs) fs"
  using stream_ok_enumerate [of 0 mid cs fs] by (simp add: deltas_def)

lemma stream_ok_prefix: "stream_ok i (xs @ ys) \<Longrightarrow> stream_ok i xs"
  by (induction i xs rule: stream_ok.induct) auto

text \<open>
  \<open>follows t fs whole\<close>: the frames about the reply of \<open>t\<close> are the first of its chunks, all of them when
  nothing has been lost.
\<close>

definition follows :: "turn \<Rightarrow> server_frame list \<Rightarrow> bool \<Rightarrow> bool" where
  "follows t fs whole \<longleftrightarrow>
     (\<exists>n. stream (reply_hex t) fs = deltas (reply_hex t) (take n (turn_chunks t)) \<and>
        (whole \<longrightarrow> length (turn_chunks t) \<le> n))"

subsection \<open>The invariant\<close>

fun pending :: "reader \<Rightarrow> bool" where
  "pending (Recording key txt) = True"
| "pending (Starting key txt rec) = True"
| "pending _ = False"

definition control_ok :: "settings \<Rightarrow> handler \<Rightarrow> bool" where
  "control_ok cfg h \<longleftrightarrow>
     int (length (turns h)) \<le> ws_max_concurrent_turns cfg \<and>
     (pending (reader h) \<longrightarrow> int (length (turns h)) < ws_max_concurrent_turns cfg) \<and>
     distinct (map turn_id (turns h)) \<and> (\<forall>t \<in> set (turns h). turn_id t < next_turn h) \<and>
     distinct (map turn_key (turns h)) \<and> distinct (map reply_hex (turns h)) \<and>
     live_replies h = map_of (map (\<lambda>t. (turn_key t, message_id (turn_reply t))) (turns h)) \<and>
     (\<forall>t \<in> set (turns h). turn_index t = length (turn_chunks t))"

fun frame_stored :: "db \<Rightarrow> uuid \<Rightarrow> server_frame \<Rightarrow> bool" where
  "frame_stored db sid (AckFrame key n mid reply) \<longleftrightarrow>
     (\<exists>i. mid = uuid_hex i \<and> stored db sid i n (Some key)) \<and>
     (\<forall>r. reply = Some r \<longrightarrow> (\<exists>i k. r = uuid_hex i \<and> stored db sid i k None))"
| "frame_stored db sid (Delta mid j c) \<longleftrightarrow> (\<exists>i k. mid = uuid_hex i \<and> stored db sid i k None)"
| "frame_stored db sid (DoneFrame mid n) \<longleftrightarrow> (\<exists>i. mid = uuid_hex i \<and> stored db sid i n None)"
| "frame_stored db sid _ \<longleftrightarrow> True"

definition turn_stored :: "db \<Rightarrow> uuid \<Rightarrow> turn \<Rightarrow> bool" where
  "turn_stored db sid t \<longleftrightarrow>
     stored db sid (message_id (turn_reply t)) (seq (turn_reply t)) None \<and>
     (\<exists>i n. stored db sid i n (Some (turn_key t)))"

fun reader_stored :: "db \<Rightarrow> uuid \<Rightarrow> turn list \<Rightarrow> reader \<Rightarrow> bool" where
  "reader_stored db sid ts (Starting key txt rec) \<longleftrightarrow>
     stored db sid (message_id (rec_message rec)) (seq (rec_message rec)) (Some key) \<and>
     key \<notin> turn_key ` set ts"
| "reader_stored db sid ts _ \<longleftrightarrow> True"

definition rows_ok :: "handler \<Rightarrow> bool" where
  "rows_ok h \<longleftrightarrow> sys_ok (h_db h) \<and>
     (\<forall>t \<in> set (turns h). turn_stored (h_db h) (sid_of h) t) \<and>
     reader_stored (h_db h) (sid_of h) (turns h) (reader h) \<and>
     (\<forall>f \<in> set (outbox h). frame_stored (h_db h) (sid_of h) f)"

definition streams_ok :: "handler \<Rightarrow> bool" where
  "streams_ok h \<longleftrightarrow>
     (\<forall>mid. stream_ok 0 (stream mid (outbox h))) \<and>
     (\<forall>t \<in> set (turns h). turn_phase t \<noteq> Ended \<longrightarrow> follows t (outbox h) (open_out h))"

definition handler_ok :: "settings \<Rightarrow> handler \<Rightarrow> bool" where
  "handler_ok cfg h \<longleftrightarrow> control_ok cfg h \<and> rows_ok h \<and> streams_ok h"

lemma handler_ok_new:
  "0 \<le> ws_max_concurrent_turns cfg \<Longrightarrow> sys_ok db \<Longrightarrow> handler_ok cfg (new_handler cfg sid db)"
  by (simp add: handler_ok_def control_ok_def rows_ok_def streams_ok_def new_handler_def outbox_def
      new_connection_def)


subsection \<open>What keeps it\<close>

named_theorems keeps_ok

lemma handler_okD:
  assumes "handler_ok cfg h"
  shows "control_ok cfg h" "rows_ok h" "streams_ok h"
  using assms by (simp_all add: handler_ok_def)

definition quiet :: "server_frame \<Rightarrow> bool" where
  "quiet f \<longleftrightarrow> (\<forall>mid. \<not> about mid f)"

lemma quiet_simps [simp]:
  "quiet (ErrorFrame c m r)" "quiet Pong" "quiet (replayed e)" "quiet (AckFrame k n m reply)"
  by (simp add: quiet_def | cases e)+

lemma frame_stored_replayed [simp]: "frame_stored db sid (replayed e)"
  by (cases e) simp_all

lemma stream_quiet [simp]: "quiet f \<Longrightarrow> stream mid [f] = []"
  by (simp add: quiet_def)

lemma frame_stored_later: "later db db' \<Longrightarrow> frame_stored db sid f \<Longrightarrow> frame_stored db' sid f"
  by (cases f) (auto simp: later_def, blast+)

lemma turn_stored_later: "later db db' \<Longrightarrow> turn_stored db sid t \<Longrightarrow> turn_stored db' sid t"
  by (auto simp: later_def turn_stored_def) blast

lemma reader_stored_later: "later db db' \<Longrightarrow> reader_stored db sid ts r \<Longrightarrow> reader_stored db' sid ts r"
  by (cases r) (auto simp: later_def)

lemma follows_quiet: "quiet f \<Longrightarrow> follows t (fs @ [f]) w = follows t fs w"
  by (simp add: follows_def quiet_def)

lemma follows_weaken: "follows t fs w \<Longrightarrow> (w' \<Longrightarrow> w) \<Longrightarrow> follows t fs w'"
  by (auto simp: follows_def)

text \<open>A frame about no reply, and true of the database, may be sent at any time.\<close>

lemma ok_say:
  assumes ok: "handler_ok cfg h" and f: "quiet f" "frame_stored (h_db h) (sid_of h) f"
  shows "handler_ok cfg (say f h)"
proof -
  have c: "control_ok cfg (say f h)" using handler_okD(1) [OF ok] by (simp add: control_ok_def)
  show ?thesis
  proof (cases rule: say_cases [of h f])
    case queued
    have "rows_ok (say f h)" using handler_okD(2) [OF ok] f(2) by (auto simp: rows_ok_def queued)
    moreover have "streams_ok (say f h)"
      using handler_okD(3) [OF ok] f(1) queued
      by (simp add: streams_ok_def follows_quiet) (simp add: quiet_def)
    ultimately show ?thesis using c by (simp add: handler_ok_def)
  next
    case lost
    have "rows_ok (say f h)" using handler_okD(2) [OF ok] by (simp add: rows_ok_def lost)
    moreover have "streams_ok (say f h)"
      using handler_okD(3) [OF ok] lost by (auto simp: streams_ok_def elim: follows_weaken)
    ultimately show ?thesis using c by (simp add: handler_ok_def)
  qed
qed

lemma ok_say_error [keeps_ok]: "handler_ok cfg h \<Longrightarrow> handler_ok cfg (say (ErrorFrame c m r) h)"
  by (rule ok_say) simp_all

lemma ok_say_replayed: "handler_ok cfg h \<Longrightarrow> handler_ok cfg (fold (\<lambda>e. say (replayed e)) es h)"
  by (induction es arbitrary: h) (simp_all add: ok_say)

lemma outbox_frame [simp]:
  "outbox (h\<lparr>h_db := db\<rparr>) = outbox h" "outbox (h\<lparr>reader := r\<rparr>) = outbox h"
  "outbox (h\<lparr>turns := ts\<rparr>) = outbox h" "outbox (h\<lparr>live_replies := l\<rparr>) = outbox h"
  "outbox (h\<lparr>next_turn := n\<rparr>) = outbox h" "outbox (h\<lparr>closing := c\<rparr>) = outbox h"
  "outbox (h\<lparr>closed_with := c\<rparr>) = outbox h"
  "open_out (h\<lparr>h_db := db\<rparr>) = open_out h" "open_out (h\<lparr>reader := r\<rparr>) = open_out h"
  "open_out (h\<lparr>turns := ts\<rparr>) = open_out h" "open_out (h\<lparr>live_replies := l\<rparr>) = open_out h"
  "open_out (h\<lparr>next_turn := n\<rparr>) = open_out h" "open_out (h\<lparr>closing := c\<rparr>) = open_out h"
  "open_out (h\<lparr>closed_with := c\<rparr>) = open_out h"
  by (simp_all add: outbox_def open_out_def)

lemma ok_db: "handler_ok cfg h \<Longrightarrow> later (h_db h) db \<Longrightarrow> handler_ok cfg (h\<lparr>h_db := db\<rparr>)"
proof -
  assume ok: "handler_ok cfg h" and l: "later (h_db h) db"
  have "rows_ok (h\<lparr>h_db := db\<rparr>)"
    using handler_okD(2) [OF ok] l
    by (auto simp: rows_ok_def intro: turn_stored_later reader_stored_later frame_stored_later)
       (simp add: later_def)
  moreover have "control_ok cfg (h\<lparr>h_db := db\<rparr>)" "streams_ok (h\<lparr>h_db := db\<rparr>)"
    using handler_okD(1,3) [OF ok] by (simp_all add: control_ok_def streams_ok_def)
  ultimately show ?thesis by (simp add: handler_ok_def)
qed

lemma ok_reader: "handler_ok cfg h \<Longrightarrow> \<not> pending r \<Longrightarrow> handler_ok cfg (h\<lparr>reader := r\<rparr>)"
proof -
  assume ok: "handler_ok cfg h" and r: "\<not> pending r"
  then have "reader_stored (h_db h) (sid_of h) (turns h) r" by (cases r) simp_all
  with r show ?thesis
    using ok by (simp add: handler_ok_def control_ok_def rows_ok_def streams_ok_def)
qed

lemma ok_frame [keeps_ok]:
  "handler_ok cfg h \<Longrightarrow> handler_ok cfg (h\<lparr>closing := c\<rparr>)"
  "handler_ok cfg h \<Longrightarrow> handler_ok cfg (h\<lparr>closed_with := c\<rparr>)"
  by (simp_all add: handler_ok_def control_ok_def rows_ok_def streams_ok_def)

text \<open>The answer of a call is some later database, whatever the outcome.\<close>

lemma repo_call_later:
  assumes ok: "handler_ok cfg h"
    and t: "\<And>now mid db x db'. sys_ok db \<Longrightarrow> t now mid db = Inr (x, db') \<Longrightarrow> later db db'"
  shows "\<exists>db. repo_call a t h = (fst (repo_call a t h), h\<lparr>h_db := db\<rparr>) \<and> later (h_db h) db"
proof -
  let ?c = "call_txn (over a) (before a) (t (at_time a) (minted_id a)) (h_db h)"
  have "later (h_db h) (snd ?c)"
    by (rule later_call) (use handler_okD(2) [OF ok] t in \<open>auto simp: rows_ok_def\<close>)
  then show ?thesis
    by (intro exI [of _ "snd ?c"]) (auto simp: repo_call_def split: prod.splits sum.splits)
qed

lemma ok_repo_call:
  assumes "handler_ok cfg h"
    and "\<And>now mid db x db'. sys_ok db \<Longrightarrow> t now mid db = Inr (x, db') \<Longrightarrow> later db db'"
  shows "handler_ok cfg (snd (repo_call a t h))"
  using repo_call_later [of cfg h t a] assms ok_db [OF assms(1)] by (metis snd_conv)

lemma repo_call_sel [simp]:
  "turns (snd (repo_call a t h)) = turns h" "reader (snd (repo_call a t h)) = reader h"
  "live_replies (snd (repo_call a t h)) = live_replies h" "h_conn (snd (repo_call a t h)) = h_conn h"
  "outbox (snd (repo_call a t h)) = outbox h" "open_out (snd (repo_call a t h)) = open_out h"
  "next_turn (snd (repo_call a t h)) = next_turn h"
  by (simp_all add: repo_call_def split: prod.splits sum.splits)

lemma repo_call_Some:
  assumes "repo_call a t h = (Some x, h1)"
  shows "\<exists>db. t (at_time a) (minted_id a) (run (before a) (h_db h)) = Inr (x, db) \<and>
    h1 = h\<lparr>h_db := db\<rparr> \<and> over a = Works"
  using assms by (auto simp: repo_call_def call_txn_def Let_def split: link.splits sum.splits prod.splits)

lemma repo_call_works:
  "over a = Works \<Longrightarrow> t (at_time a) (minted_id a) (run (before a) (h_db h)) = Inr (x, db) \<Longrightarrow>
   repo_call a t h = (Some x, h\<lparr>h_db := db\<rparr>)"
  by (simp add: repo_call_def call_txn_works)

lemma repo_call_fails:
  "over a \<noteq> Works \<Longrightarrow> fst (repo_call a t h) = None"
  by (auto simp: repo_call_def call_txn_def Let_def split: link.splits sum.splits prod.splits)

end
