(* ===== verification/Handler_Steps.thy ===== *)
theory Handler_Steps
  imports Handler_Invariant
begin

text \<open>Every event keeps the invariant of a connection.\<close>

subsection \<open>The reader\<close>

lemma ok_recording:
  assumes "handler_ok cfg h" "int (length (turns h)) < ws_max_concurrent_turns cfg"
  shows "handler_ok cfg (h\<lparr>reader := Recording key txt\<rparr>)"
  using assms by (simp add: handler_ok_def control_ok_def rows_ok_def streams_ok_def)

lemma ok_dispatch: "handler_ok cfg h \<Longrightarrow> handler_ok cfg (dispatch cfg parse raw h)"
  by (auto simp: dispatch_def intro: keeps_ok ok_say ok_reader ok_recording
      split: sum.splits client_frame.splits)

lemma ok_resume: "handler_ok cfg h \<Longrightarrow> handler_ok cfg (resume_answered cfg after a h)"
proof -
  assume ok: "handler_ok cfg h"
  let ?call = "repo_call a (\<lambda>_ _ db. Inr (log_since (sid_of h) after (ws_resume_max_messages cfg + 1) db, db)) h"
  obtain r h1 where c: "?call = (r, h1)" by fastforce
  have "handler_ok cfg (snd ?call)" by (rule ok_repo_call [OF ok]) (erule later_txn(6))
  with c have "handler_ok cfg h1" by simp
  then show ?thesis
    using c by (auto simp: resume_answered_def Let_def too_old_def intro: keeps_ok ok_say_replayed
        split: option.splits)
qed

lemma live_reply_stored:
  assumes "handler_ok cfg h" "live_replies h key = Some i"
  shows "\<exists>k. stored (h_db h) (sid_of h) i k None"
proof -
  have "map_of (map (\<lambda>t. (turn_key t, message_id (turn_reply t))) (turns h)) key = Some i"
    using handler_okD(1) [OF assms(1)] assms(2) by (simp add: control_ok_def)
  from map_of_SomeD [OF this] obtain t where "t \<in> set (turns h)" "i = message_id (turn_reply t)"
    by auto
  with handler_okD(2) [OF assms(1)] show ?thesis by (auto simp: rows_ok_def turn_stored_def)
qed

lemma ok_record:
  assumes ok: "handler_ok cfg h" and r: "reader h = Recording key txt"
  shows "handler_ok cfg (record_answered key txt a h)"
proof -
  let ?t = "\<lambda>now mid. record_user_message now mid (sid_of h) key txt"
  obtain res h1 where c: "repo_call a ?t h = (res, h1)" by fastforce
  have "handler_ok cfg (snd (repo_call a ?t h))" by (rule ok_repo_call [OF ok]) (erule (1) later_txn(2))
  with c have ok1: "handler_ok cfg h1" by simp
  show ?thesis
  proof (cases res)
    case None
    then show ?thesis
      using c by (simp add: record_answered_def not_stored_def ok_say ok_reader [OF ok1])
  next
    case (Some rec)
    let ?db = "run (before a) (h_db h)"
    obtain db where t: "?t (at_time a) (minted_id a) ?db = Inr (rec, db)" and h1: "h1 = h\<lparr>h_db := db\<rparr>"
      using repo_call_Some [OF c [unfolded Some]] by blast
    have st: "stored db (sid_of h) (message_id (rec_message rec)) (seq (rec_message rec)) (Some key)"
      by (rule record_Inr(1) [OF t])
    show ?thesis
    proof (cases "rec_created rec")
      case True
      have "later (h_db h) ?db"
        by (rule later_run) (use handler_okD(2) [OF ok] in \<open>simp add: rows_ok_def\<close>)
      then have "key \<noteq> turn_key t" if "t \<in> set (turns h)" for t
        using handler_okD(2) [OF ok] that record_Inr(2) [OF t True]
        by (fastforce simp: rows_ok_def turn_stored_def later_def)
      then have "key \<notin> turn_key ` set (turns h)" by blast
      with st have "handler_ok cfg (h1\<lparr>reader := Starting key txt rec\<rparr>)"
        using ok1 r by (simp add: handler_ok_def control_ok_def rows_ok_def streams_ok_def h1)
      with True c Some show ?thesis by (simp add: record_answered_def)
    next
      case False
      have "frame_stored (h_db h1) (sid_of h1) (ack_frame key (rec_message rec) (live_replies h1 key))"
        using st live_reply_stored [OF ok1, of key] by (auto simp: ack_frame_def h1)
      with False c Some show ?thesis
        by (simp add: record_answered_def) (rule ok_say [OF ok_reader [OF ok1]], simp_all add: ack_frame_def)
    qed
  qed
qed

lemma reply_hex_inj: "reply_hex t = reply_hex u \<longleftrightarrow> message_id (turn_reply t) = message_id (turn_reply u)"
  by (simp add: reply_hex_def uuid_hex_inj)

text \<open>A reply that has just been opened is one no frame and no turn is about.\<close>

lemma unstored_stream:
  assumes "\<forall>f \<in> set fs. frame_stored db sid f" "\<And>n. \<not> stored db sid i n None"
  shows "stream (uuid_hex i) fs = []"
proof -
  have "\<not> about (uuid_hex i) f" if "f \<in> set fs" for f
    using assms that by (cases f) (fastforce simp: uuid_hex_inj)+
  then show ?thesis by (simp add: stream_def filter_empty_conv)
qed

lemma ok_spawn:
  assumes ok: "handler_ok cfg h" and r: "reader h = Starting key txt rec"
    and st: "stored db (sid_of h) (message_id m) (seq m) None" and l: "later (h_db h) db"
    and fresh: "\<And>n. \<not> stored (h_db h) (sid_of h) (message_id m) n None"
  shows "handler_ok cfg (spawn key txt m
           (say (ack_frame key (rec_message rec) (Some (message_id m)))
             (h\<lparr>h_db := db, reader := Reading, live_replies := (live_replies h)(key \<mapsto> message_id m)\<rparr>)))"
    (is "handler_ok cfg (spawn key txt m (say ?f ?h))")
proof -
  have c: "control_ok cfg h" and ro: "rows_ok h" and s: "streams_ok h" by (rule handler_okD [OF ok])+
  let ?hr = "h\<lparr>h_db := db, reader := Reading\<rparr>"
  have ok0: "handler_ok cfg ?hr"
    using ok_reader [OF ok_db [OF ok l], of Reading] by simp
  have key: "key \<notin> turn_key ` set (turns h)" and kst: "stored db (sid_of h) (message_id (rec_message rec)) (seq (rec_message rec)) (Some key)"
    using ro r l by (auto simp: rows_ok_def later_def)
  have other: "message_id (turn_reply t) \<noteq> message_id m" if "t \<in> set (turns h)" for t
    using ro that fresh by (auto simp: rows_ok_def turn_stored_def)
  have none: "map_of (map (\<lambda>t. (turn_key t, message_id (turn_reply t))) (turns h)) key = None"
    using key by (auto simp: map_of_eq_None_iff)
  let ?t = "\<lparr>turn_id = next_turn h, turn_key = key, turn_text = txt, turn_reply = m, turn_chunks = [],
             turn_index = 0, turn_phase = Spawned\<rparr>"
  have hex: "reply_hex ?t \<notin> reply_hex ` set (turns h)"
    using other by (fastforce simp: reply_hex_def uuid_hex_inj)
  have "handler_ok cfg (say ?f ?hr)"
    by (rule ok_say [OF ok0]) (use st kst in \<open>auto simp: ack_frame_def\<close>)
  then have ok1: "control_ok cfg (say ?f ?hr)" "rows_ok (say ?f ?hr)" "streams_ok (say ?f ?hr)"
    by (rule handler_okD)+
  have conn: "h_conn (spawn key txt m (say ?f ?h)) = h_conn (say ?f ?hr)"
    "outbox (spawn key txt m (say ?f ?h)) = outbox (say ?f ?hr)"
    "open_out (spawn key txt m (say ?f ?h)) = open_out (say ?f ?hr)"
    by (simp_all add: spawn_def say_def outbox_def open_out_def)
  have live: "(live_replies h)(key \<mapsto> message_id m) =
      map_of (map (\<lambda>t. (turn_key t, message_id (turn_reply t))) (turns h @ [?t]))"
    using c none by (auto simp: control_ok_def map_add_def fun_eq_iff split: option.split)
  have hexes: "distinct (map reply_hex (turns h @ [?t]))"
    using c hex by (simp add: control_ok_def)
  have ts: "turns (spawn key txt m (say ?f ?h)) = turns h @ [?t]"
    "live_replies (spawn key txt m (say ?f ?h)) = (live_replies h)(key \<mapsto> message_id m)"
    "next_turn (spawn key txt m (say ?f ?h)) = next_turn h + 1"
    "reader (spawn key txt m (say ?f ?h)) = Reading"
    by (simp_all add: spawn_def say_def)
  have "control_ok cfg (spawn key txt m (say ?f ?h))"
    unfolding control_ok_def ts using live hexes c r key by (auto simp: control_ok_def)
  moreover have "rows_ok (spawn key txt m (say ?f ?h))"
    using ok1(2) kst st unfolding rows_ok_def conn by (auto simp: spawn_def turn_stored_def)
  moreover have "streams_ok (spawn key txt m (say ?f ?h))"
  proof -
    have none: "stream (uuid_hex (message_id m)) (outbox h) = []"
      by (rule unstored_stream [of _ "h_db h" "sid_of h"]) (use ro fresh in \<open>simp_all add: rows_ok_def\<close>)
    have q: "quiet ?f" by (simp add: ack_frame_def)
    have "stream (uuid_hex (message_id m)) (outbox (say ?f ?hr)) = []"
      by (cases rule: say_cases [of ?hr ?f]) (use none q in \<open>simp_all add: quiet_def\<close>)
    then have "follows ?t (outbox (say ?f ?hr)) (open_out (say ?f ?hr))"
      by (simp add: follows_def reply_hex_def)
    with ok1(3) show ?thesis unfolding streams_ok_def conn by (auto simp: spawn_def)
  qed
  ultimately show ?thesis by (simp add: handler_ok_def)
qed

lemma ok_start:
  assumes ok: "handler_ok cfg h" and r: "reader h = Starting key txt rec"
  shows "handler_ok cfg (start_answered key txt rec a h)"
proof -
  let ?t = "\<lambda>now mid. start_assistant_message now mid (sid_of h)"
  obtain res h1 where c: "repo_call a ?t h = (res, h1)" by fastforce
  have "handler_ok cfg (snd (repo_call a ?t h))" by (rule ok_repo_call [OF ok]) (erule (1) later_txn(3))
  with c have ok1: "handler_ok cfg h1" by simp
  show ?thesis
  proof (cases res)
    case None
    then show ?thesis
      using c by (simp add: start_answered_def not_stored_def ok_say ok_reader [OF ok1])
  next
    case (Some m)
    let ?db = "run (before a) (h_db h)"
    obtain db where t: "?t (at_time a) (minted_id a) ?db = Inr (m, db)" and h1: "h1 = h\<lparr>h_db := db\<rparr>"
      using repo_call_Some [OF c [unfolded Some]] by blast
    have sok: "sys_ok (h_db h)" using handler_okD(2) [OF ok] by (simp add: rows_ok_def)
    have l1: "later (h_db h) ?db" by (rule later_run [OF sok])
    then have l: "later (h_db h) db"
      using later_trans later_txn(3) [OF _ t] by (auto simp: later_def)
    have fresh: "\<not> stored (h_db h) (sid_of h) (message_id m) n None" for n
      using start_Inr(2) [OF t] l1 unfolding later_def by blast
    show ?thesis
      using ok_spawn [OF ok r start_Inr(1) [OF t] l fresh] c Some
      by (simp add: start_answered_def h1 Let_def)
  qed
qed

lemma ok_reader_answered: "handler_ok cfg h \<Longrightarrow> handler_ok cfg (reader_answered cfg a h)"
proof -
  assume ok: "handler_ok cfg h"
  show ?thesis
  proof (cases "reader h")
    case Opening
    let ?call = "repo_call a (\<lambda>now _. ensure_session now (sid_of h)) h"
    obtain r h1 where c: "?call = (r, h1)" by fastforce
    have "handler_ok cfg (snd ?call)" by (rule ok_repo_call [OF ok]) (erule (1) later_txn(1))
    with c have "handler_ok cfg h1" by simp
    then have "handler_ok cfg (h1\<lparr>reader := Reading\<rparr>)" "handler_ok cfg (h1\<lparr>reader := NeverServed\<rparr>)"
      by (simp_all add: ok_reader)
    with Opening c show ?thesis
      using ok_frame(2) [of cfg "h1\<lparr>reader := NeverServed\<rparr>"]
      by (cases r) (simp_all add: reader_answered_def)
  next
    case (Replaying after)
    then show ?thesis using ok_resume [OF ok_reader [OF ok, of Reading]] by (simp add: reader_answered_def)
  next
    case (Recording key body)
    then show ?thesis using ok_record [OF ok] by (simp add: reader_answered_def)
  next
    case (Starting key body rec)
    then show ?thesis using ok_start [OF ok] by (simp add: reader_answered_def)
  qed (use ok in \<open>simp_all add: reader_answered_def\<close>)
qed


subsection \<open>The turns\<close>

lemma turn_ofD: "turn_of i h = Some t \<Longrightarrow> t \<in> set (turns h) \<and> turn_id t = i"
  by (auto simp: turn_of_def dest: find_SomeD)

lemma change_turn_sel [simp]:
  "h_conn (change_turn i f h) = h_conn h" "reader (change_turn i f h) = reader h"
  "live_replies (change_turn i f h) = live_replies h" "h_db (change_turn i f h) = h_db h"
  "next_turn (change_turn i f h) = next_turn h" "outbox (change_turn i f h) = outbox h"
  "open_out (change_turn i f h) = open_out h"
  by (simp_all add: change_turn_def)

text \<open>A change that keeps who the turn is.\<close>

definition same_turn :: "(turn \<Rightarrow> turn) \<Rightarrow> bool" where
  "same_turn f \<longleftrightarrow> (\<forall>u. turn_id (f u) = turn_id u \<and> turn_key (f u) = turn_key u \<and>
     turn_reply (f u) = turn_reply u \<and>
     (turn_index u = length (turn_chunks u) \<longrightarrow> turn_index (f u) = length (turn_chunks (f u))))"

lemma same_turn_map:
  assumes "same_turn f"
  shows "map turn_id (turns (change_turn i f h)) = map turn_id (turns h)"
    "map turn_key (turns (change_turn i f h)) = map turn_key (turns h)"
    "map reply_hex (turns (change_turn i f h)) = map reply_hex (turns h)"
    "map (\<lambda>t. (turn_key t, message_id (turn_reply t))) (turns (change_turn i f h)) =
     map (\<lambda>t. (turn_key t, message_id (turn_reply t))) (turns h)"
    "length (turns (change_turn i f h)) = length (turns h)"
  using assms by (simp_all add: change_turn_def same_turn_def reply_hex_def)

lemma change_turn_set:
  assumes "u \<in> set (turns (change_turn i f h))"
  obtains v where "v \<in> set (turns h)" "u = (if turn_id v = i then f v else v)"
  using assms by (auto simp: change_turn_def)

lemma control_change:
  assumes "control_ok cfg h" "same_turn f"
  shows "control_ok cfg (change_turn i f h)"
proof -
  have ids: "\<forall>u \<in> set (turns (change_turn i f h)). turn_id u < next_turn h"
    and ix: "\<forall>u \<in> set (turns (change_turn i f h)). turn_index u = length (turn_chunks u)"
    using assms by (auto simp: control_ok_def same_turn_def elim!: change_turn_set)
  show ?thesis
    unfolding control_ok_def same_turn_map [OF assms(2)] change_turn_sel
    using assms(1) ids ix by (auto simp: control_ok_def)
qed

lemma rows_change:
  assumes "rows_ok h" "same_turn f"
  shows "rows_ok (change_turn i f h)"
proof -
  have "turn_stored (h_db h) (sid_of h) u" if "u \<in> set (turns (change_turn i f h))" for u
    using that assms by (auto simp: rows_ok_def turn_stored_def same_turn_def elim!: change_turn_set)
  moreover have "turn_key ` set (turns (change_turn i f h)) = turn_key ` set (turns h)"
    using same_turn_map(2) [OF assms(2), of i h] by (metis list.set_map)
  then have "reader_stored (h_db h) (sid_of h) (turns (change_turn i f h)) (reader h)"
    using assms(1) by (cases "reader h") (simp_all add: rows_ok_def)
  ultimately show ?thesis using assms(1) by (simp add: rows_ok_def)
qed

text \<open>
  Sending a frame about a reply together with the change of its turn: every other stream is
  untouched, so the stream of this one decides.
\<close>

lemma ok_turn_frame:
  assumes ok: "handler_ok cfg h" and t: "t \<in> set (turns h)" and f: "same_turn f"
    and about: "\<And>mid. about mid fr = (reply_hex t = mid)"
    and st: "frame_stored (h_db h) (sid_of h) fr"
    and good: "stream_ok 0 (stream (reply_hex t) (outbox h)) \<Longrightarrow> open_out h \<Longrightarrow>
        stream_ok 0 (stream (reply_hex t) (outbox h) @ [fr])"
    and queued: "turn_phase (f t) \<noteq> Ended \<Longrightarrow> open_out h \<Longrightarrow> follows (f t) (outbox h @ [fr]) True"
    and lost: "turn_phase (f t) \<noteq> Ended \<Longrightarrow> follows (f t) (outbox h) False"
  shows "handler_ok cfg (change_turn (turn_id t) f (say fr h))"
proof -
  have c: "control_ok cfg h" and ro: "rows_ok h" and s: "streams_ok h" by (rule handler_okD [OF ok])+
  let ?h = "change_turn (turn_id t) f (say fr h)"
  have "control_ok cfg (say fr h)" using c by (simp add: control_ok_def)
  then have 1: "control_ok cfg ?h" by (rule control_change [OF _ f])
  have "\<forall>g \<in> set (outbox (say fr h)). frame_stored (h_db h) (sid_of h) g"
    by (cases rule: say_cases [of h fr]) (use ro st in \<open>auto simp: rows_ok_def\<close>)
  then have "rows_ok (say fr h)" using ro by (simp add: rows_ok_def)
  then have 2: "rows_ok ?h" by (rule rows_change [OF _ f])
  have id: "v = t" if "v \<in> set (turns h)" "turn_id v = turn_id t" for v
    using c that t distinct_key_eq [of turn_id "turns h" v t] by (simp add: control_ok_def)
  have hex: "reply_hex v \<noteq> reply_hex t" if "v \<in> set (turns h)" "v \<noteq> t" for v
    using c that t distinct_key_eq [of reply_hex "turns h" v t] by (auto simp: control_ok_def)
  have others: "follows v (outbox (say fr h)) (open_out (say fr h))"
    if v: "v \<in> set (turns h)" "v \<noteq> t" "turn_phase v \<noteq> Ended" for v
  proof -
    have fv: "follows v (outbox h) (open_out h)" using s v by (simp add: streams_ok_def)
    have na: "\<not> about (reply_hex v) fr" using hex [OF v(1,2)] about by simp
    show ?thesis
    proof (cases rule: say_cases [of h fr])
      case queued
      with fv na show ?thesis by (simp add: follows_def)
    next
      case lost
      with fv show ?thesis by (auto elim: follows_weaken)
    qed
  qed
  have mine: "follows (f t) (outbox (say fr h)) (open_out (say fr h))" if "turn_phase (f t) \<noteq> Ended"
    by (cases rule: say_cases [of h fr]) (use queued lost that in simp_all)
  have "stream_ok 0 (stream mid (outbox (say fr h)))" for mid
  proof (cases rule: say_cases [of h fr])
    case queued
    with s about good show ?thesis by (cases "mid = reply_hex t") (auto simp: streams_ok_def)
  next
    case lost
    with s show ?thesis by (simp add: streams_ok_def)
  qed
  moreover have "follows u (outbox ?h) (open_out ?h)" if "u \<in> set (turns ?h)" "turn_phase u \<noteq> Ended" for u
  proof -
    have "u \<in> (\<lambda>v. if turn_id v = turn_id t then f v else v) ` set (turns h)"
      using that(1) by (simp add: change_turn_def)
    then obtain v where v: "v \<in> set (turns h)" "u = (if turn_id v = turn_id t then f v else v)"
      by blast
    show ?thesis
    proof (cases "turn_id v = turn_id t")
      case True
      with v id mine that(2) show ?thesis by auto
    next
      case False
      then have "v \<noteq> t" by blast
      with False v others that(2) show ?thesis by simp
    qed
  qed
  ultimately have "streams_ok ?h" by (simp add: streams_ok_def)
  with 1 2 show ?thesis by (simp add: handler_ok_def)
qed

lemma running_stream:
  assumes "handler_ok cfg h" "t \<in> set (turns h)" "turn_phase t \<noteq> Ended"
  shows "follows t (outbox h) (open_out h)" "turn_index t = length (turn_chunks t)"
    "stored (h_db h) (sid_of h) (message_id (turn_reply t)) (seq (turn_reply t)) None"
    "open_out h \<Longrightarrow> stream (reply_hex t) (outbox h) = deltas (reply_hex t) (turn_chunks t)"
proof -
  show f: "follows t (outbox h) (open_out h)"
    using handler_okD(3) [OF assms(1)] assms(2,3) by (simp add: streams_ok_def)
  show "turn_index t = length (turn_chunks t)"
    using handler_okD(1) [OF assms(1)] assms(2) by (simp add: control_ok_def)
  show "stored (h_db h) (sid_of h) (message_id (turn_reply t)) (seq (turn_reply t)) None"
    using handler_okD(2) [OF assms(1)] assms(2) by (simp add: rows_ok_def turn_stored_def)
  show "stream (reply_hex t) (outbox h) = deltas (reply_hex t) (turn_chunks t)" if "open_out h"
    using f that by (auto simp: follows_def)
qed

lemma ok_yields:
  assumes ok: "handler_ok cfg h" and t: "t \<in> set (turns h)" "turn_phase t = Streaming"
  shows "handler_ok cfg (turn_yields t c h)"
proof -
  let ?fr = "Delta (reply_hex t) (turn_index t) c"
  note run = running_stream [OF ok t(1)]
  have s: "open_out h \<Longrightarrow> stream (reply_hex t) (outbox h) = deltas (reply_hex t) (turn_chunks t)"
    using run(4) t(2) by simp
  show ?thesis
    unfolding turn_yields_def
  proof (rule ok_turn_frame [OF ok t(1)])
    show "same_turn (\<lambda>t. t\<lparr>turn_chunks := turn_chunks t @ [c], turn_index := turn_index t + 1\<rparr>)"
      by (simp add: same_turn_def)
    show "frame_stored (h_db h) (sid_of h) ?fr"
      using run(3) t(2) by (auto simp: reply_hex_def)
    show "stream_ok 0 (stream (reply_hex t) (outbox h) @ [?fr])" if "open_out h"
      using s [OF that] run(2) t(2) by (simp add: stream_ok_deltas)
    show "follows (t\<lparr>turn_chunks := turn_chunks t @ [c], turn_index := turn_index t + 1\<rparr>)
        (outbox h @ [?fr]) True" if "open_out h"
      using s [OF that] run(2) t(2)
      by (auto simp: follows_def deltas_snoc reply_hex_def intro!: exI [of _ "length (turn_chunks t) + 1"])
    obtain n where "stream (reply_hex t) (outbox h) = deltas (reply_hex t) (take n (turn_chunks t))"
      using run(1) t(2) by (auto simp: follows_def)
    then show "follows (t\<lparr>turn_chunks := turn_chunks t @ [c], turn_index := turn_index t + 1\<rparr>)
        (outbox h) False"
      unfolding follows_def reply_hex_def
      by (intro exI [of _ "min n (length (turn_chunks t))"]) (simp add: min_def)
  qed simp
qed

lemma same_turn_phase [simp]: "same_turn (\<lambda>t. t\<lparr>turn_phase := p\<rparr>)"
  by (simp add: same_turn_def)

lemma ok_phase:
  assumes ok: "handler_ok cfg h" and p: "\<And>t. t \<in> set (turns h) \<Longrightarrow> turn_id t = i \<Longrightarrow>
      p = Ended \<or> turn_phase t \<noteq> Ended"
  shows "handler_ok cfg (change_turn i (\<lambda>t. t\<lparr>turn_phase := p\<rparr>) h)"
proof -
  let ?h = "change_turn i (\<lambda>t. t\<lparr>turn_phase := p\<rparr>) h"
  have "follows u (outbox h) (open_out h)" if "u \<in> set (turns ?h)" "turn_phase u \<noteq> Ended" for u
    using that handler_okD(3) [OF ok] p
    by (fastforce simp: streams_ok_def follows_def reply_hex_def elim!: change_turn_set split: if_splits)
  then have "streams_ok ?h" using handler_okD(3) [OF ok] by (simp add: streams_ok_def)
  with control_change [OF handler_okD(1) [OF ok]] rows_change [OF handler_okD(2) [OF ok]]
  show ?thesis by (simp add: handler_ok_def)
qed

lemma ok_done:
  assumes ok: "handler_ok cfg h" and t: "t \<in> set (turns h)" "turn_phase t \<noteq> Ended"
  shows "handler_ok cfg (change_turn (turn_id t) (\<lambda>t. t\<lparr>turn_phase := Ended\<rparr>)
           (say (DoneFrame (reply_hex t) (seq (turn_reply t))) h))"
proof (rule ok_turn_frame [OF ok t(1) same_turn_phase])
  note run = running_stream [OF ok t]
  show "frame_stored (h_db h) (sid_of h) (DoneFrame (reply_hex t) (seq (turn_reply t)))"
    using run(3) by (auto simp: reply_hex_def)
  show "stream_ok 0 (stream (reply_hex t) (outbox h) @ [DoneFrame (reply_hex t) (seq (turn_reply t))])"
    if "open_out h"
    using run(4) that by (simp add: stream_ok_deltas)
qed simp_all

lemma ok_turn_answered:
  assumes ok: "handler_ok cfg h" and t: "t \<in> set (turns h)" "turn_phase t \<in> {Completing, Breaking, Stopping}"
  shows "handler_ok cfg (turn_answered t a h)"
proof -
  let ?mid = "message_id (turn_reply t)"
  let ?c = "repo_call a (\<lambda>now _. complete_assistant_message now ?mid (concat (turn_chunks t))) h"
  let ?f = "repo_call a (\<lambda>now _. fail_assistant_message now ?mid) h"
  have okc: "handler_ok cfg (snd ?c)" by (rule ok_repo_call [OF ok]) (erule (1) later_txn(4))
  have okf: "handler_ok cfg (snd ?f)" by (rule ok_repo_call [OF ok]) (erule (1) later_txn(5))
  have ended: "handler_ok cfg (change_turn (turn_id t) (\<lambda>t. t\<lparr>turn_phase := Ended\<rparr>) h')"
    if "handler_ok cfg h'" for h' by (rule ok_phase [OF that]) simp
  show ?thesis
  proof (cases "turn_phase t")
    case Completing
    obtain r h1 where c: "?c = (r, h1)" by fastforce
    have ok1: "handler_ok cfg h1" and t1: "t \<in> set (turns h1)"
      using okc t(1) c repo_call_sel(1) [of a _ h] by (metis snd_conv)+
    have id: "u = t" if "u \<in> set (turns h1)" "turn_id u = turn_id t" for u
      using distinct_key_eq [of turn_id "turns h1" u t] handler_okD(1) [OF ok1] that t1
      by (simp add: control_ok_def)
    have "handler_ok cfg (change_turn (turn_id t) (\<lambda>t. t\<lparr>turn_phase := Breaking\<rparr>) h1)"
    proof (rule ok_phase [OF ok1])
      fix u
      assume "u \<in> set (turns h1)" "turn_id u = turn_id t"
      then have "u = t" by (rule id)
      with Completing show "Breaking = Ended \<or> turn_phase u \<noteq> Ended" by simp
    qed
    then show ?thesis
      using ok_done [OF ok1 t1] c Completing
      by (cases r) (simp_all add: turn_answered_def Let_def)
  next
    case Breaking
    with okf show ?thesis
      by (simp add: turn_answered_def Let_def turn_failed_frame_def ended ok_say_error)
  next
    case Stopping
    with okf show ?thesis by (simp add: turn_answered_def Let_def ended)
  qed (use t(2) in auto)
qed

lemma ok_reap:
  assumes ok: "handler_ok cfg h" and t: "t \<in> set (turns h)"
  shows "handler_ok cfg (reap_turn t h)"
proof -
  let ?P = "\<lambda>u. turn_id u \<noteq> turn_id t"
  have c: "control_ok cfg h" by (rule handler_okD [OF ok])
  have keys: "turn_id u \<noteq> turn_id t \<longleftrightarrow> turn_key u \<noteq> turn_key t" if "u \<in> set (turns h)" for u
    using c that t distinct_key_eq [of turn_key "turns h" u t] distinct_key_eq [of turn_id "turns h" u t]
    by (auto simp: control_ok_def)
  have flt: "filter ?P (turns h) = filter (\<lambda>u. turn_key u \<noteq> turn_key t) (turns h)"
    by (rule filter_cong [OF refl]) (use keys in simp)
  have del: "map_of (map (\<lambda>t. (turn_key t, message_id (turn_reply t)))
      (filter (\<lambda>u. turn_key u \<noteq> turn_key t) ts)) =
      (map_of (map (\<lambda>t. (turn_key t, message_id (turn_reply t))) ts))(turn_key t := None)" for ts
    by (induction ts) auto
  let ?ts = "filter (\<lambda>u. turn_key u \<noteq> turn_key t) (turns h)"
  have ts: "turns (reap_turn t h) = ?ts" "next_turn (reap_turn t h) = next_turn h"
    "live_replies (reap_turn t h) = (live_replies h)(turn_key t := None)"
    "reader (reap_turn t h) = reader h"
    using flt by (simp_all add: reap_turn_def)
  have "length ?ts \<le> length (turns h)" by simp
  then have len: "int (length ?ts) \<le> ws_max_concurrent_turns cfg"
      "pending (reader h) \<longrightarrow> int (length ?ts) < ws_max_concurrent_turns cfg"
    using c unfolding control_ok_def by linarith+
  have dist: "distinct (map turn_id ?ts)" "distinct (map turn_key ?ts)" "distinct (map reply_hex ?ts)"
    using c by (simp_all add: control_ok_def distinct_map_filter)
  have "control_ok cfg (reap_turn t h)"
    unfolding control_ok_def ts del
    using c len dist by (auto simp: control_ok_def)
  moreover have "reader_stored (h_db h) (sid_of h) (filter ?P (turns h)) (reader h)"
    using handler_okD(2) [OF ok] by (cases "reader h") (auto simp: rows_ok_def)
  then have "rows_ok (reap_turn t h)" "streams_ok (reap_turn t h)"
    using handler_okD(2,3) [OF ok] by (auto simp: rows_ok_def streams_ok_def reap_turn_def)
  ultimately show ?thesis by (simp add: handler_ok_def)
qed


lemma reply_hex_phase [simp]: "reply_hex (t\<lparr>turn_phase := p\<rparr>) = reply_hex t"
  by (simp add: reply_hex_def)

lemma cancelled_phase_Ended: "cancelled_phase p \<noteq> Ended \<Longrightarrow> p \<noteq> Ended"
  by (cases p) simp_all

lemma ok_stop_reading: "handler_ok cfg h \<Longrightarrow> handler_ok cfg (stop_reading raised h)"
proof -
  assume ok: "handler_ok cfg h"
  let ?f = "\<lambda>t. t\<lparr>turn_phase := cancelled_phase (turn_phase t)\<rparr>"
  have m: "map k (map ?f (turns h)) = map k (turns h)" if "\<And>u. k (?f u) = k u" for k :: "turn \<Rightarrow> 'a"
    using that by simp
  have c: "control_ok cfg (stop_reading raised h)"
    using handler_okD(1) [OF ok]
    by (simp add: control_ok_def stop_reading_def cancel_turns_def comp_def)
  have conn: "outbox (stop_reading raised h) = outbox h" "open_out (stop_reading raised h) = open_out h"
    "sid_of (stop_reading raised h) = sid_of h" "h_db (stop_reading raised h) = h_db h"
    by (simp_all add: stop_reading_def cancel_turns_def)
  have r: "rows_ok (stop_reading raised h)"
    using handler_okD(2) [OF ok] unfolding rows_ok_def conn
    by (simp add: stop_reading_def cancel_turns_def turn_stored_def)
  have "streams_ok (stop_reading raised h)"
    using handler_okD(3) [OF ok] unfolding streams_ok_def conn
    by (auto simp: stop_reading_def cancel_turns_def follows_def reply_hex_def dest: cancelled_phase_Ended)
  with c r show ?thesis by (simp add: handler_ok_def)
qed

subsection \<open>The writer, the drain and the end\<close>

lemma take_enumerate: "take k (enumerate n cs) = enumerate n (take k cs)"
  by (induction cs arbitrary: k n) (auto simp: take_Cons')

lemma take_deltas: "take k (deltas mid cs) = deltas mid (take k cs)"
  by (simp add: deltas_def take_map take_enumerate)

lemma queued_take: "queued (x # xs) = (case x of Frame f \<Rightarrow> f # queued xs | CloseToken \<Rightarrow> queued xs)"
  by (cases x) simp_all

text \<open>An outbox that lost its end: what is left is a prefix and nothing is added any more.\<close>

lemma ok_shorter:
  assumes ok: "handler_ok cfg h" and h': "turns h' = turns h" "reader h' = reader h" "h_db h' = h_db h"
      "next_turn h' = next_turn h" "live_replies h' = live_replies h" "sid_of h' = sid_of h"
    and pre: "outbox h = outbox h' @ rest" and whole: "open_out h' \<Longrightarrow> open_out h \<and> rest = []"
  shows "handler_ok cfg h'"
proof -
  have "control_ok cfg h'" using handler_okD(1) [OF ok] by (simp add: control_ok_def h')
  moreover have "rows_ok h'" using handler_okD(2) [OF ok] by (simp add: rows_ok_def h' pre)
  moreover have "streams_ok h'"
  proof -
    have s: "streams_ok h" by (rule handler_okD [OF ok])
    have "stream_ok 0 (stream mid (outbox h'))" for mid
      using s stream_ok_prefix [of 0 "stream mid (outbox h')" "stream mid rest"]
      by (simp add: streams_ok_def pre)
    moreover have "follows t (outbox h') (open_out h')"
      if t: "t \<in> set (turns h)" "turn_phase t \<noteq> Ended" for t
    proof -
      obtain n where n: "stream (reply_hex t) (outbox h') @ stream (reply_hex t) rest =
          deltas (reply_hex t) (take n (turn_chunks t))" "open_out h \<longrightarrow> length (turn_chunks t) \<le> n"
        using s t unfolding streams_ok_def follows_def pre stream_append by blast
      let ?k = "length (stream (reply_hex t) (outbox h'))"
      have "stream (reply_hex t) (outbox h') = take ?k (deltas (reply_hex t) (take n (turn_chunks t)))"
        by (simp flip: n(1))
      then have e: "stream (reply_hex t) (outbox h') = deltas (reply_hex t) (take (min ?k n) (turn_chunks t))"
        by (simp add: take_deltas min.commute)
      show ?thesis
      proof (cases "open_out h'")
        case True
        with whole n show ?thesis by (auto simp: follows_def intro!: exI [of _ n])
      next
        case False
        with e show ?thesis unfolding follows_def by blast
      qed
    qed
    ultimately show ?thesis by (simp add: streams_ok_def h')
  qed
  ultimately show ?thesis by (simp add: handler_ok_def)
qed

lemma ok_writer_turns:
  assumes ok: "handler_ok cfg h" and w: "writer_end h = None"
  shows "handler_ok cfg (writer_turns reaches h)"
proof -
  let ?c = "h_conn h"
  consider "writer_turns reaches h = h"
    | f xs where "out ?c = Frame f # xs" "\<not> overflowed ?c"
        "writer_turns reaches h = h\<lparr>h_conn := ?c\<lparr>out := xs\<rparr>, wire := wire h @ [f]\<rparr>"
    | x xs code' where "out ?c = x # xs"
        "writer_turns reaches h = h\<lparr>h_conn := ?c\<lparr>out := xs\<rparr>, writer_end := Some (ReturnedCode code')\<rparr>"
    by (cases "out ?c"; cases "hd (out ?c)"; cases "overflowed ?c"; cases reaches)
       (simp_all add: writer_turns_def writer_step_def)
  then show ?thesis
  proof cases
    case 1
    with ok show ?thesis by simp
  next
    case (2 f xs)
    show ?thesis
      by (rule ok_shorter [OF ok, where rest = "[]"]) (use 2 w in \<open>simp_all add: outbox_def open_out_def\<close>)
  next
    case (3 x xs c)
    show ?thesis
      by (rule ok_shorter [OF ok, where rest = "queued (out ?c)"])
         (use 3 w in \<open>simp_all add: outbox_def open_out_def\<close>)
  qed
qed

lemma ok_writer_breaks:
  assumes ok: "handler_ok cfg h" and w: "writer_end h = None"
  shows "handler_ok cfg (writer_breaks h)"
proof -
  let ?c = "h_conn h"
  consider "writer_breaks h = h"
    | x xs where "out ?c = x # xs" "writer_breaks h = h\<lparr>h_conn := ?c\<lparr>out := xs\<rparr>, writer_end := Some Raised\<rparr>"
    by (cases "out ?c"; cases "hd (out ?c)"; cases "overflowed ?c")
       (simp_all add: writer_breaks_def writer_step_def)
  then show ?thesis
  proof cases
    case 1
    with ok show ?thesis by simp
  next
    case (2 x xs)
    show ?thesis
      by (rule ok_shorter [OF ok, where rest = "queued (out ?c)"])
         (use 2 w in \<open>simp_all add: outbox_def open_out_def\<close>)
  qed
qed

lemma ok_drained: "handler_ok cfg h \<Longrightarrow> handler_ok cfg (handle cfg parse Drained h)"
proof -
  assume ok: "handler_ok cfg h"
  have ok1: "handler_ok cfg (say going_away h)"
    using ok_say_error [OF ok] by (simp add: going_away_def)
  let ?h = "handle cfg parse Drained h"
  have e: "?h = (say going_away h)\<lparr>h_conn := snd (enqueue_item CloseToken
      ((h_conn (say going_away h))\<lparr>close_code := WS_SERVICE_RESTART\<rparr>))\<rparr>"
    by (simp add: request_close_def say_def Let_def)
  show ?thesis
    unfolding e by (rule ok_shorter [OF ok1, where rest = "[]"])
      (auto simp: outbox_def open_out_def enqueue_item_def split: if_splits)
qed

lemma ok_serve_wakes: "handler_ok cfg h \<Longrightarrow> handler_ok cfg (serve_wakes b h)"
  by (auto simp: serve_wakes_def Let_def intro: ok_frame ok_stop_reading split: reader.splits)

lemma ok_set_phase:
  assumes ok: "handler_ok cfg h" and t: "turn_of i h = Some t" "turn_phase t \<noteq> Ended"
  shows "handler_ok cfg (change_turn (turn_id t) (\<lambda>t. t\<lparr>turn_phase := p\<rparr>) h)"
proof (rule ok_phase [OF ok])
  fix u
  assume u: "u \<in> set (turns h)" "turn_id u = turn_id t"
  have "t \<in> set (turns h)" using turn_ofD [OF t(1)] by simp
  with u have "u = t"
    using distinct_key_eq [of turn_id "turns h" u t] handler_okD(1) [OF ok] by (simp add: control_ok_def)
  with t(2) show "p = Ended \<or> turn_phase u \<noteq> Ended" by simp
qed

theorem ok_handle: "handler_ok cfg h \<Longrightarrow> handler_ok cfg (handle cfg parse e h)"
proof (induction cfg parse e h rule: handle.induct)
  case (5 cfg parse h)
  then show ?case by (auto intro: ok_reader split: reader.splits)
next
  case (10 cfg parse i c h)
  then show ?case by (auto simp: with_turn_def dest!: turn_ofD intro: ok_yields split: option.splits)
next
  case (13 cfg parse i a h)
  then show ?case by (auto simp: with_turn_def dest!: turn_ofD intro: ok_turn_answered split: option.splits)
next
  case (14 cfg parse i h)
  then show ?case by (auto simp: with_turn_def dest!: turn_ofD intro: ok_reap split: option.splits)
qed (use ok_drained in \<open>auto simp: ok_dispatch ok_reader_answered ok_stop_reading ok_writer_turns
    ok_writer_breaks ok_serve_wakes ok_frame with_turn_def turn_begins_def set_phase_def ok_set_phase
    split: option.splits reader.splits\<close>)

end
