(* ===== verification/Handler_Properties.thy ===== *)
theory Handler_Properties
  imports Handler_Steps
begin

text \<open>
  What a connection promises, over every run of its events: the cap and the map of live replies, the
  durability of an acknowledged message, the order of a reply's frames, what \<open>done\<close> says of the
  stored row, and what a resume delivers. Three theorems show where it does not keep its word.
\<close>

subsection \<open>Runs\<close>

definition served :: "settings \<Rightarrow> (string \<Rightarrow> nat + client_frame) \<Rightarrow> uuid \<Rightarrow> db \<Rightarrow> event list \<Rightarrow> handler" where
  "served cfg parse sid db evs = serve_run cfg parse evs (new_handler cfg sid db)"

lemma ok_serve_run: "handler_ok cfg h \<Longrightarrow> handler_ok cfg (serve_run cfg parse evs h)"
  by (rule serve_run_induct [where Q = "handler_ok cfg"]) (simp_all add: ok_handle)

lemma ok_served:
  "0 \<le> ws_max_concurrent_turns cfg \<Longrightarrow> sys_ok db \<Longrightarrow> handler_ok cfg (served cfg parse sid db evs)"
  unfolding served_def by (intro ok_serve_run handler_ok_new)

lemma writer_turns_sel [simp]: "sid_of (writer_turns b h) = sid_of h" "h_db (writer_turns b h) = h_db h"
  "turns (writer_turns b h) = turns h" "reader (writer_turns b h) = reader h"
  by (auto simp: writer_turns_def writer_step_def Let_def
      split: prod.splits writer_turn.splits list.splits out_item.splits if_splits)

lemma writer_breaks_sel [simp]: "sid_of (writer_breaks h) = sid_of h" "h_db (writer_breaks h) = h_db h"
  "turns (writer_breaks h) = turns h" "reader (writer_breaks h) = reader h"
  by (auto simp: writer_breaks_def writer_step_def Let_def
      split: prod.splits writer_turn.splits list.splits out_item.splits if_splits)

lemma request_close_session [simp]: "conn_session (request_close c f k) = conn_session k"
  by (simp add: request_close_def Let_def split: option.splits)

lemma fold_say_sel [simp]:
  "h_db (fold (\<lambda>e. say (g e)) es h) = h_db h" "turns (fold (\<lambda>e. say (g e)) es h) = turns h"
  "reader (fold (\<lambda>e. say (g e)) es h) = reader h" "sid_of (fold (\<lambda>e. say (g e)) es h) = sid_of h"
  by (induction es arbitrary: h) simp_all

lemma stop_reading_sel [simp]: "sid_of (stop_reading r h) = sid_of h" "h_db (stop_reading r h) = h_db h"
  "reader (stop_reading r h) = Gathering r"
  by (simp_all add: stop_reading_def cancel_turns_def)

lemma spawn_sel [simp]: "sid_of (spawn k b m h) = sid_of h" "h_db (spawn k b m h) = h_db h"
  "reader (spawn k b m h) = reader h"
  by (simp_all add: spawn_def)

lemma repo_call_session [simp]: "sid_of (snd (repo_call a t h)) = sid_of h"
  by simp

lemma repo_call_snd:
  assumes "repo_call a t h = (r, h1)"
  shows "h1 = h\<lparr>h_db := h_db h1\<rparr>"
  using assms by (auto simp: repo_call_def split: prod.splits sum.splits)

lemma repo_call_frame:
  assumes "repo_call a t h = (r, h1)"
  shows "sid_of h1 = sid_of h" "turns h1 = turns h" "reader h1 = reader h"
    "live_replies h1 = live_replies h" "h_conn h1 = h_conn h"
  using repo_call_sel [of a t h] assms by simp_all

text \<open>Every event leaves a later database, and the session is the connection's own.\<close>

lemma repo_call_later':
  assumes "repo_call a t h = (r, h1)" "handler_ok cfg h"
    "\<And>now mid db x db'. sys_ok db \<Longrightarrow> t now mid db = Inr (x, db') \<Longrightarrow> later db db'"
  shows "later (h_db h) (h_db h1)"
  using repo_call_later [of cfg h t a] assms by auto

lemma reader_answered_later:
  assumes ok: "handler_ok cfg h"
  shows "later (h_db h) (h_db (reader_answered cfg a h)) \<and> sid_of (reader_answered cfg a h) = sid_of h"
proof -
  have same: "later (h_db h) (h_db h)" using handler_okD(2) [OF ok] by (simp add: rows_ok_def later_refl)
  show ?thesis
  proof (cases "reader h")
    case Opening
    obtain r h1 where c: "repo_call a (\<lambda>now _. ensure_session now (sid_of h)) h = (r, h1)" by fastforce
    have "later (h_db h) (h_db h1)" by (rule repo_call_later' [OF c ok]) (erule (1) later_txn(1))
    then show ?thesis using c Opening repo_call_frame(1) [OF c]
      by (simp add: reader_answered_def split: option.splits)
  next
    case (Replaying after)
    let ?h = "h\<lparr>reader := Reading\<rparr>"
    have ok': "handler_ok cfg ?h" by (rule ok_reader [OF ok]) simp
    obtain r h1 where c: "repo_call a (\<lambda>_ _ db. Inr (log_since (sid_of ?h) after (ws_resume_max_messages cfg + 1) db, db)) ?h = (r, h1)"
      by fastforce
    have "later (h_db ?h) (h_db h1)" by (rule repo_call_later' [OF c ok']) (erule later_txn(6))
    then show ?thesis using c Replaying repo_call_frame(1) [OF c]
      by (simp add: reader_answered_def resume_answered_def Let_def split: option.splits)
  next
    case (Recording key body)
    obtain r h1 where c: "repo_call a (\<lambda>now mid. record_user_message now mid (sid_of h) key body) h = (r, h1)"
      by fastforce
    have "later (h_db h) (h_db h1)" by (rule repo_call_later' [OF c ok]) (erule (1) later_txn(2))
    then show ?thesis using c Recording repo_call_frame(1) [OF c]
      by (simp add: reader_answered_def record_answered_def split: option.splits)
  next
    case (Starting key body rec)
    obtain r h1 where c: "repo_call a (\<lambda>now mid. start_assistant_message now mid (sid_of h)) h = (r, h1)"
      by fastforce
    have "later (h_db h) (h_db h1)" by (rule repo_call_later' [OF c ok]) (erule (1) later_txn(3))
    then show ?thesis using c Starting repo_call_frame(1) [OF c]
      by (simp add: reader_answered_def start_answered_def Let_def split: option.splits)
  qed (use same in \<open>simp_all add: reader_answered_def\<close>)
qed

lemma turn_answered_later:
  assumes ok: "handler_ok cfg h"
  shows "later (h_db h) (h_db (turn_answered t a h)) \<and> sid_of (turn_answered t a h) = sid_of h"
proof -
  let ?mid = "message_id (turn_reply t)"
  obtain r h1 where c: "repo_call a (\<lambda>now _. complete_assistant_message now ?mid (concat (turn_chunks t))) h = (r, h1)"
    by fastforce
  obtain s h2 where f: "repo_call a (\<lambda>now _. fail_assistant_message now ?mid) h = (s, h2)" by fastforce
  have "later (h_db h) (h_db h1)" by (rule repo_call_later' [OF c ok]) (erule (1) later_txn(4))
  moreover have "later (h_db h) (h_db h2)" by (rule repo_call_later' [OF f ok]) (erule (1) later_txn(5))
  moreover have "later (h_db h) (h_db h)"
    using handler_okD(2) [OF ok] by (simp add: rows_ok_def later_refl)
  ultimately show ?thesis
    using c f repo_call_frame(1) [OF c] repo_call_frame(1) [OF f]
    by (simp add: turn_answered_def Let_def split: phase.splits option.splits)
qed

lemma handle_later:
  "handler_ok cfg h \<Longrightarrow> later (h_db h) (h_db (handle cfg parse e h)) \<and> sid_of (handle cfg parse e h) = sid_of h"
proof (induction cfg parse e h rule: handle.induct)
  case (2 cfg parse a h)
  then show ?case using reader_answered_later by simp
next
  case (13 cfg parse i a h)
  then show ?case
    using turn_answered_later [of cfg h]
    by (auto simp: with_turn_def rows_ok_def later_refl dest: handler_okD(2) split: option.splits)
qed (auto simp: rows_ok_def later_refl dispatch_def with_turn_def turn_begins_def turn_yields_def set_phase_def
    reap_turn_def serve_wakes_def Let_def dest: handler_okD(2)
    split: option.splits reader.splits sum.splits client_frame.splits)


lemma served_session [simp]:
  assumes "0 \<le> ws_max_concurrent_turns cfg" "sys_ok db"
  shows "sid_of (served cfg parse sid db evs) = sid"
proof -
  have "handler_ok cfg (served cfg parse sid db evs) \<and> sid_of (served cfg parse sid db evs) = sid"
    unfolding served_def
    by (rule serve_run_induct [where Q = "\<lambda>h. handler_ok cfg h \<and> sid_of h = sid"])
       (use assms in \<open>auto simp: ok_handle handle_later handler_ok_new\<close>,
        simp_all add: new_handler_def new_connection_def)
  then show ?thesis by simp
qed

lemma serve_run_later:
  assumes "handler_ok cfg h"
  shows "later (h_db h) (h_db (serve_run cfg parse evs h)) \<and> sid_of (serve_run cfg parse evs h) = sid_of h"
  using assms
proof (induction evs arbitrary: h)
  case Nil
  then show ?case using handler_okD(2) [OF Nil] by (simp add: rows_ok_def later_refl)
next
  case (Cons e evs)
  with handle_later [of cfg h parse e] ok_handle [of cfg h parse e] show ?case
    by (auto intro: later_trans)
qed

subsection \<open>A connection to look at\<close>

fun demo_parse :: "string \<Rightarrow> nat + client_frame" where
  "demo_parse raw =
     (if raw = ''ask'' then Inr (UserMessage 1 ''hi'' ''k1'')
      else if raw = ''resume'' then Inr (Resume 1 0)
      else if raw = ''ping'' then Inr (Ping 1) else Inl 1)"

definition reply_at :: "time \<Rightarrow> uuid \<Rightarrow> answer" where
  "reply_at now mid = \<lparr>at_time = now, before = [], over = Works, minted_id = mid\<rparr>"

definition lost_at :: "time \<Rightarrow> uuid \<Rightarrow> answer" where
  "lost_at now mid = \<lparr>at_time = now, before = [], over = Fails, minted_id = mid\<rparr>"

definition demo_turn :: turn where
  "demo_turn = \<lparr>turn_id = 0, turn_key = ''k1'', turn_text = ''hi'',
     turn_reply = \<lparr>seq = 2, message_id = 22, msg_role = ASSISTANT, msg_status = STREAMING, msg_text = []\<rparr>,
     turn_chunks = [], turn_index = 0, turn_phase = Spawned\<rparr>"

definition asked :: "event list" where
  "asked = [ReaderAnswered (reply_at 1 0), Receives ''ask'', ReaderAnswered (reply_at 2 21),
            ReaderAnswered (reply_at 3 22)]"

abbreviation demo_served :: "event list \<Rightarrow> handler" where
  "demo_served evs \<equiv> served default_settings demo_parse 7 empty_db evs"

lemma demo_cap [simp]: "ws_max_concurrent_turns default_settings = 4" "ws_send_queue_size default_settings = 64"
  "ws_resume_max_messages default_settings = 200"
  by (simp_all add: default_settings_def)

lemma demo_ok: "handler_ok default_settings (demo_served evs)"
  by (rule ok_served) (simp_all add: sys_ok_empty)

lemmas handler_eval = served_def asked_def new_handler_def new_connection_def reader_answered_def
  repo_call_def call_txn_def reply_at_def lost_at_def dispatch_def record_answered_def start_answered_def
  spawn_def say_def send_def enqueue_item_def full_def ack_frame_def PROTOCOL_VERSION_def Let_def
  ensure_session_def record_user_message_def start_assistant_message_def allocate_seq_def user_row_def
  assistant_row_def message_clash_def client_msg_id_matches_role_def log_append_message_def empty_db_def
  to_message_def stored_message.truncate_def

lemma asked_state:
  "turns (demo_served asked) = [demo_turn]" "reader (demo_served asked) = Reading"
  "chat_messages (h_db (demo_served asked)) = [user_row 2 21 7 ''k1'' ''hi'' 1, assistant_row 3 22 7 2]"
  "out (h_conn (demo_served asked)) = [Frame (AckFrame ''k1'' 1 (uuid_hex 21) (Some (uuid_hex 22)))]"
  by (simp_all add: handler_eval demo_turn_def)


subsection \<open>Properties\<close>

text \<open>C24: A connection stays well-formed through every run of its events, whatever other processes commit
  in between: never more turns than the cap, no two turns for one key, \<open>live_replies\<close> names exactly
  the replies of the turns in flight, each of those replies is a stored row of the session, and the
  database satisfies its whole invariant.\<close>

theorem connection_stays_well_formed:
  assumes "0 \<le> ws_max_concurrent_turns cfg" "sys_ok db"
  shows "let h = served cfg parse sid db evs in
     int (length (turns h)) \<le> ws_max_concurrent_turns cfg \<and> distinct (map turn_key (turns h)) \<and>
     (\<forall>k i. live_replies h k = Some i \<longleftrightarrow>
        (\<exists>t \<in> set (turns h). turn_key t = k \<and> message_id (turn_reply t) = i)) \<and>
     (\<forall>t \<in> set (turns h). \<exists>m \<in> set (chat_messages (h_db h)).
        msg_session m = sid \<and> message_id m = message_id (turn_reply t) \<and> seq m = seq (turn_reply t)) \<and>
     sys_ok (h_db h)"
proof -
  define h where "h = served cfg parse sid db evs"
  have ok: "handler_ok cfg h" and sid: "sid_of h = sid" using assms by (simp_all add: h_def ok_served)
  have c: "control_ok cfg h" and r: "rows_ok h" by (rule handler_okD [OF ok])+
  have dk: "distinct (map turn_key (turns h))" using c by (simp add: control_ok_def)
  then have "distinct (map fst (map (\<lambda>t. (turn_key t, message_id (turn_reply t))) (turns h)))"
    by (simp add: comp_def)
  then have "live_replies h k = Some i \<longleftrightarrow> (\<exists>t \<in> set (turns h). turn_key t = k \<and> message_id (turn_reply t) = i)" for k i
    using c by (auto simp: control_ok_def dest: map_of_SomeD)
  then show ?thesis
    using c r dk sid by (auto simp: control_ok_def rows_ok_def turn_stored_def stored_def Let_def simp flip: h_def)
qed

theorem connection_stays_well_formed_witness:
  "length (turns (demo_served asked)) = 1 \<and> int (length (turns (demo_served asked))) \<le> 4"
  using connection_stays_well_formed [of default_settings empty_db demo_parse 7 asked]
  by (simp add: Let_def sys_ok_empty asked_state)

lemma wire_outbox: "f \<in> set (wire h) \<Longrightarrow> f \<in> set (outbox h)"
  by (simp add: outbox_def)

text \<open>C25: An acknowledgement on the wire means the message is durable: the session has a user row with
  that key, that number and that identity, and it still has it after anything the system does
  later; the reply the frame names is a row of the session too.\<close>

theorem acked_is_durable:
  assumes "0 \<le> ws_max_concurrent_turns cfg" "sys_ok db"
    and ack: "AckFrame key n mid reply \<in> set (wire (served cfg parse sid db evs))"
  shows "\<exists>i. mid = uuid_hex i \<and>
     (\<exists>m \<in> set (chat_messages (run ops (h_db (served cfg parse sid db evs)))).
        msg_session m = sid \<and> client_msg_id m = Some key \<and> seq m = n \<and> message_id m = i) \<and>
     (\<forall>r. reply = Some r \<longrightarrow> (\<exists>m \<in> set (chat_messages (run ops (h_db (served cfg parse sid db evs)))).
        msg_session m = sid \<and> client_msg_id m = None \<and> uuid_hex (message_id m) = r))"
proof -
  define h where "h = served cfg parse sid db evs"
  have ok: "handler_ok cfg h" and sid: "sid_of h = sid" using assms(1,2) by (simp_all add: h_def ok_served)
  have r: "rows_ok h" by (rule handler_okD [OF ok])
  then have "frame_stored (h_db h) sid (AckFrame key n mid reply)"
    using wire_outbox [OF ack [folded h_def]] sid by (auto simp: rows_ok_def)
  moreover have "later (h_db h) (run ops (h_db h))" by (rule later_run) (use r in \<open>simp add: rows_ok_def\<close>)
  ultimately have "frame_stored (run ops (h_db h)) sid (AckFrame key n mid reply)"
    by (rule frame_stored_later [rotated])
  then show ?thesis by (auto simp: stored_def simp flip: h_def)
qed

lemma flushed_ack: "wire (demo_served (asked @ [WriterTurn True])) =
    [AckFrame ''k1'' 1 (uuid_hex 21) (Some (uuid_hex 22))]"
proof -
  have e: "demo_served (asked @ [WriterTurn True]) = handle default_settings demo_parse (WriterTurn True) (demo_served asked)"
    by (simp add: served_def serve_run_append)
  have "overflowed (h_conn (demo_served asked)) = False" "writer_end (demo_served asked) = None"
    "closing (demo_served asked) = None" "wire (demo_served asked) = []"
    by (simp_all add: handler_eval)
  then show ?thesis
    unfolding e by (simp add: asked_state writer_turns_def writer_step_def)
qed

theorem acked_is_durable_witness:
  "\<exists>m \<in> set (chat_messages (run [StartAssistant 9 33 7] (h_db (demo_served (asked @ [WriterTurn True]))))).
     client_msg_id m = Some ''k1'' \<and> seq m = 1"
  using acked_is_durable [of default_settings empty_db "''k1''" 1 "uuid_hex 21" "Some (uuid_hex 22)"
      demo_parse 7 "asked @ [WriterTurn True]" "[StartAssistant 9 33 7]"]
  by (auto simp: sys_ok_empty flushed_ack)

lemma stream_ok_form:
  assumes "stream_ok i xs" "\<forall>f \<in> set xs. about mid f"
  shows "\<exists>cs. xs = map (\<lambda>(j, c). Delta mid j c) (enumerate i cs) \<or>
     (\<exists>n. xs = map (\<lambda>(j, c). Delta mid j c) (enumerate i cs) @ [DoneFrame mid n])"
  using assms
proof (induction i xs rule: stream_ok.induct)
  case (1 i)
  then show ?case by (intro exI [of _ "[]"]) simp
next
  case (2 i m j c fs)
  then obtain cs where "fs = map (\<lambda>(j, c). Delta mid j c) (enumerate (i + 1) cs) \<or>
      (\<exists>n. fs = map (\<lambda>(j, c). Delta mid j c) (enumerate (i + 1) cs) @ [DoneFrame mid n])" by auto
  with 2 show ?case by (intro exI [of _ "c # cs"]) auto
next
  case (3 i m n fs)
  then show ?case by (intro exI [of _ "[]"]) simp
qed simp_all

text \<open>C26: The frames of one reply reach the peer in order and unmixed: on the wire they are chunks
  numbered from zero without a gap, then at most one \<open>done\<close>, and nothing after it, however many turns
  interleave and wherever the connection was cut.\<close>

theorem reply_stream_is_ordered:
  assumes "0 \<le> ws_max_concurrent_turns cfg" "sys_ok db"
  shows "\<exists>cs. stream mid (wire (served cfg parse sid db evs)) = deltas mid cs \<or>
     (\<exists>n. stream mid (wire (served cfg parse sid db evs)) = deltas mid cs @ [DoneFrame mid n])"
proof -
  define h where "h = served cfg parse sid db evs"
  have "streams_ok h" using handler_okD(3) [OF ok_served] assms by (simp add: h_def)
  then have "stream_ok 0 (stream mid (wire h))"
    by (auto simp: streams_ok_def outbox_def intro: stream_ok_prefix)
  moreover have "\<forall>f \<in> set (stream mid (wire h)). about mid f" by (simp add: stream_def)
  ultimately show ?thesis using stream_ok_form unfolding h_def deltas_def by blast
qed

theorem reply_stream_is_ordered_witness:
  "\<exists>cs n. stream (uuid_hex 22) (wire (demo_served (asked @ [WriterTurn True, Begins 0, Yields 0 ''a'', WriterTurn True])))
     \<in> {deltas (uuid_hex 22) cs, deltas (uuid_hex 22) cs @ [DoneFrame (uuid_hex 22) n]}"
  using reply_stream_is_ordered [of default_settings empty_db "uuid_hex 22" demo_parse 7
      "asked @ [WriterTurn True, Begins 0, Yields 0 ''a'', WriterTurn True]"]
  by (auto simp: sys_ok_empty)


lemma unique_turn:
  assumes "handler_ok cfg h" "t \<in> set (turns h)"
  shows "turn_of (turn_id t) h = Some t"
  using find_key_Some [of turn_id "turns h" t] handler_okD(1) [OF assms(1)] assms(2)
  by (simp add: turn_of_def control_ok_def eq_commute)

lemma finish_row:
  assumes ok: "sys_ok db" and r: "r \<in> set (chat_messages db)" "message_id r = mid"
    and f: "finish_message now mid st body db = Inr (u, db')"
  shows "finished_row now st body r \<in> set (chat_messages db')"
  using assms by (auto simp: finish_message_def set_update_where)

text \<open>The last write of a turn whose responder is through, answered and not.\<close>

lemma completing_stores:
  assumes ok: "handler_ok cfg h" and t: "t \<in> set (turns h)" "turn_phase t = Completing" and w: "over a = Works"
  shows "\<exists>db'. turn_answered t a h = change_turn (turn_id t) (\<lambda>t. t\<lparr>turn_phase := Ended\<rparr>)
        (say (DoneFrame (reply_hex t) (seq (turn_reply t))) (h\<lparr>h_db := db'\<rparr>)) \<and>
     (\<exists>m \<in> set (chat_messages db'). message_id m = message_id (turn_reply t) \<and>
        seq m = seq (turn_reply t) \<and> msg_status m = COMPLETE \<and> msg_text m = concat (turn_chunks t))"
proof -
  let ?mid = "message_id (turn_reply t)" and ?db = "run (before a) (h_db h)"
  let ?t = "\<lambda>now (_ :: uuid). complete_assistant_message now ?mid (concat (turn_chunks t))"
  have l: "later (h_db h) ?db"
    by (rule later_run) (use handler_okD(2) [OF ok] in \<open>simp add: rows_ok_def\<close>)
  have "stored ?db (sid_of h) ?mid (seq (turn_reply t)) None"
    using running_stream(3) [OF ok t(1)] t(2) l by (auto simp: later_def)
  then obtain r where r: "r \<in> set (chat_messages ?db)" "message_id r = ?mid" "seq r = seq (turn_reply t)"
    by (auto simp: stored_def)
  obtain db' where f: "complete_assistant_message (at_time a) ?mid (concat (turn_chunks t)) ?db = Inr ((), db')"
    by (simp add: complete_assistant_message_def finish_message_def)
  have row: "finished_row (at_time a) COMPLETE (Some (concat (turn_chunks t))) r \<in> set (chat_messages db')"
    by (rule finish_row [OF _ r(1,2)]) (use l f in \<open>auto simp: later_def complete_assistant_message_def\<close>)
  have c: "repo_call a ?t h = (Some (), h\<lparr>h_db := db'\<rparr>)" by (rule repo_call_works [of a ?t, OF w f])
  have "\<exists>m \<in> set (chat_messages db'). message_id m = ?mid \<and>
      seq m = seq (turn_reply t) \<and> msg_status m = COMPLETE \<and> msg_text m = concat (turn_chunks t)"
    by (rule bexI [OF _ row]) (use r in \<open>simp add: finished_row_def Let_def\<close>)
  then show ?thesis using c t(2) by (intro exI [of _ db']) (simp add: turn_answered_def Let_def)
qed

lemma completing_unanswered:
  assumes t: "t \<in> set (turns h)" "turn_phase t = Completing" and w: "over a \<noteq> Works"
  shows "outbox (turn_answered t a h) = outbox h \<and>
     (\<exists>t' \<in> set (turns (turn_answered t a h)). turn_id t' = turn_id t \<and> turn_phase t' = Breaking)"
proof -
  let ?t = "\<lambda>now (_ :: uuid). complete_assistant_message now (message_id (turn_reply t)) (concat (turn_chunks t))"
  obtain h1 where c: "repo_call a ?t h = (None, h1)"
    using repo_call_fails [OF w, of ?t h] by (cases "repo_call a ?t h") auto
  have e: "turn_answered t a h = change_turn (turn_id t) (\<lambda>t. t\<lparr>turn_phase := Breaking\<rparr>) h1"
    using c t(2) by (simp add: turn_answered_def Let_def)
  have "outbox h1 = outbox h" using repo_call_sel(5) [of a ?t h] c by simp
  moreover have "\<exists>t' \<in> set (turns (turn_answered t a h)). turn_id t' = turn_id t \<and> turn_phase t' = Breaking"
    using t(1) repo_call_frame(2) [OF c]
    by (auto simp: e change_turn_def intro!: bexI [of _ "t\<lparr>turn_phase := Breaking\<rparr>"] image_eqI [of _ _ t])
  ultimately show ?thesis by (simp add: e)
qed

text \<open>C27: \<open>done\<close> says the text is final, and it is: when the responder is exhausted and the write of the
  reply is answered, the row is complete, under the turn's number, with exactly the concatenation of
  the chunks; the frame is queued after that, behind all the reply's chunks. A write that is not
  answered queues no \<open>done\<close> and leaves the turn to be marked failed.\<close>

theorem done_means_stored:
  assumes cap: "0 \<le> ws_max_concurrent_turns cfg" "sys_ok db"
    and h: "h = served cfg parse sid db evs"
    and t: "t \<in> set (turns h)" "turn_phase t = Completing"
    and h': "h' = handle cfg parse (TurnAnswered (turn_id t) a) h"
  shows "if over a = Works
     then (\<exists>m \<in> set (chat_messages (h_db h')). message_id m = message_id (turn_reply t) \<and>
          seq m = seq (turn_reply t) \<and> msg_status m = COMPLETE \<and> msg_text m = concat (turn_chunks t)) \<and>
       (open_out h' \<longrightarrow> outbox h' = outbox h @ [DoneFrame (reply_hex t) (seq (turn_reply t))] \<and>
          stream (reply_hex t) (outbox h) = deltas (reply_hex t) (turn_chunks t))
     else outbox h' = outbox h \<and>
       (\<exists>t' \<in> set (turns h'). turn_id t' = turn_id t \<and> turn_phase t' = Breaking)"
proof -
  have ok: "handler_ok cfg h" using cap by (simp add: h ok_served)
  have h'_eq: "h' = turn_answered t a h" using t(2) by (simp add: h' with_turn_def unique_turn [OF ok t(1)])
  show ?thesis
  proof (cases "over a = Works")
    case w: True
    obtain db' where e: "h' = change_turn (turn_id t) (\<lambda>t. t\<lparr>turn_phase := Ended\<rparr>)
          (say (DoneFrame (reply_hex t) (seq (turn_reply t))) (h\<lparr>h_db := db'\<rparr>))"
      and row: "\<exists>m \<in> set (chat_messages db'). message_id m = message_id (turn_reply t) \<and>
          seq m = seq (turn_reply t) \<and> msg_status m = COMPLETE \<and> msg_text m = concat (turn_chunks t)"
      using completing_stores [OF ok t w] by (auto simp: h'_eq)
    have "open_out h' \<longrightarrow> outbox h' = outbox h @ [DoneFrame (reply_hex t) (seq (turn_reply t))] \<and> open_out h"
      unfolding e by (cases rule: say_cases [of "h\<lparr>h_db := db'\<rparr>" "DoneFrame (reply_hex t) (seq (turn_reply t))"]) simp_all
    with running_stream(4) [OF ok t(1)] t(2) row w show ?thesis by (simp add: e)
  qed (use completing_unanswered [OF t] in \<open>simp add: h'_eq\<close>)
qed

theorem done_means_stored_witness:
  "\<exists>m \<in> set (chat_messages (h_db (handle default_settings demo_parse (TurnAnswered 0 (reply_at 9 0))
      (demo_served (asked @ [Begins 0, Yields 0 ''yes'', Exhausts 0]))))).
     message_id m = 22 \<and> msg_text m = ''yes''"
proof -
  let ?t = "demo_turn\<lparr>turn_chunks := [''yes''], turn_index := 1, turn_phase := Completing\<rparr>"
  have "turns (demo_served (asked @ [Begins 0, Yields 0 ''yes'', Exhausts 0])) = [?t]"
    by (simp add: served_def serve_run_append)
       (simp add: asked_state [unfolded served_def] with_turn_def turn_of_def turn_begins_def
         change_turn_def turn_yields_def set_phase_def demo_turn_def)
  then have t: "?t \<in> set (turns (demo_served (asked @ [Begins 0, Yields 0 ''yes'', Exhausts 0])))" by simp
  have "over (reply_at 9 0) = Works" by (simp add: reply_at_def)
  with done_means_stored [OF _ sys_ok_empty refl t _ refl, of "reply_at 9 0"] show ?thesis
    by (auto simp: demo_turn_def)
qed

text \<open>What a replay asks for, one entry more than it may send, tells whether the cursor is too old.\<close>

lemma missed_entries:
  assumes "sys_ok db" "chat_sessions db sid = Some c" "0 \<le> after"
  shows "n < length (log_since sid after (n + 1) db) \<longleftrightarrow> int n < next_seq c - 1 - after"
    and "\<not> int n < next_seq c - 1 - after \<Longrightarrow>
      map entry_seq (log_since sid after (n + 1) db) = [after + 1..next_seq c - 1]"
    and "set (log_since sid after k db) \<subseteq> set (session_log sid db)"
proof -
  let ?missed = "log_since sid after (n + 1) db"
  have seqs: "map entry_seq ?missed = [after + 1..min (next_seq c - 1) (after + int (n + 1))]"
    by (rule replay_seqs [OF assms])
  then have len: "length ?missed = nat (min (next_seq c - 1) (after + int (n + 1)) - after)"
    by (metis length_map length_upto add_diff_cancel_right' diff_diff_eq2 diff_add_eq)
  show "n < length ?missed \<longleftrightarrow> int n < next_seq c - 1 - after"
    unfolding len using assms(3) by linarith
  show "map entry_seq ?missed = [after + 1..next_seq c - 1]" if "\<not> int n < next_seq c - 1 - after"
    using seqs that by (simp add: min_def split: if_splits)
  show "set (log_since sid after k db) \<subseteq> set (session_log sid db)"
    by (auto simp: log_since_window dest!: in_set_takeD)
qed

lemma conn_replayed: "h_conn (fold (\<lambda>e. say (replayed e)) es g) = send_all (map replayed es) (h_conn g)"
  by (induction es arbitrary: g) (simp_all add: say_def)

lemma replay_frame:
  "wire (fold (\<lambda>e. say (replayed e)) es g) = wire g"
  "writer_end (fold (\<lambda>e. say (replayed e)) es g) = writer_end g"
  "closing (fold (\<lambda>e. say (replayed e)) es g) = closing g"
  "reader (fold (\<lambda>e. say (replayed e)) es g) = reader g"
  "turns (fold (\<lambda>e. say (replayed e)) es g) = turns g"
  by (induction es arbitrary: g) simp_all

lemma resumed:
  assumes ok: "handler_ok cfg h" and r: "reader h = Replaying after" "0 \<le> after"
    and c: "chat_sessions (run (before a) (h_db h)) (sid_of h) = Some c"
    and h': "h' = handle cfg parse (ReaderAnswered a) h"
  shows "reader h' = Reading \<and> turns h' = turns h \<and>
     (if over a \<noteq> Works
      then h_conn h' = send (ErrorFrame INTERNAL ''the session could not be replayed'' True) (h_conn h)
      else if int (ws_resume_max_messages cfg) < next_seq c - 1 - after
      then h_conn h' = send (too_old cfg after) (h_conn h)
      else \<exists>entries. map entry_seq entries = [after + 1..next_seq c - 1] \<and>
              set entries \<subseteq> set (session_log (sid_of h) (run (before a) (h_db h))) \<and>
              h_conn h' = send_all (map replayed entries) (h_conn h))"
proof -
  let ?h = "h\<lparr>reader := Reading\<rparr>" and ?db = "run (before a) (h_db h)"
  let ?t = "\<lambda>_ _ db. Inr (log_since (sid_of h) after (ws_resume_max_messages cfg + 1) db, db) :: db_error + (log_entry list \<times> db)"
  have sok: "sys_ok ?db" by (rule run_sys_ok) (use handler_okD(2) [OF ok] in \<open>simp add: rows_ok_def\<close>)
  let ?missed = "log_since (sid_of h) after (ws_resume_max_messages cfg + 1) ?db"
  note missed = missed_entries [OF sok c r(2), of "ws_resume_max_messages cfg"]
  have e: "h' = resume_answered cfg after a ?h" using r(1) by (simp add: h' reader_answered_def)
  show ?thesis
  proof (cases "over a = Works")
    case False
    then obtain h1 where c1: "repo_call a ?t ?h = (None, h1)"
      using repo_call_fails [OF False, of ?t ?h] by (cases "repo_call a ?t ?h") auto
    have "h' = say (ErrorFrame INTERNAL ''the session could not be replayed'' True) h1"
      using c1 by (simp add: e resume_answered_def Let_def)
    with False repo_call_frame [OF c1] show ?thesis by (simp add: say_def)
  next
    case True
    have "repo_call a ?t ?h = (Some ?missed, ?h\<lparr>h_db := ?db\<rparr>)"
      by (rule repo_call_works [OF True]) simp
    then have h'_eq: "h' = (if ws_resume_max_messages cfg < length ?missed then say (too_old cfg after) (?h\<lparr>h_db := ?db\<rparr>)
        else fold (\<lambda>e. say (replayed e)) ?missed (?h\<lparr>h_db := ?db\<rparr>))"
      by (simp add: e resume_answered_def Let_def)
    show ?thesis
    proof (cases "ws_resume_max_messages cfg < length ?missed")
      case old: True
      with True missed(1) h'_eq show ?thesis by (simp add: say_def)
    next
      case new: False
      with missed(1) have all: "map entry_seq ?missed = [after + 1..next_seq c - 1]" by (intro missed(2)) simp
      have conn: "h_conn h' = send_all (map replayed ?missed) (h_conn h)" "reader h' = Reading" "turns h' = turns h"
        using new h'_eq by (simp_all add: conn_replayed replay_frame)
      have "\<exists>entries. map entry_seq entries = [after + 1..next_seq c - 1] \<and>
          set entries \<subseteq> set (session_log (sid_of h) ?db) \<and> h_conn h' = send_all (map replayed entries) (h_conn h)"
        by (intro exI [of _ ?missed] conjI all missed_entries(3) [OF sok c r(2)] conn(1))
      with new True missed(1) conn(2,3) show ?thesis by simp
    qed
  qed
qed

text \<open>C28: A resume that fits in the send queue delivers everything the session recorded after the cursor,
  in order and without a hole; one further behind than the limit gets exactly \<open>resume_too_old\<close> and
  no entry, so the client never advances over a gap; one the database did not answer gets a
  retryable error. The turns are untouched and the reader goes on.\<close>

theorem resume_replays_or_refuses:
  assumes cap: "0 \<le> ws_max_concurrent_turns cfg" "sys_ok db"
    and h: "h = served cfg parse sid db evs" and r: "reader h = Replaying after" "0 \<le> after"
    and c: "chat_sessions (run (before a) (h_db h)) sid = Some c"
    and h': "h' = handle cfg parse (ReaderAnswered a) h"
  shows "reader h' = Reading \<and> turns h' = turns h \<and>
     (if over a \<noteq> Works
      then h_conn h' = send (ErrorFrame INTERNAL ''the session could not be replayed'' True) (h_conn h)
      else if int (ws_resume_max_messages cfg) < next_seq c - 1 - after
      then h_conn h' = send (too_old cfg after) (h_conn h)
      else \<exists>entries. map entry_seq entries = [after + 1..next_seq c - 1] \<and>
             set entries \<subseteq> set (session_log sid (run (before a) (h_db h))) \<and>
             h_conn h' = send_all (map replayed entries) (h_conn h))"
proof -
  have ok: "handler_ok cfg h" and sid: "sid_of h = sid" using cap by (simp_all add: h ok_served)
  show ?thesis by (rule resumed [OF ok r _ h', unfolded sid, OF c])
qed


lemma resuming_state:
  "reader (demo_served [ReaderAnswered (reply_at 1 0), Receives ''resume'']) = Replaying 0"
  "h_conn (demo_served [ReaderAnswered (reply_at 1 0), Receives ''resume'']) = new_connection 7 64"
  "h_db (demo_served [ReaderAnswered (reply_at 1 0), Receives ''resume'']) = run [EnsureSession 1 7] empty_db"
  by (simp_all add: handler_eval commit_def)

theorem resume_replays_or_refuses_witness:
  "\<exists>entries. map entry_seq entries = [1..2] \<and>
     h_conn (handle default_settings demo_parse
       (ReaderAnswered (reply_at 9 0\<lparr>before := [RecordUser 2 11 7 ''c1'' ''hi'', StartAssistant 3 12 7]\<rparr>))
       (demo_served [ReaderAnswered (reply_at 1 0), Receives ''resume''])) =
     send_all (map replayed entries) (new_connection 7 64)"
proof -
  let ?a = "reply_at 9 0\<lparr>before := [RecordUser 2 11 7 ''c1'' ''hi'', StartAssistant 3 12 7]\<rparr>"
  have "run (before ?a) (run [EnsureSession 1 7] empty_db) = demo_chat"
    by (simp add: demo_chat_def)
  then have c: "chat_sessions (run (before ?a) (h_db (demo_served [ReaderAnswered (reply_at 1 0), Receives ''resume'']))) 7 =
      Some \<lparr>next_seq = 3, session_created_at = 1, last_seen_at = 3\<rparr>"
    by (simp only: resuming_state demo_chat_session)
  have "over ?a = Works" by (simp add: reply_at_def)
  with resume_replays_or_refuses [OF _ sys_ok_empty refl resuming_state(1) _ c refl] show ?thesis
    by (auto simp: resuming_state)
qed

text \<open>A burst that does not fit is dropped whole at the writer's next turn.\<close>

lemma burst_dropped:
  assumes "\<not> overflowed c" "0 < out_max c" "out c = []" "out_max c < int (length fs)"
    and "h_conn h = send_all fs c" "writer_end h = None" "closing h = None"
  shows "wire (writer_turns reaches h) = wire h \<and>
     writer_end (writer_turns reaches h) = Some (ReturnedCode WS_TRY_AGAIN_LATER)"
proof -
  have room: "room c = nat (out_max c)" "within_bound c" using assms(2,3) by (simp_all add: room_def within_bound_def)
  have "h_conn h = c\<lparr>out := map Frame (take (room c) fs), overflowed := True\<rparr>"
    unfolding assms(5) by (subst send_all_overflows) (use assms room in simp_all)
  moreover obtain g gs where "take (room c) fs = g # gs"
    using assms(2,4) room by (cases fs; cases "nat (out_max c)") auto
  ultimately have "out (h_conn h) = Frame g # map Frame gs" "overflowed (h_conn h)" by simp_all
  then show ?thesis using assms(6,7) by (simp add: writer_turns_def writer_step_def)
qed

text \<open>C29: A long resume is never delivered. With a send queue of \<open>64\<close> and a limit of \<open>200\<close>, a client that
  is more than \<open>64\<close> and at most \<open>200\<close> entries behind is told neither \<open>resume_too_old\<close> nor what it
  missed: the replay is queued in one stretch, overflows the queue, and the writer's first turn
  closes with \<open>1013\<close> having put nothing on the wire. The next connection meets the same fate.\<close>

theorem long_resume_never_delivers:
  assumes q: "0 < ws_send_queue_size cfg" and db: "sys_ok db"
    and opened: "over a0 = Works"
    and raw: "parse raw = Inr (Resume v after)" "v \<le> PROTOCOL_VERSION" "0 \<le> after"
    and log: "over a = Works"
      "chat_sessions (run (before a) (h_db (served cfg parse sid db [ReaderAnswered a0, Receives raw]))) sid = Some c"
      "ws_send_queue_size cfg < next_seq c - 1 - after"
      "next_seq c - 1 - after \<le> int (ws_resume_max_messages cfg)"
    and cap: "0 \<le> ws_max_concurrent_turns cfg"
  shows "let h = served cfg parse sid db [ReaderAnswered a0, Receives raw, ReaderAnswered a, WriterTurn reaches]
     in wire h = [] \<and> writer_end h = Some (ReturnedCode WS_TRY_AGAIN_LATER)"
proof -
  define h where "h = served cfg parse sid db [ReaderAnswered a0, Receives raw]"
  have ok: "handler_ok cfg h" "sid_of h = sid" using cap db by (simp_all add: h_def ok_served)
  let ?new = "new_connection sid (ws_send_queue_size cfg)"
  obtain db0 where e0: "ensure_session (at_time a0) sid (run (before a0) db) = Inr ((), db0)"
    by (cases "chat_sessions (run (before a0) db) sid") (simp_all add: ensure_session_def)
  have start: "repo_call a0 (\<lambda>now _. ensure_session now sid) (new_handler cfg sid db) =
      (Some (), (new_handler cfg sid db)\<lparr>h_db := db0\<rparr>)"
    by (rule repo_call_works [OF opened]) (simp add: e0 new_handler_def)
  have "h = (new_handler cfg sid db)\<lparr>h_db := db0, reader := Replaying after\<rparr>"
    using start raw by (simp add: h_def served_def reader_answered_def dispatch_def new_handler_def new_connection_def)
  then have h: "reader h = Replaying after" "h_conn h = ?new" "wire h = []" "writer_end h = None" "closing h = None"
    by (simp_all add: new_handler_def)
  define h' where "h' = handle cfg parse (ReaderAnswered a) h"
  obtain entries where en: "map entry_seq entries = [after + 1..next_seq c - 1]"
      "h_conn h' = send_all (map replayed entries) ?new" "reader h' = Reading"
    using resumed [OF ok(1) h(1) raw(3) _ h'_def, of c] log h(2) ok(2) by (auto simp: h_def)
  have quiet: "wire h' = []" "writer_end h' = None" "closing h' = None"
    using h unfolding h'_def
    by (simp_all add: reader_answered_def resume_answered_def Let_def repo_call_def replay_frame
        split: prod.splits sum.splits option.splits)
  have "length entries = nat (next_seq c - 1 - after)" using arg_cong [OF en(1), of length] by simp
  with en(2) quiet q log(3) have "wire (writer_turns reaches h') = [] \<and>
      writer_end (writer_turns reaches h') = Some (ReturnedCode WS_TRY_AGAIN_LATER)"
    using burst_dropped [of ?new "map replayed entries" h' reaches] by (simp add: new_connection_def)
  moreover have "served cfg parse sid db [ReaderAnswered a0, Receives raw, ReaderAnswered a, WriterTurn reaches] =
      handle cfg parse (WriterTurn reaches) h'"
    by (simp add: served_def h'_def h_def)
  ultimately show ?thesis using quiet en(3) by (simp add: Let_def)
qed


theorem long_resume_never_delivers_witness:
  "let h = served (default_settings\<lparr>ws_send_queue_size := 1\<rparr>) demo_parse 7 demo_chat
       [ReaderAnswered (reply_at 4 0), Receives ''resume'', ReaderAnswered (reply_at 5 0), WriterTurn True]
   in wire h = [] \<and> writer_end h = Some (ReturnedCode WS_TRY_AGAIN_LATER)"
proof -
  let ?cfg = "default_settings\<lparr>ws_send_queue_size := 1\<rparr>"
  let ?h = "served ?cfg demo_parse 7 demo_chat [ReaderAnswered (reply_at 4 0), Receives ''resume'']"
  define db where "db = demo_chat"
  have e: "ensure_session 4 7 db = Inr ((), db)"
    using demo_chat_session by (simp add: ensure_session_def db_def)
  have "h_db ?h = demo_chat"
    using e unfolding db_def [symmetric]
    by (simp add: served_def new_handler_def new_connection_def reader_answered_def repo_call_def
        call_txn_def reply_at_def dispatch_def PROTOCOL_VERSION_def)
  then have c: "chat_sessions (run (before (reply_at 5 0)) (h_db ?h)) 7 =
      Some \<lparr>next_seq = 3, session_created_at = 1, last_seen_at = 3\<rparr>"
    by (simp only: reply_at_def answer.simps run.simps demo_chat_session)
  show ?thesis
    by (rule long_resume_never_delivers [OF _ demo_chat_ok _ _ _ _ _ c, where v = 1 and after = 0])
       (simp_all add: reply_at_def PROTOCOL_VERSION_def)
qed

subsection \<open>A key that will never have a turn\<close>

definition unserved :: "string \<Rightarrow> handler \<Rightarrow> bool" where
  "unserved key h \<longleftrightarrow> (\<exists>i n. stored (h_db h) (sid_of h) i n (Some key)) \<and>
     key \<notin> turn_key ` set (turns h) \<and> (\<forall>b rec. reader h \<noteq> Starting key b rec)"

lemma unserved_frame:
  assumes "unserved key h" "later (h_db h) (h_db h')" "sid_of h' = sid_of h"
    "turn_key ` set (turns h') \<subseteq> turn_key ` set (turns h)"
    "reader h' = reader h \<or> (\<forall>k b rec. reader h' \<noteq> Starting k b rec)"
  shows "unserved key h'"
  using assms unfolding unserved_def later_def by (metis subsetD)

lemma change_turn_keys: "same_turn f \<Longrightarrow> turn_key ` set (turns (change_turn i f h)) = turn_key ` set (turns h)"
  using same_turn_map(2) [of f i h] by (metis list.set_map)

lemma turn_answered_keys: "turn_key ` set (turns (turn_answered t a h)) = turn_key ` set (turns h)"
  "reader (turn_answered t a h) = reader h"
proof -
  let ?mid = "message_id (turn_reply t)"
  obtain r h1 where c: "repo_call a (\<lambda>now _. complete_assistant_message now ?mid (concat (turn_chunks t))) h = (r, h1)"
    by fastforce
  show "turn_key ` set (turns (turn_answered t a h)) = turn_key ` set (turns h)"
    "reader (turn_answered t a h) = reader h"
    using c repo_call_frame [OF c]
    by (cases "turn_phase t"; cases r; simp add: turn_answered_def Let_def change_turn_keys)+
qed

lemma reader_answered_unserved:
  assumes ok: "handler_ok cfg h" and u: "unserved key h"
  shows "unserved key (reader_answered cfg a h)"
proof -
  have l: "later (h_db h) (h_db (reader_answered cfg a h))" "sid_of (reader_answered cfg a h) = sid_of h"
    using reader_answered_later [OF ok] by simp_all
  have st: "\<exists>i n. stored (h_db (reader_answered cfg a h)) (sid_of h) i n (Some key)"
    using u l(1) by (auto simp: unserved_def later_def) blast
  show ?thesis
  proof (cases "reader h")
    case (Recording k body)
    obtain r h1 where c: "repo_call a (\<lambda>now mid. record_user_message now mid (sid_of h) k body) h = (r, h1)"
      by fastforce
    have "rec_created rec \<Longrightarrow> r = Some rec \<Longrightarrow> k \<noteq> key" for rec
    proof
      assume r: "rec_created rec" "r = Some rec" "k = key"
      obtain db where "record_user_message (at_time a) (minted_id a) (sid_of h) k body (run (before a) (h_db h)) = Inr (rec, db)"
        using repo_call_Some [OF c [unfolded r(2)]] by blast
      note none = record_Inr(2) [OF this r(1)]
      have "later (h_db h) (run (before a) (h_db h))"
        by (rule later_run) (use handler_okD(2) [OF ok] in \<open>simp add: rows_ok_def\<close>)
      with u none r(3) show False unfolding unserved_def later_def by blast
    qed
    with u st l c Recording repo_call_frame [OF c] show ?thesis
      by (auto simp: unserved_def reader_answered_def record_answered_def split: option.splits)
  next
    case (Starting k body rec)
    obtain r h1 where c: "repo_call a (\<lambda>now mid. start_assistant_message now mid (sid_of h)) h = (r, h1)"
      by fastforce
    have "k \<noteq> key" using u Starting by (auto simp: unserved_def)
    with u st l c Starting repo_call_frame [OF c] show ?thesis
      by (auto simp: unserved_def reader_answered_def start_answered_def spawn_def Let_def split: option.splits)
  next
    case Opening
    obtain r h1 where c: "repo_call a (\<lambda>now _. ensure_session now (sid_of h)) h = (r, h1)" by fastforce
    with u st l Opening repo_call_frame [OF c] show ?thesis
      by (auto simp: unserved_def reader_answered_def split: option.splits)
  next
    case (Replaying after)
    let ?t = "\<lambda>_ _ db. Inr (log_since (sid_of h) after (ws_resume_max_messages cfg + 1) db, db) ::
        db_error + (log_entry list \<times> db)"
    obtain r h1 where c: "repo_call a ?t (h\<lparr>reader := Reading\<rparr>) = (r, h1)" by fastforce
    with u st l Replaying repo_call_frame [OF c] show ?thesis
      by (auto simp: unserved_def reader_answered_def resume_answered_def Let_def split: option.splits)
  qed (use u in \<open>simp_all add: reader_answered_def\<close>)
qed

lemma handle_unserved:
  assumes ok: "handler_ok cfg h" and u: "unserved key h"
  shows "unserved key (handle cfg parse e h)"
proof -
  have l: "later (h_db h) (h_db (handle cfg parse e h))" "sid_of (handle cfg parse e h) = sid_of h"
    using handle_later [OF ok] by simp_all
  show ?thesis
  proof (cases e)
    case (ReaderAnswered a)
    then show ?thesis using reader_answered_unserved [OF ok u] by simp
  next
    case (TurnAnswered i a)
    have "turn_key ` set (turns (handle cfg parse e h)) = turn_key ` set (turns h)"
      "reader (handle cfg parse e h) = reader h"
      by (simp_all add: TurnAnswered with_turn_def turn_answered_keys split: option.splits)
    then show ?thesis by (intro unserved_frame [OF u l]) auto
  next
    case (Receives raw)
    have "turns (dispatch cfg parse raw h) = turns h" "\<forall>k b rec. reader (dispatch cfg parse raw h) \<noteq> Starting k b rec"
      if "reader h = Reading"
      using that by (auto simp: dispatch_def split: sum.splits client_frame.splits)
    then show ?thesis by (intro unserved_frame [OF u l]) (auto simp: Receives)
  qed (intro unserved_frame [OF u l];
       auto simp: with_turn_def reap_turn_def turn_begins_def turn_yields_def set_phase_def change_turn_def
         serve_wakes_def Let_def stop_reading_def cancel_turns_def split: option.splits reader.splits)+
qed


text \<open>A reply that could not be opened is never opened. When \<open>start_assistant_message\<close> fails after
  \<open>record_user_message\<close> committed, the client is told, retryably, that the message was not stored;
  but it was, so every resubmission finds the key recorded: whatever happens next on the
  connection, no turn for that message ever runs, and an answered resubmission gets an
  acknowledgement that names no reply.\<close>

theorem failed_start_loses_the_turn:
  assumes cap: "0 \<le> ws_max_concurrent_turns cfg" "sys_ok db"
    and h: "h = served cfg parse sid db evs" and r: "reader h = Starting key body rec"
    and a: "over a \<noteq> Works"
    and h1: "h1 = handle cfg parse (ReaderAnswered a) h"
  shows "h_conn h1 = send not_stored (h_conn h) \<and>
     (\<exists>m \<in> set (chat_messages (h_db h1)). msg_session m = sid \<and> client_msg_id m = Some key) \<and>
     (let h2 = serve_run cfg parse later_evs h1 in
        key \<notin> turn_key ` set (turns h2) \<and>
        (\<forall>body2 a2 m db2. reader h2 = Recording key body2 \<and> over a2 = Works \<and>
           record_user_message (at_time a2) (minted_id a2) sid key body2 (run (before a2) (h_db h2)) = Inr (m, db2) \<longrightarrow>
           h_conn (handle cfg parse (ReaderAnswered a2) h2) = send (ack_frame key (rec_message m) None) (h_conn h2)))"
proof -
  have ok: "handler_ok cfg h" using cap by (simp add: h ok_served)
  have sid: "sid_of h = sid" using cap by (simp add: h)
  have ro: "rows_ok h" by (rule handler_okD [OF ok])
  obtain g where c: "repo_call a (\<lambda>now mid. start_assistant_message now mid (sid_of h)) h = (None, g)"
    using repo_call_fails [OF a] by (metis prod.collapse)
  have e: "h1 = say not_stored (g\<lparr>reader := Reading\<rparr>)"
    using c r by (simp add: h1 reader_answered_def start_answered_def)
  have l: "later (h_db h) (h_db h1)" "sid_of h1 = sid"
    using handle_later [OF ok, of parse "ReaderAnswered a"] sid by (simp_all add: h1)
  have u: "unserved key h1"
    using ro r l sid repo_call_frame [OF c]
    by (auto simp: unserved_def rows_ok_def later_def e) blast
  let ?h2 = "serve_run cfg parse later_evs h1"
  have ok1: "handler_ok cfg h1" unfolding h1 by (rule ok_handle [OF ok])
  have "handler_ok cfg ?h2 \<and> unserved key ?h2"
    by (rule serve_run_induct [where Q = "\<lambda>h. handler_ok cfg h \<and> unserved key h"])
       (use ok1 u in \<open>auto simp: ok_handle handle_unserved\<close>)
  then have ok2: "handler_ok cfg ?h2" and u2: "unserved key ?h2" by simp_all
  have sid2: "sid_of ?h2 = sid" using serve_run_later [OF ok1] l(2) by simp
  have live: "live_replies ?h2 key = None"
    using handler_okD(1) [OF ok2] u2 by (auto simp: control_ok_def unserved_def map_of_eq_None_iff)
  have ans: "h_conn (handle cfg parse (ReaderAnswered a2) ?h2) = send (ack_frame key (rec_message m) None) (h_conn ?h2)"
    if q: "reader ?h2 = Recording key body2" "over a2 = Works"
      "record_user_message (at_time a2) (minted_id a2) sid key body2 (run (before a2) (h_db ?h2)) = Inr (m, db2)"
    for body2 a2 m db2
  proof -
    have "later (h_db ?h2) (run (before a2) (h_db ?h2))"
      by (rule later_run) (use handler_okD(2) [OF ok2] in \<open>simp add: rows_ok_def\<close>)
    then have "\<exists>i n. stored (run (before a2) (h_db ?h2)) sid i n (Some key)"
      using u2 sid2 unfolding unserved_def later_def by blast
    then have "\<not> rec_created m" using record_Inr(2) [OF q(3)] by blast
    moreover have "repo_call a2 (\<lambda>now mid. record_user_message now mid sid key body2) ?h2 = (Some m, ?h2\<lparr>h_db := db2\<rparr>)"
      by (rule repo_call_works [OF q(2)]) (simp add: q(3))
    ultimately show ?thesis
      using q(1) sid2 live by (simp add: reader_answered_def record_answered_def say_def)
  qed
  have "h_conn h1 = send not_stored (h_conn h)"
    using repo_call_frame(5) [OF c] by (simp add: e say_def)
  moreover have "\<exists>m \<in> set (chat_messages (h_db h1)). msg_session m = sid \<and> client_msg_id m = Some key"
    using u l(2) by (auto simp: unserved_def stored_def)
  ultimately show ?thesis using u2 ans unfolding Let_def unserved_def by blast
qed

lemma half_asked:
  "reader (demo_served [ReaderAnswered (reply_at 1 0), Receives ''ask'', ReaderAnswered (reply_at 2 21)]) =
     Starting ''k1'' ''hi'' \<lparr>rec_message = to_message (user_row 2 21 7 ''k1'' ''hi'' 1), rec_created = True\<rparr>"
  by (simp add: handler_eval)

theorem failed_start_loses_the_turn_witness:
  "''k1'' \<notin> turn_key ` set (turns (serve_run default_settings demo_parse
     [Receives ''ask'', ReaderAnswered (reply_at 5 31), ReaderAnswered (reply_at 6 32)]
     (handle default_settings demo_parse (ReaderAnswered (lost_at 3 22))
       (demo_served [ReaderAnswered (reply_at 1 0), Receives ''ask'', ReaderAnswered (reply_at 2 21)]))))"
  using failed_start_loses_the_turn [OF _ sys_ok_empty refl half_asked, of "lost_at 3 22" _
      "[Receives ''ask'', ReaderAnswered (reply_at 5 31), ReaderAnswered (reply_at 6 32)]"]
  by (simp add: lost_at_def Let_def)

subsection \<open>A reply nobody finishes\<close>

fun leaves_alone :: "event \<Rightarrow> bool" where
  "leaves_alone (ReaderAnswered a) \<longleftrightarrow> before a = []"
| "leaves_alone (TurnAnswered i a) \<longleftrightarrow> before a = []"
| "leaves_alone e \<longleftrightarrow> True"

text \<open>The row is as it was, and every turn that streams into it has ended.\<close>

definition abandoned :: "message_row \<Rightarrow> handler \<Rightarrow> bool" where
  "abandoned m h \<longleftrightarrow> m \<in> set (chat_messages (h_db h)) \<and>
     (\<forall>t \<in> set (turns h). message_id (turn_reply t) = message_id m \<longrightarrow> turn_phase t = Ended)"

lemma repo_call_keeps:
  assumes "repo_call a t h = (r, h1)" "before a = []" "m \<in> set (chat_messages (h_db h))"
    and "\<And>now mid x db'. t now mid (h_db h) = Inr (x, db') \<Longrightarrow> m \<in> set (chat_messages db')"
  shows "m \<in> set (chat_messages (h_db h1))"
  using assms by (auto simp: repo_call_def call_txn_def Let_def split: link.splits sum.splits prod.splits)

lemma finish_other:
  assumes "finish_message now mid st body db = Inr (u, db')" "m \<in> set (chat_messages db)" "message_id m \<noteq> mid"
  shows "m \<in> set (chat_messages db')"
  using assms by (auto simp: finish_message_def set_update_where)

lemma reader_answered_keeps:
  assumes ok: "handler_ok cfg h" and m: "abandoned m h" and b: "before a = []"
  shows "abandoned m (reader_answered cfg a h)"
proof -
  have row: "m \<in> set (chat_messages (h_db h))" using m by (simp add: abandoned_def)
  show ?thesis
  proof (cases "reader h")
    case Opening
    obtain r h1 where c: "repo_call a (\<lambda>now _. ensure_session now (sid_of h)) h = (r, h1)" by fastforce
    have "m \<in> set (chat_messages (h_db h1))"
      by (rule repo_call_keeps [OF c b row]) (use row in \<open>auto dest!: ensure_messages\<close>)
    with m Opening c repo_call_frame [OF c] show ?thesis
      by (auto simp: abandoned_def reader_answered_def split: option.splits)
  next
    case (Replaying after)
    let ?t = "\<lambda>_ _ db. Inr (log_since (sid_of h) after (ws_resume_max_messages cfg + 1) db, db) ::
        db_error + (log_entry list \<times> db)"
    obtain r h1 where c: "repo_call a ?t (h\<lparr>reader := Reading\<rparr>) = (r, h1)" by fastforce
    have "m \<in> set (chat_messages (h_db h1))"
      by (rule repo_call_keeps [OF c b]) (use row in auto)
    with m Replaying c repo_call_frame [OF c] show ?thesis
      by (auto simp: abandoned_def reader_answered_def resume_answered_def Let_def split: option.splits)
  next
    case (Recording k body)
    obtain r h1 where c: "repo_call a (\<lambda>now mid. record_user_message now mid (sid_of h) k body) h = (r, h1)"
      by fastforce
    have "m \<in> set (chat_messages (h_db h1))"
      by (rule repo_call_keeps [OF c b row]) (erule record_messages [OF _ row])
    with m Recording c repo_call_frame [OF c] show ?thesis
      by (auto simp: abandoned_def reader_answered_def record_answered_def split: option.splits)
  next
    case (Starting k body rec)
    obtain r h1 where c: "repo_call a (\<lambda>now mid. start_assistant_message now mid (sid_of h)) h = (r, h1)"
      by fastforce
    have row1: "m \<in> set (chat_messages (h_db h1))"
      by (rule repo_call_keeps [OF c b row]) (erule start_messages [OF _ row])
    have "message_id s \<noteq> message_id m" if rs: "r = Some s" for s
    proof -
      obtain db where "start_assistant_message (at_time a) (minted_id a) (sid_of h) (h_db h) = Inr (s, db)"
        using repo_call_Some [OF c [unfolded rs]] b by auto
      from start_Inr(2) [OF this, of "msg_session m" "seq m" "client_msg_id m"] row show ?thesis
        by (auto simp: stored_def)
    qed
    with row1 m Starting c repo_call_frame [OF c] show ?thesis
      by (auto simp: abandoned_def reader_answered_def start_answered_def spawn_def Let_def split: option.splits)
  qed (use m in \<open>simp_all add: reader_answered_def\<close>)
qed

lemma change_other:
  assumes "abandoned m h" "same_turn f" "message_id (turn_reply t) \<noteq> message_id m" "t \<in> set (turns h)"
    "distinct (map turn_id (turns h))"
  shows "abandoned m (change_turn (turn_id t) f h)"
  unfolding abandoned_def
proof (intro conjI ballI impI)
  show "m \<in> set (chat_messages (h_db (change_turn (turn_id t) f h)))" using assms(1) by (simp add: abandoned_def)
next
  fix u
  assume u: "u \<in> set (turns (change_turn (turn_id t) f h))" "message_id (turn_reply u) = message_id m"
  obtain v where v: "v \<in> set (turns h)" "u = (if turn_id v = turn_id t then f v else v)"
    using u(1) by (rule change_turn_set)
  have "turn_id v \<noteq> turn_id t"
  proof
    assume "turn_id v = turn_id t"
    then have "v = t" using distinct_key_eq [OF assms(5)] v(1) assms(4) by blast
    with v u(2) assms(2,3) show False by (simp add: same_turn_def)
  qed
  with v u(2) assms(1) show "turn_phase u = Ended" by (simp add: abandoned_def)
qed

lemma change_abandoned:
  assumes "handler_ok cfg h" "abandoned m h" "turn_of i h = Some t" "turn_phase t \<noteq> Ended" "same_turn f"
    and "turns g = turns h" "m \<in> set (chat_messages (h_db g))"
  shows "abandoned m (change_turn (turn_id t) f g)"
proof -
  have d: "distinct (map turn_id (turns h))" using handler_okD(1) [OF assms(1)] by (simp add: control_ok_def)
  have t: "t \<in> set (turns h)" using turn_ofD [OF assms(3)] by simp
  then have "message_id (turn_reply t) \<noteq> message_id m" using assms(2,4) by (auto simp: abandoned_def)
  with change_other [of m g f t] assms t d show ?thesis by (simp add: abandoned_def)
qed

lemma turn_answered_abandoned:
  assumes ok: "handler_ok cfg h" and m: "abandoned m h" and b: "before a = []"
    and t: "turn_of i h = Some t" "turn_phase t \<in> {Completing, Breaking, Stopping}"
  shows "abandoned m (turn_answered t a h)"
proof -
  let ?mid = "message_id (turn_reply t)"
  have row: "m \<in> set (chat_messages (h_db h))" using m by (simp add: abandoned_def)
  have "t \<in> set (turns h)" using turn_ofD [OF t(1)] by simp
  then have id: "message_id m \<noteq> ?mid" using m t(2) by (auto simp: abandoned_def)
  obtain r h1 where c: "repo_call a (\<lambda>now _. complete_assistant_message now ?mid (concat (turn_chunks t))) h = (r, h1)"
    by fastforce
  obtain s h2 where f: "repo_call a (\<lambda>now _. fail_assistant_message now ?mid) h = (s, h2)" by fastforce
  have row1: "m \<in> set (chat_messages (h_db h1))"
    by (rule repo_call_keeps [OF c b row])
       (use id in \<open>auto simp: complete_assistant_message_def intro: finish_other [OF _ row]\<close>)
  have row2: "m \<in> set (chat_messages (h_db h2))"
    by (rule repo_call_keeps [OF f b row])
       (use id in \<open>auto simp: fail_assistant_message_def intro: finish_other [OF _ row]\<close>)
  from c f row1 row2 repo_call_frame(2) [OF c] repo_call_frame(2) [OF f] t show ?thesis
    by (auto simp: turn_answered_def Let_def intro!: change_abandoned [OF ok m t(1)] split: option.splits)
qed

lemma handle_abandoned:
  assumes ok: "handler_ok cfg h" and m: "abandoned m h" and e: "leaves_alone e"
  shows "abandoned m (handle cfg parse e h)"
proof -
  note ch = change_abandoned [OF ok m]
  have row: "m \<in> set (chat_messages (h_db h))" using m by (simp add: abandoned_def)
  show ?thesis
  proof (cases e)
    case (ReaderAnswered a)
    then show ?thesis using reader_answered_keeps [OF ok m] e by simp
  next
    case (TurnAnswered i a)
    with turn_answered_abandoned [OF ok m, of a i] m e show ?thesis
      by (auto simp: with_turn_def split: option.splits)
  next
    case (Receives raw)
    have "turns (dispatch cfg parse raw h) = turns h" "h_db (dispatch cfg parse raw h) = h_db h"
      by (auto simp: dispatch_def split: sum.splits client_frame.splits)
    with m show ?thesis by (simp add: Receives abandoned_def)
  next
    case (Begins i)
    then show ?thesis using m ch [of i] row
      by (auto simp: with_turn_def turn_begins_def split: option.splits)
  next
    case (Yields i c)
    then show ?thesis using m ch [of i] row
      by (auto simp: with_turn_def turn_yields_def same_turn_def split: option.splits)
  next
    case (Exhausts i)
    then show ?thesis using m ch [of i] row
      by (auto simp: with_turn_def set_phase_def split: option.splits)
  next
    case (Breaks i)
    then show ?thesis using m ch [of i] row
      by (auto simp: with_turn_def set_phase_def split: option.splits)
  qed (use m in \<open>auto simp: abandoned_def with_turn_def reap_turn_def serve_wakes_def Let_def
         stop_reading_def cancel_turns_def split: option.splits reader.splits\<close>)
qed

lemma run_abandoned:
  assumes "handler_ok cfg g" "abandoned m g" "\<forall>e \<in> set es. leaves_alone e"
  shows "abandoned m (serve_run cfg parse es g)"
  using assms
proof (induction es arbitrary: g)
  case (Cons e es)
  then show ?case using handle_abandoned [OF Cons.prems(1,2)] ok_handle [OF Cons.prems(1)] by simp
qed simp

text \<open>C30: A turn whose task has not begun when the peer goes away leaves its reply streaming for ever.
  The comment in \<open>_run_turn\<close> has every cancelled turn mark its row failed, but a task cancelled before
  its first step never enters the body: the turn ends and nothing this connection does afterwards
  touches the row, which the next resume replays as a reply still in flight.\<close>

theorem early_disconnect_strands_reply:
  assumes cap: "0 \<le> ws_max_concurrent_turns cfg" "sys_ok db"
    and h: "h = served cfg parse sid db evs" and r: "reader h = Reading"
    and t: "t \<in> set (turns h)" "turn_phase t = Spawned"
    and m: "m \<in> set (chat_messages (h_db h))" "message_id m = message_id (turn_reply t)" "msg_status m = STREAMING"
    and quiet: "\<forall>e \<in> set evs'. leaves_alone e"
  shows "m \<in> set (chat_messages (h_db (serve_run cfg parse (PeerGone # evs') h)))"
proof -
  have ok: "handler_ok cfg h" using cap by (simp add: h ok_served)
  let ?h = "handle cfg parse PeerGone h"
  have c: "control_ok cfg h" by (rule handler_okD [OF ok])
  have only: "u = t" if "u \<in> set (turns h)" "message_id (turn_reply u) = message_id m" for u
    using distinct_key_eq [of reply_hex "turns h" u t] c that t(1) m(2)
    by (simp add: control_ok_def reply_hex_def)
  have "turn_phase u = Ended" if u: "u \<in> set (turns ?h)" "message_id (turn_reply u) = message_id m" for u
  proof -
    obtain v where v: "v \<in> set (turns h)" "u = v\<lparr>turn_phase := cancelled_phase (turn_phase v)\<rparr>"
      using u(1) r by (auto simp: stop_reading_def cancel_turns_def)
    then have "v = t" using only [OF v(1)] u(2) by simp
    with v(2) t(2) show ?thesis by simp
  qed
  then have "abandoned m ?h" using r m(1) by (simp add: abandoned_def)
  then have "abandoned m (serve_run cfg parse evs' ?h)"
    by (rule run_abandoned [OF ok_handle [OF ok] _ quiet])
  then have "abandoned m (serve_run cfg parse (PeerGone # evs') h)" by simp
  then show ?thesis by (simp add: abandoned_def)
qed

theorem early_disconnect_strands_reply_witness:
  "assistant_row 3 22 7 2 \<in> set (chat_messages (h_db (serve_run default_settings demo_parse
     [PeerGone, Begins 0, Yields 0 ''lost'', TurnAnswered 0 (reply_at 9 0), Reaps 0, Gathered]
     (demo_served asked))))"
  by (rule early_disconnect_strands_reply [OF _ sys_ok_empty refl asked_state(2), where t = demo_turn])
     (simp_all add: asked_state, simp_all add: demo_turn_def assistant_row_def reply_at_def)

end
