(* ===== verification/Py_Text.thy ===== *)
theory Py_Text
  imports Jobs Uuid
begin

text \<open>
  The text operations of Python that the sources use: \<open>repr\<close> and \<open>str\<close> of what they format, joining and
  splitting, and reading a decimal integer. Characters are code points below 256.
\<close>

subsection \<open>Formatting\<close>

definition hex_pair :: "nat \<Rightarrow> string" where
  "hex_pair n = [''0123456789abcdef'' ! (n div 16 mod 16), ''0123456789abcdef'' ! (n mod 16)]"

text \<open>\<open>repr\<close> of a string: single quotes unless only double quotes avoid escaping one.\<close>

definition repr_char :: "char \<Rightarrow> char \<Rightarrow> string" where
  "repr_char q c =
     (if c = q \<or> c = CHR 0x5C then [CHR 0x5C, c]
      else if c = CHR 0x0A then [CHR 0x5C, CHR ''n'']
      else if c = CHR 0x0D then [CHR 0x5C, CHR ''r'']
      else if c = CHR 0x09 then [CHR 0x5C, CHR ''t'']
      else if of_char c < (32 :: nat) \<or> of_char c = (127 :: nat) then CHR 0x5C # CHR ''x'' # hex_pair (of_char c)
      else [c])"

definition py_repr :: "string \<Rightarrow> string" where
  "py_repr s =
     (let q = (if CHR 0x27 \<in> set s \<and> CHR 0x22 \<notin> set s then CHR 0x22 else CHR 0x27)
      in q # concat (map (repr_char q) s) @ [q])"

definition two_digits :: "int \<Rightarrow> string" where
  "two_digits n = (if n < 10 then CHR ''0'' # int_text n else int_text n)"

definition six_digits :: "int \<Rightarrow> string" where
  "six_digits n = (let s = int_text n in replicate (6 - length s) (CHR ''0'') @ s)"

text \<open>\<open>str\<close> of a \<open>timedelta\<close>.\<close>

definition timedelta_str :: "time \<Rightarrow> string" where
  "timedelta_str d =
     (let days = d div 86400000000; us = d mod 86400000000;
          hh = us div 3600000000; mm = us div 60000000 mod 60; ss = us div 1000000 mod 60;
          frac = us mod 1000000
      in (if days = 0 then [] else int_text days @ '' day'' @ (if \<bar>days\<bar> \<noteq> 1 then ''s'' else []) @ '', '') @
         int_text hh @ '':'' @ two_digits mm @ '':'' @ two_digits ss @
         (if frac = 0 then [] else ''.'' @ six_digits frac))"

fun join :: "string \<Rightarrow> string list \<Rightarrow> string" where
  "join sep [] = []"
| "join sep [x] = x"
| "join sep (x # y # xs) = x @ sep @ join sep (y # xs)"

subsection \<open>Values of a payload as text\<close>

text \<open>\<open>repr\<close> and \<open>str\<close> of a JSON value; \<open>fr\<close> is \<open>repr\<close> of a float.\<close>

fun json_repr :: "(rat \<Rightarrow> string) \<Rightarrow> json \<Rightarrow> string" where
  "json_repr fr JNull = ''None''"
| "json_repr fr (JBool b) = (if b then ''True'' else ''False'')"
| "json_repr fr (JInt n) = int_text n"
| "json_repr fr (JReal q) = fr q"
| "json_repr fr (JStr s) = py_repr s"
| "json_repr fr (JArr js) = ''['' @ join '', '' (map (json_repr fr) js) @ '']''"
| "json_repr fr (JObj kvs) = CHR 0x7B # join '', '' (map (\<lambda>kv. py_repr (fst kv) @ '': '' @ json_repr fr (snd kv)) kvs) @ [CHR 0x7D]"

definition json_str :: "(rat \<Rightarrow> string) \<Rightarrow> json \<Rightarrow> string" where
  "json_str fr j = (case j of JStr s \<Rightarrow> s | _ \<Rightarrow> json_repr fr j)"

fun json_type :: "json \<Rightarrow> string" where
  "json_type JNull = ''NoneType''"
| "json_type (JBool _) = ''bool''"
| "json_type (JInt _) = ''int''"
| "json_type (JReal _) = ''float''"
| "json_type (JStr _) = ''str''"
| "json_type (JArr _) = ''list''"
| "json_type (JObj _) = ''dict''"

fun truthy :: "json \<Rightarrow> bool" where
  "truthy JNull = False"
| "truthy (JBool b) = b"
| "truthy (JInt n) = (n \<noteq> 0)"
| "truthy (JReal q) = (q \<noteq> 0)"
| "truthy (JStr s) = (s \<noteq> [])"
| "truthy (JArr js) = (js \<noteq> [])"
| "truthy (JObj kvs) = (kvs \<noteq> [])"

subsection \<open>Reading an integer\<close>

text \<open>\<open>int(text)\<close>, with its limit of 4300 digits.\<close>

definition dec_val :: "char \<Rightarrow> nat option" where
  "dec_val c = (let n = of_char c in if 48 \<le> n \<and> n \<le> 57 then Some (n - 48) else None)"

fun dec_number :: "nat \<Rightarrow> string \<Rightarrow> nat option" where
  "dec_number acc [] = None"
| "dec_number acc [c] = map_option (\<lambda>d. 10 * acc + d) (dec_val c)"
| "dec_number acc (c # d # s) =
     (case dec_val c of
        None \<Rightarrow> None
      | Some v \<Rightarrow> if d = CHR ''_'' then dec_number (10 * acc + v) s
                  else dec_number (10 * acc + v) (d # s))"

definition int_digits :: "string \<Rightarrow> int option" where
  "int_digits s =
     (if 4300 < length (filter (\<lambda>c. c \<noteq> CHR ''_'') s) then None else map_option int (dec_number 0 s))"

definition int_base10 :: "string \<Rightarrow> int option" where
  "int_base10 s =
     (case strip_chars blank s of
        [] \<Rightarrow> None
      | c # t \<Rightarrow> if c = CHR ''-'' then map_option uminus (int_digits t)
                 else if c = CHR ''+'' then int_digits t
                 else int_digits (c # t))"

subsection \<open>Splitting\<close>

text \<open>\<open>str.split()\<close>: the maximal runs of characters that are not white space.\<close>

definition white :: "char \<Rightarrow> bool" where
  "white c \<longleftrightarrow> (let n = (of_char c :: nat)
               in (9 \<le> n \<and> n \<le> 13) \<or> (28 \<le> n \<and> n \<le> 32) \<or> n = 133 \<or> n = 160)"

function split_words :: "string \<Rightarrow> string list" where
  "split_words s =
     (let t = dropWhile white s
      in if t = [] then []
         else takeWhile (\<lambda>c. \<not> white c) t # split_words (dropWhile (\<lambda>c. \<not> white c) t))"
  by pat_completeness auto
termination
proof (relation "measure length", simp)
  fix s t :: string
  assume t: "t = dropWhile white s" "t \<noteq> []"
  then have "\<not> white (hd t)" by (simp add: hd_dropWhile)
  with t(2) have "length (dropWhile (\<lambda>c. \<not> white c) t) < length t"
    by (cases t) (auto simp: le_imp_less_Suc length_dropWhile_le)
  moreover have "length t \<le> length s" by (simp add: t(1) length_dropWhile_le)
  ultimately show "(dropWhile (\<lambda>c. \<not> white c) t, s) \<in> measure length" by simp
qed

declare split_words.simps [simp del]

end
