(* ===== verification/Chat_Exchange.thy ===== *)
theory Chat_Exchange
  imports Handler_Properties Py_Text
begin

text \<open>
  \<open>core/responder.py\<close>, and one whole exchange of a chat over the machine of \<open>Chat_Handler\<close>: a message
  arrives, its rows are written, the turn streams the responder's chunks and the reply is finished.
  The theorem says what the peer has read and what the log holds at the end, when nothing fails and
  the writer keeps up.
\<close>

subsection \<open>The stub responder\<close>

definition respond :: "string \<Rightarrow> string list" where
  "respond txt' = ''echo: '' # map (\<lambda>w. w @ '' '') (split_words txt')"

subsection \<open>A connection that is keeping up\<close>

definition ready :: "handler \<Rightarrow> bool" where
  "ready h \<longleftrightarrow> reader h = Reading \<and> writer_end h = None \<and> closing h = None \<and>
     \<not> overflowed (h_conn h) \<and> out (h_conn h) = []"

definition on_wire :: "server_frame \<Rightarrow> handler \<Rightarrow> handler" where
  "on_wire f h = h\<lparr>wire := wire h @ [f]\<rparr>"

lemma say_then_write:
  assumes "ready h"
  shows "handle cfg parse (WriterTurn True) (say f h) = on_wire f h"
proof -
  have "(h_conn h)\<lparr>out := []\<rparr> = h_conn h" using assms by (simp add: ready_def)
  with assms show ?thesis
    by (simp add: ready_def on_wire_def say_def send_def enqueue_item_def full_def writer_turns_def
        writer_step_def)
qed

lemma say_commutes:
  "change_turn i f (say g h) = say g (change_turn i f h)"
  "spawn key txt' m (say g h) = say g (spawn key txt' m h)"
  "set_phase p t (say g h) = say g (set_phase p t h)"
  by (simp_all add: change_turn_def say_def spawn_def set_phase_def)

lemma ready_frame [simp]:
  "ready (change_turn i f h) = ready h" "ready (on_wire g h) = ready h" "ready (spawn key txt' m h) = ready h"
  "ready (set_phase p t h) = ready h" "ready (h\<lparr>h_db := db\<rparr>) = ready h"
  "ready (h\<lparr>live_replies := l\<rparr>) = ready h"
  by (simp_all add: ready_def change_turn_def on_wire_def spawn_def set_phase_def)

lemma on_wire_sel [simp]:
  "turns (on_wire f h) = turns h" "h_db (on_wire f h) = h_db h" "wire (on_wire f h) = wire h @ [f]"
  "turn_of i (on_wire f h) = turn_of i h" "h_conn (on_wire f h) = h_conn h"
  by (simp_all add: on_wire_def turn_of_def)

lemma wire_frame [simp]:
  "wire (change_turn i f h) = wire h" "wire (spawn key txt' m h) = wire h" "wire (set_phase p t h) = wire h"
  by (simp_all add: change_turn_def spawn_def set_phase_def)

lemma turn_of_change:
  assumes "same_turn f" "turn_of i h = Some t"
  shows "turn_of i (change_turn i f h) = Some (f t)"
proof -
  have "find (\<lambda>t. turn_id t = i) (map (\<lambda>t. if turn_id t = i then f t else t) ts)
      = map_option f (find (\<lambda>t. turn_id t = i) ts)" for ts
    using assms(1) by (induction ts) (auto simp: same_turn_def)
  with assms(2) show ?thesis by (simp add: turn_of_def change_turn_def)
qed

lemma same_turn_chunk:
  "same_turn (\<lambda>t. t\<lparr>turn_chunks := turn_chunks t @ [c], turn_index := turn_index t + 1\<rparr>)"
  by (simp add: same_turn_def)

subsection \<open>The stream\<close>

definition streamed :: "nat \<Rightarrow> string list \<Rightarrow> event list" where
  "streamed i cs = concat (map (\<lambda>c. [Yields i c, WriterTurn True]) cs)"

lemma streamed_simps [simp]:
  "streamed i [] = []" "streamed i (c # cs) = Yields i c # WriterTurn True # streamed i cs"
  by (simp_all add: streamed_def)

text \<open>The turn \<open>i\<close> with what it has produced so far.\<close>

definition turn_is :: "nat \<Rightarrow> handler \<Rightarrow> phase \<Rightarrow> stored_message \<Rightarrow> string list \<Rightarrow> bool" where
  "turn_is i h p m cs \<longleftrightarrow>
     (\<exists>t. turn_of i h = Some t \<and> turn_phase t = p \<and> turn_reply t = m \<and> turn_chunks t = cs \<and>
          turn_index t = length cs)"

lemma turn_is_on_wire [simp]: "turn_is i (on_wire f h) p m cs = turn_is i h p m cs"
  by (simp add: turn_is_def)

lemma yield_written:
  assumes r: "ready h" and t: "turn_is i h Streaming m cs"
  shows "\<exists>h'. serve_run cfg parse [Yields i c, WriterTurn True] h = h' \<and> ready h' \<and>
     turn_is i h' Streaming m (cs @ [c]) \<and> wire h' = wire h @ [Delta (uuid_hex (message_id m)) (length cs) c] \<and>
     h_db h' = h_db h"
proof -
  obtain t where t: "turn_of i h = Some t" "turn_phase t = Streaming" "turn_reply t = m"
      "turn_chunks t = cs" "turn_index t = length cs"
    using t by (auto simp: turn_is_def)
  let ?f = "\<lambda>t. t\<lparr>turn_chunks := turn_chunks t @ [c], turn_index := turn_index t + 1\<rparr>"
  let ?h = "change_turn i ?f h"
  have i: "turn_id t = i" using turn_ofD [OF t(1)] by blast
  have "handle cfg parse (Yields i c) h = say (Delta (uuid_hex (message_id m)) (length cs) c) ?h"
    using t i by (simp add: with_turn_def turn_yields_def say_commutes reply_hex_def)
  moreover have "turn_of i ?h = Some (?f t)" by (rule turn_of_change [OF same_turn_chunk t(1)])
  then have "turn_is i ?h Streaming m (cs @ [c])" using t by (simp add: turn_is_def)
  moreover have "handle cfg parse (WriterTurn True) (say (Delta (uuid_hex (message_id m)) (length cs) c) ?h) =
      on_wire (Delta (uuid_hex (message_id m)) (length cs) c) ?h"
    by (rule say_then_write) (simp add: r)
  ultimately show ?thesis using r by (simp del: handle.simps)
qed

lemma stream_written:
  assumes "ready h" "turn_is i h Streaming m cs"
  shows "\<exists>h'. serve_run cfg parse (streamed i ds) h = h' \<and> ready h' \<and> turn_is i h' Streaming m (cs @ ds) \<and>
     wire h' = wire h @ map (\<lambda>(j, d). Delta (uuid_hex (message_id m)) j d) (enumerate (length cs) ds) \<and>
     h_db h' = h_db h"
  using assms
proof (induction ds arbitrary: h cs)
  case Nil
  then show ?case by simp
next
  case (Cons d ds)
  obtain h1 where h1: "serve_run cfg parse [Yields i d, WriterTurn True] h = h1" "ready h1"
      "turn_is i h1 Streaming m (cs @ [d])" "wire h1 = wire h @ [Delta (uuid_hex (message_id m)) (length cs) d]"
      "h_db h1 = h_db h"
    using yield_written [OF Cons.prems] by blast
  from Cons.IH [OF h1(2,3)] obtain h2 where h2: "serve_run cfg parse (streamed i ds) h1 = h2" "ready h2"
      "turn_is i h2 Streaming m ((cs @ [d]) @ ds)"
      "wire h2 = wire h1 @ map (\<lambda>(j, d). Delta (uuid_hex (message_id m)) j d) (enumerate (length (cs @ [d])) ds)"
      "h_db h2 = h_db h1"
    by blast
  have "serve_run cfg parse (streamed i (d # ds)) h = h2"
    using h1(1) h2(1) by (simp add: serve_run_append [symmetric])
  with h2 h1 show ?case by simp
qed

subsection \<open>The rows of an exchange\<close>

definition fresh_message :: "uuid \<Rightarrow> db \<Rightarrow> bool" where
  "fresh_message mid db \<longleftrightarrow> (\<forall>x \<in> set (chat_messages db). message_id x \<noteq> mid)"

definition fresh_key :: "uuid \<Rightarrow> string \<Rightarrow> db \<Rightarrow> bool" where
  "fresh_key sid key db \<longleftrightarrow> (\<forall>x \<in> set (chat_messages db). \<not> (msg_session x = sid \<and> client_msg_id x = Some key))"

lemma no_clash:
  assumes "sys_ok db" "chat_sessions db sid = Some c" "fresh_message (message_id row) db"
    and "msg_session row = sid" "seq row = next_seq c"
  shows "\<not> message_clash row db"
proof -
  have "session_log_ok db sid"
    using assms(1) db_ok_log [of db] by (simp add: sys_ok_def log_ok_def)
  then have "x < next_seq c" if "x \<in> set (log_seqs db sid)" for x
    using log_seqs_below [OF _ assms(2) that] by blast
  then have "seq x < next_seq c" if "x \<in> set (chat_messages db)" "msg_session x = sid" for x
    using that by (force simp: log_seqs_def messages_of_def)
  with assms(3-5) show ?thesis by (force simp: message_clash_def fresh_message_def)
qed

definition numbered :: "db \<Rightarrow> uuid \<Rightarrow> int \<Rightarrow> bool" where
  "numbered db sid n \<longleftrightarrow> (\<exists>c. chat_sessions db sid = Some c \<and> next_seq c = n)"

lemma recorded_fresh:
  assumes "sys_ok db" "numbered db sid n" "fresh_message mid db" "fresh_key sid key db"
  shows "\<exists>db'. record_user_message now mid sid key txt' db =
       Inr (\<lparr>rec_message = to_message (user_row now mid sid key txt' n), rec_created = True\<rparr>, db') \<and>
     numbered db' sid (n + 1) \<and> chat_messages db' = chat_messages db @ [user_row now mid sid key txt' n]"
proof -
  obtain c where c: "chat_sessions db sid = Some c" "next_seq c = n" using assms(2) by (auto simp: numbered_def)
  let ?row = "user_row now mid sid key txt' n"
  have row: "message_id ?row = mid" "msg_session ?row = sid" "seq ?row = next_seq c"
    by (simp_all add: user_row_def c(2))
  have "\<not> message_clash ?row db" using no_clash [OF assms(1) c(1) _ row(2,3)] assms(3) row(1) by simp
  with assms(4) c show ?thesis
    by (auto simp: record_user_message_def allocate_seq_def Let_def fresh_key_def message_clash_def
        client_msg_id_matches_role_def user_row_def log_append_message_def numbered_def)
qed

lemma started_fresh:
  assumes "sys_ok db" "numbered db sid n" "fresh_message mid db"
  shows "\<exists>db'. start_assistant_message now mid sid db = Inr (to_message (assistant_row now mid sid n), db') \<and>
     chat_messages db' = chat_messages db @ [assistant_row now mid sid n]"
proof -
  obtain c where c: "chat_sessions db sid = Some c" "next_seq c = n" using assms(2) by (auto simp: numbered_def)
  let ?row = "assistant_row now mid sid n"
  have row: "message_id ?row = mid" "msg_session ?row = sid" "seq ?row = next_seq c"
    by (simp_all add: assistant_row_def c(2))
  have "\<not> message_clash ?row db" using no_clash [OF assms(1) c(1) _ row(2,3)] assms(3) row(1) by simp
  with c show ?thesis
    by (auto simp: start_assistant_message_def allocate_seq_def Let_def message_clash_def
        client_msg_id_matches_role_def assistant_row_def log_append_message_def)
qed

subsection \<open>The exchange\<close>

text \<open>A call that is answered at once.\<close>

definition prompt :: "answer \<Rightarrow> bool" where
  "prompt a \<longleftrightarrow> over a = Works \<and> before a = []"

lemma prompt_call:
  "prompt a \<Longrightarrow> t (at_time a) (minted_id a) (h_db h) = Inr (x, db) \<Longrightarrow> repo_call a t h = (Some x, h\<lparr>h_db := db\<rparr>)"
  by (rule repo_call_works) (simp_all add: prompt_def)

definition asking :: "string \<Rightarrow> answer \<Rightarrow> answer \<Rightarrow> nat \<Rightarrow> event list" where
  "asking raw a1 a2 i = [Receives raw, ReaderAnswered a1, ReaderAnswered a2, WriterTurn True, Begins i]"

definition finishing :: "answer \<Rightarrow> nat \<Rightarrow> event list" where
  "finishing a3 i = [Exhausts i, TurnAnswered i a3, WriterTurn True]"

definition exchange :: "string \<Rightarrow> answer \<Rightarrow> answer \<Rightarrow> answer \<Rightarrow> nat \<Rightarrow> string list \<Rightarrow> event list" where
  "exchange raw a1 a2 a3 i cs = asking raw a1 a2 i @ streamed i cs @ finishing a3 i"

lemma spawned_turn:
  assumes "control_ok cfg h"
  shows "turn_of (next_turn h) (spawn key txt' m h) = Some
     \<lparr>turn_id = next_turn h, turn_key = key, turn_text = txt', turn_reply = m,
      turn_chunks = [], turn_index = 0, turn_phase = Spawned\<rparr>"
proof -
  have "find (\<lambda>t. turn_id t = next_turn h) (turns h) = None"
    using assms by (auto simp: find_None_iff control_ok_def)
  moreover have "find P (xs @ [y]) = (case find P xs of None \<Rightarrow> if P y then Some y else None | Some x \<Rightarrow> Some x)"
    for P :: "turn \<Rightarrow> bool" and xs y
    by (induction xs) auto
  ultimately show ?thesis by (simp add: turn_of_def spawn_def)
qed

lemma opened:
  assumes ok: "handler_ok cfg h" and r: "ready h"
    and raw: "parse raw = Inr (UserMessage v txt' key)" "v \<le> PROTOCOL_VERSION"
    and room: "int (length (turns h)) < ws_max_concurrent_turns cfg"
    and n: "numbered (h_db h) (sid_of h) n" and key: "fresh_key (sid_of h) key (h_db h)"
    and mids: "fresh_message (minted_id a1) (h_db h)" "fresh_message (minted_id a2) (h_db h)"
      "minted_id a1 \<noteq> minted_id a2"
    and a: "prompt a1" "prompt a2"
  shows "\<exists>h' m. serve_run cfg parse (asking raw a1 a2 (next_turn h)) h = h' \<and> ready h' \<and>
     m = to_message (assistant_row (at_time a2) (minted_id a2) (sid_of h) (n + 1)) \<and>
     turn_is (next_turn h) h' Streaming m [] \<and>
     wire h' = wire h @ [AckFrame key n (uuid_hex (minted_id a1)) (Some (uuid_hex (minted_id a2)))] \<and>
     chat_messages (h_db h') = chat_messages (h_db h) @
       [user_row (at_time a1) (minted_id a1) (sid_of h) key txt' n,
        assistant_row (at_time a2) (minted_id a2) (sid_of h) (n + 1)]"
proof -
  let ?u = "user_row (at_time a1) (minted_id a1) (sid_of h) key txt' n"
  let ?m = "to_message (assistant_row (at_time a2) (minted_id a2) (sid_of h) (n + 1))"
  let ?rec = "\<lparr>rec_message = to_message ?u, rec_created = True\<rparr>"
  have db: "sys_ok (h_db h)" using handler_okD(2) [OF ok] by (simp add: rows_ok_def)
  obtain db1 where db1: "record_user_message (at_time a1) (minted_id a1) (sid_of h) key txt' (h_db h) = Inr (?rec, db1)"
      "numbered db1 (sid_of h) (n + 1)" "chat_messages db1 = chat_messages (h_db h) @ [?u]"
    using recorded_fresh [OF db n mids(1) key] by blast
  have ok1: "sys_ok db1" by (rule txn_sys_ok(10) [OF db db1(1)])
  have "fresh_message (minted_id a2) db1"
    using mids(2,3) by (auto simp: fresh_message_def db1(3) user_row_def)
  then obtain db2 where db2: "start_assistant_message (at_time a2) (minted_id a2) (sid_of h) db1 = Inr (?m, db2)"
      "chat_messages db2 = chat_messages db1 @ [assistant_row (at_time a2) (minted_id a2) (sid_of h) (n + 1)]"
    using started_fresh [OF ok1 db1(2)] by blast
  let ?h1 = "h\<lparr>reader := Recording key txt'\<rparr>"
  let ?h2 = "h\<lparr>h_db := db1, reader := Starting key txt' ?rec\<rparr>"
  let ?h3 = "h\<lparr>h_db := db2, live_replies := (live_replies h)(key \<mapsto> minted_id a2)\<rparr>"
  let ?ack = "AckFrame key n (uuid_hex (minted_id a1)) (Some (uuid_hex (minted_id a2)))"
  let ?h4 = "spawn key txt' ?m ?h3"
  have reading: "reader h = Reading" using r by (simp add: ready_def)
  have sel: "message_id ?m = minted_id a2" "message_id (to_message ?u) = minted_id a1" "seq (to_message ?u) = n"
    by (simp_all add: assistant_row_def user_row_def)
  have e1: "handle cfg parse (Receives raw) h = ?h1"
    using reading raw room by (simp add: dispatch_def)
  have "repo_call a1 (\<lambda>now mid. record_user_message now mid (sid_of h) key txt') ?h1 = (Some ?rec, ?h1\<lparr>h_db := db1\<rparr>)"
    by (rule prompt_call) (simp_all add: a db1(1))
  then have e2: "handle cfg parse (ReaderAnswered a1) ?h1 = ?h2"
    by (simp add: reader_answered_def record_answered_def)
  have "repo_call a2 (\<lambda>now mid. start_assistant_message now mid (sid_of h)) ?h2 = (Some ?m, ?h2\<lparr>h_db := db2\<rparr>)"
    by (rule prompt_call) (simp_all add: a db2(1))
  then have e3: "handle cfg parse (ReaderAnswered a2) ?h2 = say ?ack ?h4"
    using reading sel
    by (simp add: reader_answered_def start_answered_def Let_def say_commutes [symmetric] ack_frame_def say_def spawn_def)
  have r4: "ready ?h4" using r by simp
  have e4: "handle cfg parse (WriterTurn True) (say ?ack ?h4) = on_wire ?ack ?h4" by (rule say_then_write [OF r4])
  have t: "turn_of (next_turn h) ?h4 = Some
     \<lparr>turn_id = next_turn h, turn_key = key, turn_text = txt', turn_reply = ?m,
      turn_chunks = [], turn_index = 0, turn_phase = Spawned\<rparr>"
    using spawned_turn [OF handler_okD(1) [OF ok], of key txt' ?m] by (simp add: turn_of_def spawn_def)
  let ?h5 = "change_turn (next_turn h) (\<lambda>t. t\<lparr>turn_phase := Streaming\<rparr>) (on_wire ?ack ?h4)"
  have e5: "handle cfg parse (Begins (next_turn h)) (on_wire ?ack ?h4) = ?h5"
    using t by (simp add: with_turn_def turn_begins_def)
  have run: "serve_run cfg parse (asking raw a1 a2 (next_turn h)) h = ?h5"
    by (simp only: asking_def serve_run.simps e1 e2 e3 e4 e5)
  have "turn_is (next_turn h) ?h5 Streaming ?m []"
    using turn_of_change [OF same_turn_phase, of "next_turn h" "on_wire ?ack ?h4" _ Streaming] t
    by (auto simp: turn_is_def)
  moreover have "ready ?h5" using r by simp
  moreover have "h_db ?h5 = db2" "wire ?h5 = wire h @ [?ack]" by (simp_all add: spawn_def)
  ultimately show ?thesis using run db2(2) db1(3) by auto
qed

lemma finished:
  assumes r: "ready h" and t: "turn_is i h Streaming m cs" and a: "prompt a"
  shows "\<exists>h'. serve_run cfg parse (finishing a i) h = h' \<and> ready h' \<and>
     wire h' = wire h @ [DoneFrame (uuid_hex (message_id m)) (seq m)] \<and>
     chat_messages (h_db h') = update_where (\<lambda>x. message_id x = message_id m)
       (finished_row (at_time a) COMPLETE (Some (concat cs))) (chat_messages (h_db h))"
proof -
  obtain t where t: "turn_of i h = Some t" "turn_phase t = Streaming" "turn_reply t = m"
      "turn_chunks t = cs" "turn_index t = length cs"
    using t by (auto simp: turn_is_def)
  have i: "turn_id t = i" using turn_ofD [OF t(1)] by blast
  let ?t = "t\<lparr>turn_phase := Completing\<rparr>"
  let ?h1 = "change_turn i (\<lambda>t. t\<lparr>turn_phase := Completing\<rparr>) h"
  have e1: "handle cfg parse (Exhausts i) h = ?h1" using t i by (simp add: with_turn_def set_phase_def)
  have t1: "turn_of i ?h1 = Some ?t" by (rule turn_of_change [OF same_turn_phase t(1)])
  obtain db where db: "complete_assistant_message (at_time a) (message_id m) (concat cs) (h_db h) = Inr ((), db)"
      "chat_messages db = update_where (\<lambda>x. message_id x = message_id m)
         (finished_row (at_time a) COMPLETE (Some (concat cs))) (chat_messages (h_db h))"
    by (simp add: complete_assistant_message_def finish_message_def)
  have call: "repo_call a (\<lambda>now _. complete_assistant_message now (message_id m) (concat cs)) ?h1 = (Some (), ?h1\<lparr>h_db := db\<rparr>)"
    by (rule prompt_call) (simp_all add: a db(1))
  let ?h2 = "change_turn i (\<lambda>t. t\<lparr>turn_phase := Ended\<rparr>) (?h1\<lparr>h_db := db\<rparr>)"
  let ?done = "DoneFrame (uuid_hex (message_id m)) (seq m)"
  have e2: "handle cfg parse (TurnAnswered i a) ?h1 = say ?done ?h2"
    using t t1 i call by (simp add: with_turn_def turn_answered_def Let_def reply_hex_def say_commutes)
  have r2: "ready ?h2" using r by simp
  have e3: "handle cfg parse (WriterTurn True) (say ?done ?h2) = on_wire ?done ?h2" by (rule say_then_write [OF r2])
  have "serve_run cfg parse (finishing a i) h = on_wire ?done ?h2"
    by (simp only: finishing_def serve_run.simps e1 e2 e3)
  with r2 db(2) show ?thesis by auto
qed

definition reply_frames :: "uuid \<Rightarrow> int \<Rightarrow> string list \<Rightarrow> server_frame list" where
  "reply_frames mid n cs =
     map (\<lambda>(j, c). Delta (uuid_hex mid) j c) (enumerate 0 cs) @ [DoneFrame (uuid_hex mid) n]"

lemma exchanged:
  assumes "handler_ok cfg h" "ready h"
    and "parse raw = Inr (UserMessage v txt' key)" "v \<le> PROTOCOL_VERSION"
    and "int (length (turns h)) < ws_max_concurrent_turns cfg"
    and "numbered (h_db h) (sid_of h) n" "fresh_key (sid_of h) key (h_db h)"
    and mids: "fresh_message (minted_id a1) (h_db h)" "fresh_message (minted_id a2) (h_db h)"
      "minted_id a1 \<noteq> minted_id a2"
    and "prompt a1" "prompt a2" and a3: "prompt a3"
  shows "\<exists>h'. serve_run cfg parse (exchange raw a1 a2 a3 (next_turn h) cs) h = h' \<and> ready h' \<and>
     wire h' = wire h @ AckFrame key n (uuid_hex (minted_id a1)) (Some (uuid_hex (minted_id a2))) #
       reply_frames (minted_id a2) (n + 1) cs \<and>
     chat_messages (h_db h') = chat_messages (h_db h) @
       [user_row (at_time a1) (minted_id a1) (sid_of h) key txt' n,
        finished_row (at_time a3) COMPLETE (Some (concat cs))
          (assistant_row (at_time a2) (minted_id a2) (sid_of h) (n + 1))]"
proof -
  let ?i = "next_turn h" and ?mid = "minted_id a2"
  let ?row = "assistant_row (at_time a2) (minted_id a2) (sid_of h) (n + 1)"
  obtain h1 where h1: "serve_run cfg parse (asking raw a1 a2 ?i) h = h1" "ready h1"
      "turn_is ?i h1 Streaming (to_message ?row) []"
      "wire h1 = wire h @ [AckFrame key n (uuid_hex (minted_id a1)) (Some (uuid_hex ?mid))]"
      "chat_messages (h_db h1) = chat_messages (h_db h) @ [user_row (at_time a1) (minted_id a1) (sid_of h) key txt' n, ?row]"
    using opened [of cfg h parse raw v txt' key n a1 a2] assms by auto
  obtain h2 where h2: "serve_run cfg parse (streamed ?i cs) h1 = h2" "ready h2"
      "turn_is ?i h2 Streaming (to_message ?row) cs"
      "wire h2 = wire h1 @ map (\<lambda>(j, c). Delta (uuid_hex ?mid) j c) (enumerate 0 cs)" "h_db h2 = h_db h1"
    using stream_written [OF h1(2,3), of cfg parse cs] by (auto simp: assistant_row_def)
  obtain h3 where h3: "serve_run cfg parse (finishing a3 ?i) h2 = h3" "ready h3"
      "wire h3 = wire h2 @ [DoneFrame (uuid_hex ?mid) (n + 1)]"
      "chat_messages (h_db h3) = update_where (\<lambda>x. message_id x = ?mid)
         (finished_row (at_time a3) COMPLETE (Some (concat cs))) (chat_messages (h_db h2))"
    using finished [OF h2(2,3) a3, of cfg parse] by (auto simp: assistant_row_def)
  have "update_where (\<lambda>x. message_id x = ?mid) f (chat_messages (h_db h)) = chat_messages (h_db h)" for f
    by (rule update_where_none) (use mids(2) in \<open>auto simp: fresh_message_def\<close>)
  then have "chat_messages (h_db h3) = chat_messages (h_db h) @
      [user_row (at_time a1) (minted_id a1) (sid_of h) key txt' n,
       finished_row (at_time a3) COMPLETE (Some (concat cs)) ?row]"
    using h3(4) h2(5) h1(5) mids(3) by (simp add: update_where_def user_row_def assistant_row_def)
  with h1 h2 h3 show ?thesis by (auto simp: exchange_def serve_run_append reply_frames_def)
qed

text \<open>C8: A message to the stub responder is answered, end to end. On a connection that is keeping up and
  whose store answers, a new message under a new key gives the peer, in this order, an acknowledgement
  under the message's number, the responder's chunks numbered from 0, and \<open>done\<close> under the next number;
  and the log then ends with the message, complete, and the reply, complete, whose text is the
  concatenation of what was streamed: \<open>echo: \<close> and the words of the message.\<close>

theorem message_is_answered:
  assumes "0 \<le> ws_max_concurrent_turns cfg" "sys_ok db" and h: "h = served cfg parse sid db evs"
    and "ready h" "parse raw = Inr (UserMessage v txt' key)" "v \<le> PROTOCOL_VERSION"
    and "int (length (turns h)) < ws_max_concurrent_turns cfg"
    and "numbered (h_db h) sid n" "fresh_key sid key (h_db h)"
    and "fresh_message (minted_id a1) (h_db h)" "fresh_message (minted_id a2) (h_db h)" "minted_id a1 \<noteq> minted_id a2"
    and "prompt a1" "prompt a2" "prompt a3"
    and h': "h' = serve_run cfg parse (exchange raw a1 a2 a3 (next_turn h) (respond txt')) h"
  shows "wire h' = wire h @ AckFrame key n (uuid_hex (minted_id a1)) (Some (uuid_hex (minted_id a2))) #
       reply_frames (minted_id a2) (n + 1) (respond txt') \<and>
     (\<exists>m r. chat_messages (h_db h') = chat_messages (h_db h) @ [m, r] \<and>
        seq m = n \<and> msg_role m = USER \<and> msg_status m = COMPLETE \<and> msg_text m = txt' \<and>
        seq r = n + 1 \<and> msg_role r = ASSISTANT \<and> msg_status r = COMPLETE \<and>
        msg_text r = ''echo: '' @ concat (map (\<lambda>w. w @ '' '') (split_words txt')))"
proof -
  have ok: "handler_ok cfg h" using assms(1,2) by (simp add: h ok_served)
  have sid: "sid_of h = sid" using assms(1,2) by (simp add: h)
  let ?m = "user_row (at_time a1) (minted_id a1) sid key txt' n"
  let ?r = "finished_row (at_time a3) COMPLETE (Some (concat (respond txt')))
      (assistant_row (at_time a2) (minted_id a2) sid (n + 1))"
  obtain h2 where h2: "serve_run cfg parse (exchange raw a1 a2 a3 (next_turn h) (respond txt')) h = h2"
      "wire h2 = wire h @ AckFrame key n (uuid_hex (minted_id a1)) (Some (uuid_hex (minted_id a2))) #
         reply_frames (minted_id a2) (n + 1) (respond txt')"
      "chat_messages (h_db h2) = chat_messages (h_db h) @ [?m, ?r]"
    using exchanged [of cfg h parse raw v txt' key n a1 a2 a3 "respond txt'"] ok assms sid by auto
  moreover have "msg_text ?r = ''echo: '' @ concat (map (\<lambda>w. w @ '' '') (split_words txt'))"
    by (simp add: finished_row_def Let_def respond_def)
  ultimately show ?thesis unfolding h'
    by (auto simp: user_row_def finished_row_def assistant_row_def Let_def respond_def)
qed

lemma freshly_served:
  "demo_served [ReaderAnswered (reply_at 1 0)] =
     (new_handler default_settings 7 empty_db)\<lparr>reader := Reading,
        h_db := empty_db\<lparr>chat_sessions := [7 \<mapsto> \<lparr>next_seq = 1, session_created_at = 1, last_seen_at = 1\<rparr>]\<rparr>\<rparr>"
  by (simp add: handler_eval)

theorem message_is_answered_witness:
  "wire (serve_run default_settings demo_parse
       (exchange ''ask'' (reply_at 2 21) (reply_at 3 22) (reply_at 4 0) 0 (respond ''hi''))
       (demo_served [ReaderAnswered (reply_at 1 0)])) =
     [AckFrame ''k1'' 1 (uuid_hex 21) (Some (uuid_hex 22)), Delta (uuid_hex 22) 0 ''echo: '',
      Delta (uuid_hex 22) 1 ''hi '', DoneFrame (uuid_hex 22) 2]"
proof -
  let ?h = "demo_served [ReaderAnswered (reply_at 1 0)]"
  have words: "split_words ''hi'' = [''hi'']" by (simp add: split_words.simps white_def)
  have h: "ready ?h" "next_turn ?h = 0" "wire ?h = []" "int (length (turns ?h)) < ws_max_concurrent_turns default_settings"
      "numbered (h_db ?h) 7 1" "fresh_key 7 ''k1'' (h_db ?h)" "fresh_message 21 (h_db ?h)" "fresh_message 22 (h_db ?h)"
    unfolding freshly_served
    by (simp_all add: ready_def new_handler_def new_connection_def numbered_def
        fresh_key_def fresh_message_def empty_db_def)
  have "prompt (reply_at now mid)" for now mid by (simp add: prompt_def reply_at_def)
  with message_is_answered [OF _ sys_ok_empty refl h(1), of "''ask''" 1 "''hi''" "''k1''" 1 "reply_at 2 21" "reply_at 3 22"
      "reply_at 4 0"] h words
  show ?thesis by (simp add: PROTOCOL_VERSION_def reply_at_def respond_def reply_frames_def)
qed

end
