(* ===== verification/Job_Progress.thy ===== *)
theory Job_Progress
  imports Store_Properties
begin

text \<open>
  How long a job can keep the system busy. \<open>grants\<close> counts the leases a run hands out for one job: the
  count is exactly what \<open>attempts\<close> moved by, so \<open>max_attempts\<close> bounds it in every run. A round lets
  anyone do anything and then runs one maintenance sweep and one claim, late enough for the job's
  backoff or lease to be over; more rounds than attempts left always end the job.
\<close>

subsection \<open>Counting the leases of a job\<close>

definition after :: "operation \<Rightarrow> db \<Rightarrow> db" where
  "after op db = (case exec op db of Inl _ \<Rightarrow> db | Inr db' \<Rightarrow> db')"

fun granted :: "operation \<Rightarrow> db \<Rightarrow> uuid option" where
  "granted (Claim now t j ow d) db =
     (case claim now t j ow d db of
        Inl _ \<Rightarrow> None
      | Inr (l, _) \<Rightarrow> map_option (\<lambda>l. job_id (l_job l)) l)"
| "granted _ db = None"

fun grants :: "uuid \<Rightarrow> operation list \<Rightarrow> db \<Rightarrow> nat" where
  "grants jid [] db = 0"
| "grants jid (op # ops) db =
     (if granted op db = Some jid then 1 else 0) + grants jid ops (after op db)"

lemma run_after: "run (op # ops) db = run ops (after op db)"
  by (simp add: after_def)

lemma after_sys_ok: "sys_ok db \<Longrightarrow> sys_ok (after op db)"
  by (auto simp: after_def intro: exec_sys_ok split: sum.splits)

text \<open>One transaction moves the count of a row by one when it is the claim that grants it, and by
  nothing otherwise.\<close>

lemma grant_is_an_attempt:
  assumes ok: "sys_ok db" and r: "r \<in> set (jobs db)"
  shows "\<exists>r' \<in> set (jobs (after op db)). job_id r' = job_id r \<and> max_attempts r' = max_attempts r \<and>
     attempts r' = attempts r + (if granted op db = Some (job_id r) then 1 else 0)"
proof (cases "\<exists>now t j ow d. op = Claim now t j ow d")
  case True
  then obtain now t j ow d where op: "op = Claim now t j ow d" by blast
  have dok: "db_ok db" using ok by (simp add: sys_ok_def)
  show ?thesis
  proof (cases "\<exists>x \<in> set (jobs db). job_id x = j \<and> (waiting now x \<or> lapsed now x)")
    case False
    then have "claim now t j ow d db = Inr (None, db)" by (intro claim_refused) auto
    then show ?thesis using r by (auto simp: op after_def commit_def intro!: bexI [of _ r])
  next
    case True
    then obtain x where x: "x \<in> set (jobs db)" "waiting now x \<or> lapsed now x" "j = job_id x" by blast
    let ?P = "\<lambda>y. job_id y = job_id x \<and> (waiting now y \<or> lapsed now y)"
    from claim_granted [OF dok x(1,2), of t ow d] obtain l db' where
      c: "claim now t j ow d db = Inr (Some l, db')" "job_id (l_job l) = j"
        "jobs db' = update_where ?P (claimed_row now t ow d) (jobs db)"
      by (auto simp: x(3) writes_keep_identity)
    have g: "granted op db = Some j" "after op db = db'" by (simp_all add: op c(1,2) after_def commit_def)
    show ?thesis
    proof (cases "job_id r = j")
      case True
      then have "r = x" using same_job [OF dok [unfolded db_ok_def] r x(1)] x(3) by simp
      then show ?thesis
        using x by (auto simp: g c(3) set_update_where writes_keep_identity claimed_row_def
            intro!: bexI [of _ "claimed_row now t ow d x"])
    next
      case False
      then show ?thesis using r x(3) by (auto simp: g c(3) set_update_where intro!: bexI [of _ r])
    qed
  qed
next
  case False
  then have none: "granted op db = None" by (cases op) auto
  show ?thesis
  proof (cases "exec op db")
    case (Inl e)
    with r none show ?thesis by (auto simp: after_def intro!: bexI [of _ r])
  next
    case (Inr db')
    have keep: "attempts (f x) = attempts x \<and> job_id (f x) = job_id x \<and> max_attempts (f x) = max_attempts x"
      if "writes_rows op P f" for P f x
      using that False by (cases rule: writes_rows.cases) (auto simp: row_writes)
    have a: "after op db = db'" by (simp add: after_def Inr)
    show ?thesis
      using exec_jobs [OF Inr]
    proof (cases rule: jobs_step.cases)
      case (rewrite P f)
      then show ?thesis using r keep [OF rewrite(2)] by (cases "P r") (auto simp: a none set_update_where)
    qed (use r a none in \<open>auto intro!: bexI [of _ r]\<close>)
  qed
qed

lemma grants_are_attempts:
  assumes "sys_ok db" "r \<in> set (jobs db)"
  shows "\<exists>r' \<in> set (jobs (run ops db)). job_id r' = job_id r \<and> max_attempts r' = max_attempts r \<and>
     attempts r' = attempts r + int (grants (job_id r) ops db)"
  using assms
proof (induction ops arbitrary: db r)
  case Nil
  then show ?case by auto
next
  case (Cons op ops)
  obtain r1 where r1: "r1 \<in> set (jobs (after op db))" "job_id r1 = job_id r" "max_attempts r1 = max_attempts r"
      "attempts r1 = attempts r + (if granted op db = Some (job_id r) then 1 else 0)"
    using grant_is_an_attempt [OF Cons.prems] by blast
  from Cons.IH [OF after_sys_ok [OF Cons.prems(1)] r1(1)] r1 show ?case
    unfolding run_after by auto
qed

text \<open>C9: However many consumers race for a job, and whatever else runs, the leases handed out for it
  after any moment are exactly the attempts added to its row, so together with those already counted
  they never exceed \<open>max_attempts\<close>: the solver is started at most that often.\<close>

theorem claims_are_bounded:
  assumes "reachable db" "r \<in> set (jobs db)"
  shows "(\<exists>r' \<in> set (jobs (run ops db)). job_id r' = job_id r \<and>
            attempts r' = attempts r + int (grants (job_id r) ops db)) \<and>
         attempts r + int (grants (job_id r) ops db) \<le> max_attempts r"
proof -
  have ok: "sys_ok db" by (rule reachable_sys_ok [OF assms(1)])
  from grants_are_attempts [OF ok assms(2), of ops] obtain r' where
    r': "r' \<in> set (jobs (run ops db))" "job_id r' = job_id r" "max_attempts r' = max_attempts r"
      "attempts r' = attempts r + int (grants (job_id r) ops db)" by blast
  with row_ok_bounds [OF sys_ok_row [OF run_sys_ok [OF ok] r'(1)]] show ?thesis by auto
qed

theorem claims_are_bounded_witness:
  "grants 1 [Claim 80 101 1 ''w2'' 60, Claim 150 102 1 ''w3'' 60, Claim 300 103 1 ''w4'' 60] demo_running \<le> 2"
  using claims_are_bounded [OF demo_running_reachable,
      of "claimed_row 10 100 ''w1'' 60 (new_row 5 1 demo_request)"
         "[Claim 80 101 1 ''w2'' 60, Claim 150 102 1 ''w3'' 60, Claim 300 103 1 ''w4'' 60]"]
  by (simp del: grants.simps add: demo_running_jobs)
     (simp del: grants.simps add: claimed_row_def new_row_def demo_request_def request_def)

subsection \<open>Rounds\<close>

text \<open>When a row is next of interest to a sweep or a claim: the end of its backoff, or the first
  instant its lease is over.\<close>

definition due :: "job_row \<Rightarrow> time" where
  "due r = (case lease_expires_at r of None \<Rightarrow> run_after r | Some e \<Rightarrow> e + 1)"

datatype round = Round "operation list" time uuid string time

fun round_ops :: "uuid \<Rightarrow> round \<Rightarrow> operation list" where
  "round_ops jid (Round ops now t ow d) = ops @ [Retire now, Claim now t jid ow d]"

fun play :: "uuid \<Rightarrow> round list \<Rightarrow> db \<Rightarrow> db" where
  "play jid [] db = db"
| "play jid (x # xs) db = play jid xs (run (round_ops jid x) db)"

fun in_time :: "uuid \<Rightarrow> round \<Rightarrow> db \<Rightarrow> bool" where
  "in_time jid (Round ops now t ow d) db \<longleftrightarrow>
     (\<forall>r \<in> set (jobs (run ops db)). job_id r = jid \<longrightarrow> due r \<le> now)"

fun punctual :: "uuid \<Rightarrow> round list \<Rightarrow> db \<Rightarrow> bool" where
  "punctual jid [] db \<longleftrightarrow> True"
| "punctual jid (x # xs) db \<longleftrightarrow> in_time jid x db \<and> punctual jid xs (run (round_ops jid x) db)"

lemma due_row:
  assumes "row_ok r" "\<not> terminal (state r)" "due r \<le> now"
  shows "waiting now r \<or> lapsed now r \<or> lapsed_for_good now r"
  using assms
  by (cases "state r")
     (auto simp: due_def row_ok_def lease_is_whole_def waiting_def lapsed_def lapsed_for_good_def
        lease_before_def split: option.splits)

lemma retire_then_claim:
  assumes ok: "sys_ok db" and r: "r \<in> set (jobs db)" "due r \<le> now"
  shows "\<exists>r' \<in> set (jobs (run [Retire now, Claim now t (job_id r) ow d] db)). evolves r r' \<and>
     (terminal (state r') \<or> attempts r < attempts r')"
proof (cases "terminal (state r)")
  case True
  with run_evolves [OF ok r(1), of "[Retire now, Claim now t (job_id r) ow d]"] show ?thesis
    by (metis evolves_def to_job_sel(4))
next
  case live: False
  have dok: "db_ok db" using ok by (simp add: sys_ok_def)
  let ?P = "lapsed_for_good now"
  from retire_lapsed_ok [OF dok, of now] obtain ids db1 where
    ret: "retire_lapsed now db = Inr (ids, db1)" "jobs db1 = update_where ?P (retired_row now) (jobs db)" by auto
  then have a1: "after (Retire now) db = db1" by (simp add: after_def commit_def)
  have ok1: "sys_ok db1" using after_sys_ok [OF ok, of "Retire now"] a1 by simp
  have run: "run [Retire now, Claim now t (job_id r) ow d] db = run [Claim now t (job_id r) ow d] db1"
    by (simp add: run_after a1 del: run.simps(2))
  show ?thesis
  proof (cases "?P r")
    case True
    have r1: "retired_row now r \<in> set (jobs db1)" using True r(1) by (auto simp: ret(2) set_update_where)
    have t1: "terminal (state (retired_row now r))" by (simp add: retired_row_def released_def)
    have e1: "evolves r (retired_row now r)"
      by (rule writes_evolve [OF writes_rows.retired True sys_ok_row [OF ok r(1)]])
    from run_evolves [OF ok1 r1, of "[Claim now t (job_id r) ow d]"] obtain r2 where
      "r2 \<in> set (jobs (run [Claim now t (job_id r) ow d] db1))" "evolves (retired_row now r) r2" by blast
    with t1 e1 show ?thesis unfolding run by (metis evolves_def evolves_trans to_job_sel(4))
  next
    case False
    then have r1: "r \<in> set (jobs db1)" using r(1) by (auto simp: ret(2) set_update_where)
    have "waiting now r \<or> lapsed now r" using due_row [OF sys_ok_row [OF ok r(1)] live r(2)] False by blast
    with claim_granted [OF _ r1, of now t ow d] ok1
    have g: "granted (Claim now t (job_id r) ow d) db1 = Some (job_id r)"
      by (auto simp: sys_ok_def writes_keep_identity)
    from grants_are_attempts [OF ok1 r1, of "[Claim now t (job_id r) ow d]"] g obtain r2 where
      r2: "r2 \<in> set (jobs (run [Claim now t (job_id r) ow d] db1))" "job_id r2 = job_id r" "attempts r2 = attempts r + 1"
      by auto
    from run_evolves [OF ok1 r1, of "[Claim now t (job_id r) ow d]"] obtain r3 where
      r3: "r3 \<in> set (jobs (run [Claim now t (job_id r) ow d] db1))" "evolves r r3" by blast
    have "r3 = r2"
      using same_job [OF _ r3(1) r2(1), of "{}"] run_sys_ok [OF ok1, of "[Claim now t (job_id r) ow d]"] r2(2) r3(2)
      by (auto simp: sys_ok_def db_ok_def evolves_def)
    with r2 r3 show ?thesis unfolding run by auto
  qed
qed

lemma round_advances:
  assumes ok: "sys_ok db" and r: "r \<in> set (jobs db)" and p: "in_time (job_id r) x db"
  shows "\<exists>r' \<in> set (jobs (run (round_ops (job_id r) x) db)). evolves r r' \<and>
     (terminal (state r') \<or> attempts r < attempts r')"
proof (cases x)
  case (Round ops now t ow d)
  obtain r1 where r1: "r1 \<in> set (jobs (run ops db))" "evolves r r1" using run_evolves [OF ok r] by blast
  then have "due r1 \<le> now" "job_id r1 = job_id r" using p by (auto simp: Round evolves_def)
  with retire_then_claim [OF run_sys_ok [OF ok] r1(1), of now t ow d] obtain r2 where
    "r2 \<in> set (jobs (run [Retire now, Claim now t (job_id r) ow d] (run ops db)))" "evolves r1 r2"
    "terminal (state r2) \<or> attempts r1 < attempts r2" by auto
  moreover have "attempts r \<le> attempts r1" using r1(2) by (simp add: evolves_def)
  ultimately show ?thesis
    using evolves_trans [OF r1(2), of r2] by (intro bexI [of _ r2]) (auto simp: Round run_append simp del: run.simps)
qed

lemma play_keeps_ended:
  assumes "sys_ok db" "r \<in> set (jobs db)" "terminal (state r)"
  shows "get (job_id r) (play (job_id r) xs db) = Some (to_job r)"
  using assms
proof (induction xs arbitrary: db r)
  case Nil
  then show ?case by (simp add: get_known sys_ok_def)
next
  case (Cons x xs)
  let ?db = "run (round_ops (job_id r) x) db"
  obtain r' where r': "r' \<in> set (jobs ?db)" "job_id r' = job_id r" "to_job r' = to_job r"
    using run_evolves [OF Cons.prems(1,2), of "round_ops (job_id r) x"] Cons.prems(3) by (auto simp: evolves_def)
  then have "terminal (state r')" using Cons.prems(3) by (metis to_job_sel(4))
  from Cons.IH [OF run_sys_ok [OF Cons.prems(1)] r'(1) this] r' show ?case by simp
qed

text \<open>C5: Every job ends. Take any job and let anyone do anything to the database, for ever; if now and
  then, late enough for the job's backoff or lease to be over, a maintenance sweep runs and a worker
  claims the job, then after one more such round than it had attempts left the job is done, dead or
  cancelled, whoever crashed, stalled or failed in between.\<close>

theorem every_job_ends:
  assumes "sys_ok db" "r \<in> set (jobs db)" "punctual (job_id r) rounds db"
    and "max_attempts r - attempts r < int (length rounds)"
  shows "\<exists>j. get (job_id r) (play (job_id r) rounds db) = Some j \<and> terminal (state j)"
  using assms
proof (induction rounds arbitrary: db r)
  case Nil
  then show ?case using row_ok_bounds [OF sys_ok_row [OF Nil.prems(1,2)]] by simp
next
  case (Cons x xs)
  let ?db = "run (round_ops (job_id r) x) db"
  have ok': "sys_ok ?db" by (rule run_sys_ok [OF Cons.prems(1)])
  have "in_time (job_id r) x db" using Cons.prems(3) by simp
  from round_advances [OF Cons.prems(1,2) this] obtain r' where
    r': "r' \<in> set (jobs ?db)" "evolves r r'" "terminal (state r') \<or> attempts r < attempts r'" by blast
  then have id: "job_id r' = job_id r" "max_attempts r' = max_attempts r" by (simp_all add: evolves_def)
  show ?case
  proof (cases "terminal (state r')")
    case True
    from play_keeps_ended [OF ok' r'(1) this, of xs] True show ?thesis by (simp add: id)
  next
    case False
    with r' Cons.prems(3,4) id Cons.IH [OF ok' r'(1)] show ?thesis by simp
  qed
qed

text \<open>The worst job there is: every worker that takes it dies without a word.\<close>

definition crashing :: "round list" where
  "crashing = [Round [] 100 101 ''w2'' 60, Round [] 200 102 ''w3'' 60, Round [] 300 103 ''w4'' 60]"

theorem every_job_ends_witness:
  "\<exists>j. get 1 (play 1 crashing demo_running) = Some j \<and> terminal (state j)"
proof -
  let ?r = "claimed_row 10 100 ''w1'' 60 (new_row 5 1 demo_request)"
  have "punctual 1 crashing demo_running"
    by (simp add: crashing_def due_def demo_eval lapsed_for_good_def lease_before_def retire_lapsed_def retired_row_def
        released_def)
  moreover have "job_id ?r = 1" "max_attempts ?r - attempts ?r < int (length crashing)" "?r \<in> set (jobs demo_running)"
    by (simp_all add: demo_running_jobs) (simp_all add: crashing_def claimed_row_def new_row_def demo_request_def request_def)
  ultimately show ?thesis using every_job_ends [OF demo_running_ok, of ?r crashing] by simp
qed

end
