(* ===== verification/Memory_Queue.thy ===== *)
theory Memory_Queue
  imports Chat_Properties
begin

text \<open>
  \<open>tests/MemoryJobQueue.py\<close>, the reference semantics of the queue protocol: a dictionary of rows in
  insertion order, a dictionary of idempotency keys, and the leases handed back by \<open>discard\<close>. A
  dictionary keyed by the job id is the list of its rows. \<open>mem_abs\<close> reads the \<open>jobs\<close> table as such a
  queue, and the refinement lemmas say that every operation of the store, at one instant \<open>now\<close>, is
  the reference operation under that reading, errors included.
\<close>

subsection \<open>State\<close>

record mem_row =
  mr_job :: job
  mr_run_after :: time
  mr_created_at :: time
  mr_lease_id :: "uuid option"
  mr_lease_expires_at :: "time option"
  mr_lease_owner :: "string option"

record mem_queue =
  mem_rows :: "mem_row list"
  mem_keys :: "uuid option \<times> string \<Rightarrow> uuid option"
  mem_discarded :: "uuid list"

datatype mem_error = MemStaleLease uuid uuid | MemKeyError uuid

abbreviation mr_id :: "mem_row \<Rightarrow> uuid" where
  "mr_id m \<equiv> job_id (mr_job m)"

definition mem_find :: "uuid \<Rightarrow> mem_queue \<Rightarrow> mem_row option" where
  "mem_find jid q = find (\<lambda>m. mr_id m = jid) (mem_rows q)"

definition mem_put :: "mem_row \<Rightarrow> mem_row list \<Rightarrow> mem_row list" where
  "mem_put m ms = (if mr_id m \<in> mr_id ` set ms then update_where (\<lambda>x. mr_id x = mr_id m) (\<lambda>_. m) ms
                   else ms @ [m])"

definition mem_write :: "uuid \<Rightarrow> (mem_row \<Rightarrow> mem_row) \<Rightarrow> mem_queue \<Rightarrow> mem_queue" where
  "mem_write jid f q = q\<lparr>mem_rows := update_where (\<lambda>m. mr_id m = jid) f (mem_rows q)\<rparr>"

subsection \<open>Producing\<close>

definition mem_new_row :: "time \<Rightarrow> uuid \<Rightarrow> job_request \<Rightarrow> mem_row" where
  "mem_new_row now new_id req =
     \<lparr>mr_job = \<lparr>job_id = new_id, kind = req_kind req, payload = req_payload req, state = QUEUED,
        attempts = 0, max_attempts = req_max_attempts req, session_id = req_session_id req,
        idempotency_key = req_idempotency_key req, result_ref = None, error = None,
        cancel_requested = False\<rparr>,
      mr_run_after = now + req_delay req, mr_created_at = now,
      mr_lease_id = None, mr_lease_expires_at = None, mr_lease_owner = None\<rparr>"

definition mem_enqueue ::
    "time \<Rightarrow> uuid \<Rightarrow> job_request \<Rightarrow> mem_queue \<Rightarrow> mem_error + (job \<times> mem_queue)" where
  "mem_enqueue now new_id req q =
     (case mem_keys q (req_session_id req, req_idempotency_key req) of
        Some known \<Rightarrow>
          (case mem_find known q of None \<Rightarrow> Inl (MemKeyError known) | Some m \<Rightarrow> Inr (mr_job m, q))
      | None \<Rightarrow>
          let m = mem_new_row now new_id req in
          Inr (mr_job m, q\<lparr>mem_rows := mem_put m (mem_rows q),
             mem_keys := (mem_keys q)((req_session_id req, req_idempotency_key req) \<mapsto> new_id)\<rparr>))"

definition mem_get :: "uuid \<Rightarrow> mem_queue \<Rightarrow> job option" where
  "mem_get jid q = map_option mr_job (mem_find jid q)"

definition mem_cancelled :: "mem_row \<Rightarrow> mem_row" where
  "mem_cancelled m =
     (if state (mr_job m) = RUNNING then m\<lparr>mr_job := (mr_job m)\<lparr>cancel_requested := True\<rparr>\<rparr>
      else m\<lparr>mr_job := (mr_job m)\<lparr>state := CANCELLED, cancel_requested := True\<rparr>\<rparr>)"

definition mem_cancel :: "uuid \<Rightarrow> mem_queue \<Rightarrow> job option \<times> mem_queue" where
  "mem_cancel jid q =
     (case mem_find jid q of
        None \<Rightarrow> (None, q)
      | Some m \<Rightarrow>
          if terminal (state (mr_job m)) then (Some (mr_job m), q)
          else (Some (mr_job (mem_cancelled m)), mem_write jid mem_cancelled q))"

subsection \<open>Consuming\<close>

definition mem_release :: "mem_row \<Rightarrow> mem_row" where
  "mem_release m = m\<lparr>mr_lease_id := None, mr_lease_expires_at := None, mr_lease_owner := None\<rparr>"

definition mem_past :: "time \<Rightarrow> mem_row \<Rightarrow> bool" where
  "mem_past now m \<longleftrightarrow> (case mr_lease_expires_at m of None \<Rightarrow> False | Some e \<Rightarrow> e \<le> now)"

definition mem_retired :: "time \<Rightarrow> mem_row \<Rightarrow> mem_row" where
  "mem_retired now m =
     (let j = mr_job m in
      if state j \<noteq> RUNNING then m
      else if \<not> mem_past now m then m
      else if cancel_requested j then mem_release (m\<lparr>mr_job := j\<lparr>state := CANCELLED\<rparr>\<rparr>)
      else if max_attempts j \<le> attempts j then
        mem_release (m\<lparr>mr_job := j\<lparr>state := DEAD,
          error := (case error j of None \<Rightarrow> Some lease_expired
                    | Some e \<Rightarrow> Some (if e = [] then lease_expired else e))\<rparr>\<rparr>)
      else m)"

definition mem_retire_lapsed :: "time \<Rightarrow> mem_queue \<Rightarrow> mem_queue" where
  "mem_retire_lapsed now q = q\<lparr>mem_rows := map (mem_retired now) (mem_rows q)\<rparr>"

definition mem_reservable :: "time \<Rightarrow> mem_row \<Rightarrow> bool" where
  "mem_reservable now m =
     (let j = mr_job m in
      if state j = QUEUED \<or> state j = FAILED then mr_run_after m \<le> now
      else if state j = RUNNING then
        mem_past now m \<and> attempts j < max_attempts j \<and> \<not> cancel_requested j
      else False)"

definition mem_before :: "mem_row \<Rightarrow> mem_row \<Rightarrow> bool" where
  "mem_before a b \<longleftrightarrow> mr_run_after a < mr_run_after b \<or>
     (mr_run_after a = mr_run_after b \<and> mr_created_at a < mr_created_at b)"

text \<open>Python's \<open>min\<close>: the first of the minimal elements.\<close>

fun mem_min :: "mem_row \<Rightarrow> mem_row list \<Rightarrow> mem_row" where
  "mem_min best [] = best"
| "mem_min best (m # ms) = mem_min (if mem_before m best then m else best) ms"

definition mem_claimed :: "time \<Rightarrow> uuid \<Rightarrow> string \<Rightarrow> time \<Rightarrow> mem_row \<Rightarrow> mem_row" where
  "mem_claimed now token owner dur m =
     m\<lparr>mr_job := (mr_job m)\<lparr>state := RUNNING, attempts := attempts (mr_job m) + 1\<rparr>,
       mr_lease_id := Some token, mr_lease_expires_at := Some (now + dur),
       mr_lease_owner := Some owner\<rparr>"

definition mem_claim ::
    "time \<Rightarrow> uuid \<Rightarrow> string \<Rightarrow> time \<Rightarrow> mem_queue \<Rightarrow> lease option \<times> mem_queue" where
  "mem_claim now token owner dur q =
     (let q1 = mem_retire_lapsed now q in
      case filter (mem_reservable now) (mem_rows q1) of
        [] \<Rightarrow> (None, q1)
      | m # ms \<Rightarrow>
          let best = mem_min m ms; f = mem_claimed now token owner dur in
          (Some \<lparr>l_id = token, l_job = mr_job (f best), l_owner = owner, l_expires_at = now + dur\<rparr>,
           mem_write (mr_id best) f q1))"

text \<open>
  \<open>reserve\<close> scans at each instant of the given list, one per tick, until a claim succeeds or the
  deadline has passed at a scan. The list of ticks ends when the caller stops running.
\<close>

fun mem_reserve ::
    "time \<Rightarrow> uuid \<Rightarrow> string \<Rightarrow> time \<Rightarrow> time list \<Rightarrow> mem_queue \<Rightarrow> lease option \<times> mem_queue" where
  "mem_reserve deadline token owner dur [] q = (None, q)"
| "mem_reserve deadline token owner dur (now # ticks) q =
     (case mem_claim now token owner dur q of
        (Some l, q1) \<Rightarrow> (Some l, q1)
      | (None, q1) \<Rightarrow>
          if deadline \<le> now then (None, q1) else mem_reserve deadline token owner dur ticks q1)"

subsection \<open>Finishing\<close>

definition mem_live :: "lease \<Rightarrow> mem_queue \<Rightarrow> mem_error + mem_row" where
  "mem_live l q =
     (case mem_find (job_id (l_job l)) q of
        None \<Rightarrow> Inl (MemStaleLease (l_id l) (job_id (l_job l)))
      | Some m \<Rightarrow> if mr_lease_id m \<noteq> Some (l_id l)
                  then Inl (MemStaleLease (l_id l) (job_id (l_job l))) else Inr m)"

definition mem_extend ::
    "time \<Rightarrow> lease \<Rightarrow> time \<Rightarrow> mem_queue \<Rightarrow> mem_error + (lease \<times> mem_queue)" where
  "mem_extend now l dur q =
     bindE (mem_live l q) (\<lambda>m.
       Inr (\<lparr>l_id = l_id l, l_job = mr_job m, l_owner = l_owner l, l_expires_at = now + dur\<rparr>,
            mem_write (mr_id m) (\<lambda>m. m\<lparr>mr_lease_expires_at := Some (now + dur)\<rparr>) q))"

definition mem_acked :: "string option \<Rightarrow> mem_row \<Rightarrow> mem_row" where
  "mem_acked ref m = mem_release (m\<lparr>mr_job := (mr_job m)\<lparr>state := DONE, result_ref := ref\<rparr>\<rparr>)"

definition mem_ack :: "lease \<Rightarrow> string option \<Rightarrow> mem_queue \<Rightarrow> mem_error + (unit \<times> mem_queue)" where
  "mem_ack l ref q =
     bindE (mem_live l q) (\<lambda>m. Inr ((), mem_write (mr_id m) (mem_acked ref) q))"

definition mem_nacked :: "time \<Rightarrow> string \<Rightarrow> time option \<Rightarrow> mem_row \<Rightarrow> mem_row" where
  "mem_nacked now err retry_in m =
     (let j = mr_job m;
          st = (if cancel_requested j then CANCELLED
                else if max_attempts j \<le> attempts j then DEAD else FAILED)
      in mem_release (m\<lparr>mr_job := j\<lparr>state := st, error := Some err\<rparr>,
           mr_run_after := now + (case retry_in of None \<Rightarrow> 0 | Some d \<Rightarrow> d)\<rparr>))"

definition mem_nack ::
    "time \<Rightarrow> lease \<Rightarrow> string \<Rightarrow> time option \<Rightarrow> mem_queue \<Rightarrow> mem_error + (unit \<times> mem_queue)" where
  "mem_nack now l err retry_in q =
     bindE (mem_live l q) (\<lambda>m. Inr ((), mem_write (mr_id m) (mem_nacked now err retry_in) q))"

definition mem_discard :: "lease \<Rightarrow> mem_queue \<Rightarrow> mem_queue" where
  "mem_discard l q = q\<lparr>mem_discarded := mem_discarded q @ [l_id l]\<rparr>"

subsection \<open>The table read as a queue\<close>

definition abs_row :: "job_row \<Rightarrow> mem_row" where
  "abs_row r = \<lparr>mr_job = to_job r, mr_run_after = run_after r, mr_created_at = created_at r,
     mr_lease_id = lease_id r, mr_lease_expires_at = lease_expires_at r,
     mr_lease_owner = lease_owner r\<rparr>"

definition abs_keys :: "job_row list \<Rightarrow> uuid option \<times> string \<Rightarrow> uuid option" where
  "abs_keys rs k = map_option job_id (find (\<lambda>r. dedup_key r = k) rs)"

definition mem_abs :: "db \<Rightarrow> mem_queue" where
  "mem_abs db = \<lparr>mem_rows = map abs_row (jobs db), mem_keys = abs_keys (jobs db), mem_discarded = []\<rparr>"

fun mem_error_of :: "db_error \<Rightarrow> mem_error" where
  "mem_error_of (StaleLease t j) = MemStaleLease t j"
| "mem_error_of _ = MemKeyError 0"

definition mem_result :: "db_error + ('a \<times> db) \<Rightarrow> mem_error + ('a \<times> mem_queue)" where
  "mem_result = map_sum mem_error_of (map_prod id mem_abs)"

lemma mem_result_simps [simp]:
  "mem_result (Inl e) = Inl (mem_error_of e)"
  "mem_result (Inr (x, db)) = Inr (x, mem_abs db)"
  by (simp_all add: mem_result_def)

lemma abs_row_sel [simp]:
  "mr_job (abs_row r) = to_job r" "mr_run_after (abs_row r) = run_after r"
  "mr_created_at (abs_row r) = created_at r" "mr_lease_id (abs_row r) = lease_id r"
  "mr_lease_expires_at (abs_row r) = lease_expires_at r" "mr_lease_owner (abs_row r) = lease_owner r"
  by (simp_all add: abs_row_def)

lemma mem_find_abs: "mem_find jid (mem_abs db) = map_option abs_row (find (\<lambda>r. job_id r = jid) (jobs db))"
proof -
  have "find (\<lambda>m. mr_id m = jid) (map abs_row rs) = map_option abs_row (find (\<lambda>r. job_id r = jid) rs)" for rs
    by (induction rs) auto
  then show ?thesis by (simp add: mem_find_def mem_abs_def)
qed

lemma find_job:
  "db_ok db \<Longrightarrow> r \<in> set (jobs db) \<Longrightarrow> find (\<lambda>x. job_id x = job_id r) (jobs db) = Some r"
  by (rule find_key_Some) (auto simp: db_ok_def dest: db_okD(1))

text \<open>
  A statement that hits one row and keeps its identity is, read in memory, a write to the row of
  that id.
\<close>

lemma abs_write:
  assumes ok: "db_ok db" and r: "r \<in> set (jobs db)" "P r" and P: "\<forall>x. P x \<longrightarrow> job_id x = job_id r"
    and keep: "\<And>x. job_id (f x) = job_id x \<and> dedup_key (f x) = dedup_key x"
    and wr: "abs_row (f r) = g (abs_row r)"
    and db': "jobs db' = update_where P f (jobs db)"
  shows "mem_abs db' = mem_write (job_id r) g (mem_abs db)"
proof -
  have "abs_row (if P x then f x else x) =
      (if mr_id (abs_row x) = job_id r then g (abs_row x) else abs_row x)" if x: "x \<in> set (jobs db)" for x
  proof (cases "P x")
    case True
    with P have "job_id x = job_id r" by blast
    with same_job [OF ok [unfolded db_ok_def] x r(1)] have "x = r" by blast
    with r(2) wr show ?thesis by simp
  next
    case False
    with same_job [OF ok [unfolded db_ok_def] x r(1)] r(2) have "job_id x \<noteq> job_id r" by blast
    with False show ?thesis by simp
  qed
  then have "map abs_row (update_where P f (jobs db)) =
      update_where (\<lambda>m. mr_id m = job_id r) g (map abs_row (jobs db))"
    by (simp add: update_where_def)
  moreover have "abs_keys (update_where P f rs) = abs_keys rs" for rs
    by (rule ext, induction rs) (auto simp: abs_keys_def keep)
  ultimately show ?thesis by (simp add: mem_abs_def mem_write_def db')
qed

subsection \<open>The store refines the reference\<close>

lemma mem_live_held:
  assumes "db_ok db" "r \<in> set (jobs db)" "fencing l r"
  shows "mem_live l (mem_abs db) = Inr (abs_row r)"
  using find_job [OF assms(1,2)] assms(3) by (simp add: mem_live_def mem_find_abs fencing_def)

lemma mem_live_stale:
  assumes "\<forall>r \<in> set (jobs db). \<not> fencing l r"
  shows "mem_live l (mem_abs db) = Inl (MemStaleLease (l_id l) (job_id (l_job l)))"
proof (cases "find (\<lambda>r. job_id r = job_id (l_job l)) (jobs db)")
  case None
  then show ?thesis by (simp add: mem_live_def mem_find_abs)
next
  case (Some r)
  with find_SomeD [OF Some] assms have "lease_id r \<noteq> Some (l_id l)" by (auto simp: fencing_def)
  with Some show ?thesis by (simp add: mem_live_def mem_find_abs)
qed

lemma fencing_cases:
  assumes "db_ok db"
  obtains (held) r where "r \<in> set (jobs db)" "fencing l r"
      "mem_live l (mem_abs db) = Inr (abs_row r)"
  | (stale) "\<forall>r \<in> set (jobs db). \<not> fencing l r"
      "mem_live l (mem_abs db) = Inl (MemStaleLease (l_id l) (job_id (l_job l)))"
  using mem_live_held [OF assms] mem_live_stale by blast

lemma abs_row_acked: "abs_row (acked_row now ref r) = mem_acked ref (abs_row r)"
  by (simp add: abs_row_def acked_row_def released_def mem_acked_def mem_release_def to_job_def
      job.truncate_def)

lemma abs_row_nacked: "abs_row (nacked_row now err rt r) = mem_nacked now err rt (abs_row r)"
  by (simp add: abs_row_def nacked_row_def released_def mem_nacked_def mem_release_def to_job_def
      job.truncate_def Let_def nack_state_def)

lemma abs_row_extended:
  "abs_row (extended_row now dur r) = (abs_row r)\<lparr>mr_lease_expires_at := Some (now + dur)\<rparr>"
  by (simp add: abs_row_def extended_row_def to_job_def job.truncate_def)

lemma abs_row_cancelled: "abs_row (cancelled_row now r) = mem_cancelled (abs_row r)"
  by (simp add: abs_row_def cancelled_row_def mem_cancelled_def to_job_def job.truncate_def)

lemma abs_row_claimed:
  "abs_row (claimed_row now token owner dur r) = mem_claimed now token owner dur (abs_row r)"
  by (simp add: abs_row_def claimed_row_def mem_claimed_def to_job_def job.truncate_def)

lemma ack_refines:
  assumes ok: "db_ok db"
  shows "mem_ack l ref (mem_abs db) = mem_result (ack now l ref db)"
proof (rule fencing_cases [OF ok, of l])
  fix r
  assume held: "r \<in> set (jobs db)" "fencing l r" "mem_live l (mem_abs db) = Inr (abs_row r)"
  obtain db' where d: "ack now l ref db = Inr ((), db')"
      "jobs db' = update_where (fencing l) (acked_row now ref) (jobs db)"
    using ack_live [OF ok held(1,2), of now ref] by blast
  have "mem_abs db' = mem_write (job_id r) (mem_acked ref) (mem_abs db)"
    by (rule abs_write [OF ok held(1,2) fencing_unique [OF held(2)] writes_ident(3) _ d(2)])
       (rule abs_row_acked)
  with held d show ?thesis by (simp add: mem_ack_def)
next
  assume "\<forall>r \<in> set (jobs db). \<not> fencing l r"
    "mem_live l (mem_abs db) = Inl (MemStaleLease (l_id l) (job_id (l_job l)))"
  then show ?thesis by (simp add: mem_ack_def ack_stale stale_lease_def)
qed

lemma nack_refines:
  assumes ok: "db_ok db"
  shows "mem_nack now l err rt (mem_abs db) = mem_result (map_sum id (map_prod (\<lambda>_. ()) id) (nack now l err rt db))"
proof (rule fencing_cases [OF ok, of l])
  fix r
  assume held: "r \<in> set (jobs db)" "fencing l r" "mem_live l (mem_abs db) = Inr (abs_row r)"
  obtain db' where d: "nack now l err rt db = Inr (to_job (nacked_row now err rt r), db')"
      "jobs db' = update_where (fencing l) (nacked_row now err rt) (jobs db)"
    using nack_live [OF ok held(1,2), of now err rt] by blast
  have "mem_abs db' = mem_write (job_id r) (mem_nacked now err rt) (mem_abs db)"
    by (rule abs_write [OF ok held(1,2) fencing_unique [OF held(2)] writes_ident(4) _ d(2)])
       (rule abs_row_nacked)
  with held d show ?thesis by (simp add: mem_nack_def)
next
  assume "\<forall>r \<in> set (jobs db). \<not> fencing l r"
    "mem_live l (mem_abs db) = Inl (MemStaleLease (l_id l) (job_id (l_job l)))"
  then show ?thesis by (simp add: mem_nack_def nack_stale stale_lease_def)
qed

lemma extend_refines:
  assumes ok: "db_ok db"
  shows "mem_extend now l dur (mem_abs db) = mem_result (Job_Store.extend now l dur db)"
proof (rule fencing_cases [OF ok, of l])
  fix r
  assume held: "r \<in> set (jobs db)" "fencing l r" "mem_live l (mem_abs db) = Inr (abs_row r)"
  let ?db' = "db\<lparr>jobs := update_where (fencing l) (extended_row now dur) (jobs db)\<rparr>"
  have "mem_abs ?db' =
      mem_write (job_id r) (\<lambda>m. m\<lparr>mr_lease_expires_at := Some (now + dur)\<rparr>) (mem_abs db)"
    by (rule abs_write [OF ok held(1,2) fencing_unique [OF held(2)] writes_ident(2)])
       (simp_all add: abs_row_extended)
  moreover have "to_job (extended_row now dur r) = to_job r"
    by (simp add: to_job_def extended_row_def job.truncate_def)
  ultimately show ?thesis using held extend_live(1) [OF ok held(1,2), of now dur]
    by (simp add: mem_extend_def)
next
  assume "\<forall>r \<in> set (jobs db). \<not> fencing l r"
    "mem_live l (mem_abs db) = Inl (MemStaleLease (l_id l) (job_id (l_job l)))"
  then show ?thesis by (simp add: mem_extend_def extend_stale stale_lease_def)
qed

lemma get_refines: "mem_get jid (mem_abs db) = get jid db"
  by (simp add: mem_get_def mem_find_abs get_def option.map_comp comp_def)

lemma cancel_refines:
  assumes ok: "db_ok db"
  shows "map_sum mem_error_of (map_prod id mem_abs) (cancel now jid db) = Inr (mem_cancel jid (mem_abs db))"
proof (cases "find (\<lambda>r. job_id r = jid) (jobs db)")
  case None
  then have none: "\<forall>r \<in> set (jobs db). \<not> (job_id r = jid \<and> \<not> terminal (state r))"
    by (auto simp: find_None_iff)
  from cancel_unknown [OF none, of now] None show ?thesis
    by (simp add: mem_cancel_def mem_find_abs get_def)
next
  case (Some r)
  then have r: "r \<in> set (jobs db)" "job_id r = jid" using find_SomeD [OF Some] by auto
  show ?thesis
  proof (cases "terminal (state r)")
    case True
    have "\<forall>x \<in> set (jobs db). \<not> (job_id x = jid \<and> \<not> terminal (state x))"
    proof (intro ballI notI)
      fix x
      assume x: "x \<in> set (jobs db)" "job_id x = jid \<and> \<not> terminal (state x)"
      with same_job [OF ok [unfolded db_ok_def] x(1) r(1)] r(2) have "x = r" by simp
      with x(2) True show False by simp
    qed
    then have "cancel now jid db = Inr (get jid db, db)" by (rule cancel_unknown)
    with Some True show ?thesis by (simp add: mem_cancel_def mem_find_abs get_def)
  next
    case False
    let ?P = "\<lambda>x. job_id x = job_id r \<and> \<not> terminal (state x)"
    obtain db' where d: "cancel now (job_id r) db = Inr (Some (to_job (cancelled_row now r)), db')"
        "jobs db' = update_where ?P (cancelled_row now) (jobs db)"
      using cancel_live [OF ok r(1) False, of now] by blast
    have "mem_abs db' = mem_write (job_id r) mem_cancelled (mem_abs db)"
      by (rule abs_write [OF ok r(1) _ _ writes_ident(5) _ d(2)])
         (use False in \<open>simp_all add: abs_row_cancelled\<close>)
    moreover have "mr_job (mem_cancelled (abs_row r)) = to_job (cancelled_row now r)"
      using abs_row_cancelled [of now r] by (metis abs_row_sel(1))
    ultimately show ?thesis using d(1) Some False r(2) by (simp add: mem_cancel_def mem_find_abs)
  qed
qed

subsection \<open>Enqueueing\<close>

lemma abs_keys_find: "abs_keys rs k = Some i \<Longrightarrow> \<exists>r \<in> set rs. dedup_key r = k \<and> job_id r = i"
  by (auto simp: abs_keys_def dest: find_SomeD)

lemma abs_keys_append:
  "abs_keys rs (dedup_key r) = None \<Longrightarrow> abs_keys (rs @ [r]) = (abs_keys rs)(dedup_key r \<mapsto> job_id r)"
proof
  fix k
  have "find P (rs @ [r]) = (case find P rs of None \<Rightarrow> if P r then Some r else None | Some x \<Rightarrow> Some x)" for P
    by (induction rs) auto
  moreover assume "abs_keys rs (dedup_key r) = None"
  ultimately show "abs_keys (rs @ [r]) k = ((abs_keys rs)(dedup_key r \<mapsto> job_id r)) k"
    by (auto simp: abs_keys_def split: option.splits)
qed

lemma abs_row_new: "abs_row (new_row now i req) = mem_new_row now i req"
  by (simp add: abs_row_def new_row_def mem_new_row_def to_job_def job.truncate_def)

lemma enqueue_refines:
  assumes ok: "db_ok db" and req: "int4 (req_max_attempts req)" "0 < req_max_attempts req"
    and fresh: "new_id \<notin> job_id ` set (jobs db)"
    and sess: "\<And>s. req_session_id req = Some s \<Longrightarrow> chat_sessions db s \<noteq> None"
  shows "mem_enqueue now new_id req (mem_abs db) =
    mem_result (map_sum id (map_prod fst id) (insert_or_get now new_id req db))"
proof (cases "find (\<lambda>r. dedup_key r = (req_session_id req, req_idempotency_key req)) (jobs db)")
  case (Some r)
  then have r: "r \<in> set (jobs db)" using find_SomeD [OF Some] by simp
  have "mem_keys (mem_abs db) (req_session_id req, req_idempotency_key req) = Some (job_id r)"
    using Some by (simp add: mem_abs_def abs_keys_def)
  with insert_existing [OF req Some, of now new_id] find_job [OF ok r] show ?thesis
    by (simp add: mem_enqueue_def mem_find_abs)
next
  case None
  let ?row = "new_row now new_id req"
  have none: "\<forall>r \<in> set (jobs db). dedup_key r \<noteq> (req_session_id req, req_idempotency_key req)"
    using None by (auto simp: find_None_iff)
  obtain db' where d: "insert_or_get now new_id req db = Inr ((to_job ?row, True), db')"
      "jobs db' = jobs db @ [?row]"
    using insert_new [OF ok req none fresh sess, of now] by blast
  have key: "abs_keys (jobs db) (req_session_id req, req_idempotency_key req) = None"
    using None by (simp add: abs_keys_def)
  have dk: "dedup_key ?row = (req_session_id req, req_idempotency_key req)" "job_id ?row = new_id"
    by (simp_all add: dedup_key_def new_row_def)
  have row: "mr_id (mem_new_row now new_id req) = new_id" by (simp add: mem_new_row_def)
  have "mem_put (mem_new_row now new_id req) (map abs_row (jobs db)) = map abs_row (jobs db @ [?row])"
    using fresh by (auto simp: mem_put_def row abs_row_new image_image)
  moreover have "to_job ?row = mr_job (mem_new_row now new_id req)"
    using abs_row_new [of now new_id req] by (metis abs_row_sel(1))
  ultimately show ?thesis
    using d key abs_keys_append [of "jobs db" ?row] dk
    by (simp add: mem_enqueue_def mem_abs_def Let_def)
qed

subsection \<open>Claiming\<close>

text \<open>
  The two backings read a deadline differently at its very instant: the reference lets a lease lapse
  at \<open>lease_expires_at <= now\<close>, the table at \<open>lease_expires_at < now\<close>. Elsewhere they agree.
\<close>

definition no_deadline_at :: "time \<Rightarrow> db \<Rightarrow> bool" where
  "no_deadline_at now db \<longleftrightarrow> (\<forall>r \<in> set (jobs db). lease_expires_at r \<noteq> Some now)"

definition no_blank_error :: "db \<Rightarrow> bool" where
  "no_blank_error db \<longleftrightarrow> (\<forall>r \<in> set (jobs db). error r \<noteq> Some [])"

lemma mem_past_abs: "lease_expires_at r \<noteq> Some now \<Longrightarrow> mem_past now (abs_row r) = lease_before now r"
  by (auto simp: mem_past_def lease_before_def split: option.splits)

lemma abs_row_retired:
  "cancel_requested r \<Longrightarrow> abs_row (retired_row now r) =
     mem_release ((abs_row r)\<lparr>mr_job := (to_job r)\<lparr>state := CANCELLED\<rparr>\<rparr>)"
  "\<not> cancel_requested r \<Longrightarrow> error r \<noteq> Some [] \<Longrightarrow> abs_row (retired_row now r) =
     mem_release ((abs_row r)\<lparr>mr_job := (to_job r)\<lparr>state := DEAD,
       error := (case error r of None \<Rightarrow> Some lease_expired
                 | Some e \<Rightarrow> Some (if e = [] then lease_expired else e))\<rparr>\<rparr>)"
  by (auto simp: retired_row_def released_def mem_release_def abs_row_def to_job_def job.truncate_def
      split: option.splits)

lemma mem_retired_abs:
  assumes "lease_expires_at r \<noteq> Some now" "error r \<noteq> Some []"
  shows "mem_retired now (abs_row r) =
           abs_row (if lapsed_for_good now r then retired_row now r else r)"
proof (cases "lapsed_for_good now r")
  case True
  with assms abs_row_retired [of r now] show ?thesis
    by (cases "cancel_requested r")
       (simp_all add: mem_retired_def mem_past_abs Let_def lapsed_for_good_def)
next
  case False
  with assms(1) show ?thesis
    by (auto simp: mem_retired_def mem_past_abs Let_def lapsed_for_good_def)
qed

lemma retire_refines:
  assumes ok: "db_ok db" and "no_deadline_at now db" "no_blank_error db"
  shows "\<exists>db'. retire_lapsed now db = Inr (map job_id (filter (lapsed_for_good now) (jobs db)), db') \<and>
           db_ok db' \<and> mem_abs db' = mem_retire_lapsed now (mem_abs db) \<and> no_deadline_at now db'"
proof -
  obtain db' where d: "retire_lapsed now db = Inr (map job_id (filter (lapsed_for_good now) (jobs db)), db')"
      "db_ok db'" "jobs db' = update_where (lapsed_for_good now) (retired_row now) (jobs db)"
    using retire_lapsed_ok [OF ok, of now] by blast
  have "map abs_row (jobs db') = map (mem_retired now) (map abs_row (jobs db))"
    using assms(2,3) mem_retired_abs
    by (auto simp: d(3) update_where_def no_deadline_at_def no_blank_error_def)
  moreover have "abs_keys (update_where (lapsed_for_good now) (retired_row now) rs) = abs_keys rs" for rs
    by (rule ext, induction rs) (auto simp: abs_keys_def writes_keep_identity)
  moreover have "no_deadline_at now db'"
    using assms(2) by (auto simp: no_deadline_at_def d(3) retired_row_def released_def elim!: in_update_whereE)
  ultimately show ?thesis
    using d by (simp add: mem_abs_def mem_retire_lapsed_def)
qed

lemma mem_reservable_abs:
  "lease_expires_at r \<noteq> Some now \<Longrightarrow> mem_reservable now (abs_row r) = (waiting now r \<or> lapsed now r)"
  by (auto simp: mem_reservable_def mem_past_abs Let_def waiting_def lapsed_def)

lemma mem_min_in: "mem_min m ms \<in> set (m # ms)"
proof (induction ms arbitrary: m)
  case (Cons a ms)
  from Cons [of "if mem_before a m then a else m"] show ?case by auto
qed simp

lemma mem_before_trans: "\<not> mem_before a b \<Longrightarrow> \<not> mem_before b c \<Longrightarrow> \<not> mem_before a c"
  by (auto simp: mem_before_def)

lemma mem_min_least: "x \<in> set (m # ms) \<Longrightarrow> \<not> mem_before x (mem_min m ms)"
proof (induction ms arbitrary: m x)
  case Nil
  then show ?case by (simp add: mem_before_def)
next
  case (Cons a ms)
  let ?b = "if mem_before a m then a else m"
  have b: "\<not> mem_before ?b (mem_min ?b ms)" by (rule Cons.IH) simp
  have "\<not> mem_before a ?b" "\<not> mem_before m ?b" by (auto simp: mem_before_def)
  with b have "\<not> mem_before a (mem_min ?b ms)" "\<not> mem_before m (mem_min ?b ms)"
    by (blast dest: mem_before_trans)+
  with Cons show ?case by auto
qed

text \<open>A job nobody waits longer for: it can be claimed, and no row that can be was due before it, or at
  the same instant and made before it.\<close>

definition longest_due :: "time \<Rightarrow> uuid \<Rightarrow> db \<Rightarrow> bool" where
  "longest_due now jid db \<longleftrightarrow>
     (\<exists>r \<in> set (jobs db). job_id r = jid \<and> (waiting now r \<or> lapsed now r) \<and>
        (\<forall>x \<in> set (jobs db). waiting now x \<or> lapsed now x \<longrightarrow>
           run_after r < run_after x \<or> run_after r = run_after x \<and> created_at r \<le> created_at x))"

lemma claim_refines:
  assumes ok: "db_ok db" and "no_deadline_at now db" "no_blank_error db"
  shows "\<exists>ids db1. retire_lapsed now db = Inr (ids, db1) \<and>
    (case mem_claim now token owner dur (mem_abs db) of
       (None, q) \<Rightarrow> q = mem_abs db1 \<and> (\<forall>jid. claim now token jid owner dur db1 = Inr (None, db1))
     | (Some l, q) \<Rightarrow> longest_due now (job_id (l_job l)) db1 \<and>
         (\<exists>db2. claim now token (job_id (l_job l)) owner dur db1 = Inr (Some l, db2) \<and> q = mem_abs db2))"
proof -
  obtain ids db1 where d1: "retire_lapsed now db = Inr (ids, db1)" "db_ok db1"
      "mem_abs db1 = mem_retire_lapsed now (mem_abs db)" "no_deadline_at now db1"
    using retire_refines [OF assms] by blast
  let ?free = "\<lambda>r. waiting now r \<or> lapsed now r"
  have free: "filter (mem_reservable now) (mem_rows (mem_abs db1)) = map abs_row (filter ?free (jobs db1))"
    using d1(4) mem_reservable_abs
    by (auto simp: mem_abs_def filter_map no_deadline_at_def intro!: arg_cong [where f = "map abs_row"] filter_cong)
  show ?thesis
  proof (cases "filter ?free (jobs db1)")
    case Nil
    then have "claim now token jid owner dur db1 = Inr (None, db1)" for jid
      by (intro claim_refused) (auto simp: filter_empty_conv)
    with Nil free d1 show ?thesis by (simp add: mem_claim_def Let_def)
  next
    case (Cons r rs)
    then obtain m ms where cons: "map abs_row (filter ?free (jobs db1)) = m # ms" by simp
    let ?b = "mem_min m ms" and ?f = "claimed_row now token owner dur"
    have "?b \<in> set (map abs_row (filter ?free (jobs db1)))" unfolding cons by (rule mem_min_in)
    then obtain r where r: "r \<in> set (jobs db1)" "?free r" "?b = abs_row r" by auto
    let ?l = "\<lparr>l_id = token, l_job = to_job (?f r), l_owner = owner, l_expires_at = now + dur\<rparr>"
    let ?P = "\<lambda>x. job_id x = job_id r \<and> ?free x"
    obtain db2 where d2: "claim now token (job_id r) owner dur db1 = Inr (Some ?l, db2)"
        "jobs db2 = update_where ?P ?f (jobs db1)"
      using claim_granted [OF d1(2) r(1,2), of token owner dur] by blast
    have "mem_abs db2 = mem_write (job_id r) (mem_claimed now token owner dur) (mem_abs db1)"
      by (rule abs_write [OF d1(2) r(1) _ _ writes_ident(1) _ d2(2)])
         (use r(2) in \<open>simp_all add: abs_row_claimed\<close>)
    moreover have "mr_job (mem_claimed now token owner dur (abs_row r)) = to_job (?f r)"
      using abs_row_claimed [of now token owner dur r] by (metis abs_row_sel(1))
    ultimately have "mem_claim now token owner dur (mem_abs db) = (Some ?l, mem_abs db2)"
      using free cons r(3) d1(3) by (simp add: mem_claim_def Let_def)
    moreover have "longest_due now (job_id r) db1"
    proof -
      have "\<not> mem_before (abs_row x) (abs_row r)" if "x \<in> set (jobs db1)" "?free x" for x
        using mem_min_least [of "abs_row x" m ms] that by (simp add: r(3) flip: cons)
      then have "run_after r < run_after x \<or> run_after r = run_after x \<and> created_at r \<le> created_at x"
        if "x \<in> set (jobs db1)" "?free x" for x
        using that by (fastforce simp: mem_before_def abs_row_def)
      with r show ?thesis by (auto simp: longest_due_def)
    qed
    ultimately show ?thesis using d1(1) d2(1) by (simp add: writes_keep_identity)
  qed
qed

end
