(* ===== verification/Queue_Contract.thy ===== *)
theory Queue_Contract
  imports Memory_Queue
begin

text \<open>
  \<open>core/jobs.py\<close>, class \<open>JobQueue\<close>: the protocol as an interface. A consumer sees a state it cannot
  look into, the job behind an id, and whether the token of a lease is still the live one; the laws
  are what the protocol's docstrings promise of \<open>extend\<close>, \<open>ack\<close>, \<open>nack\<close>, \<open>cancel\<close> and of a claim.
  The consumer's lemmas are proved once from the laws. The Postgres store and the in-memory
  reference are the two interpretations.
\<close>

abbreviation lease_job :: "lease \<Rightarrow> uuid" where
  "lease_job l \<equiv> job_id (l_job l)"

definition done_job :: "string option \<Rightarrow> job \<Rightarrow> job" where
  "done_job ref j = j\<lparr>state := DONE, result_ref := ref\<rparr>"

definition nacked_job :: "string \<Rightarrow> job \<Rightarrow> job" where
  "nacked_job err j = j\<lparr>state := nack_state j, error := Some err\<rparr>"

definition stopped_job :: "job \<Rightarrow> job" where
  "stopped_job j =
     (if terminal (state j) then j
      else j\<lparr>cancel_requested := True, state := (if state j = RUNNING then RUNNING else CANCELLED)\<rparr>)"

lemma contract_job_sel [simp]:
  "state (done_job ref j) = DONE" "job_id (done_job ref j) = job_id j"
  "state (nacked_job err j) = nack_state j" "job_id (nacked_job err j) = job_id j"
  "job_id (stopped_job j) = job_id j"
  by (simp_all add: done_job_def nacked_job_def stopped_job_def)

lemma stopped_running: "state j = RUNNING \<Longrightarrow> stopped_job j = j\<lparr>cancel_requested := True\<rparr>"
  by (cases j) (simp add: stopped_job_def)

subsection \<open>The protocol\<close>

locale job_queue =
  fixes good :: "'s \<Rightarrow> bool"
    and look :: "uuid \<Rightarrow> 's \<Rightarrow> job option"
    and holds :: "lease \<Rightarrow> 's \<Rightarrow> bool"
    and q_ack :: "time \<Rightarrow> lease \<Rightarrow> string option \<Rightarrow> 's \<Rightarrow> 's option"
    and q_nack :: "time \<Rightarrow> lease \<Rightarrow> string \<Rightarrow> time option \<Rightarrow> 's \<Rightarrow> 's option"
    and q_extend :: "time \<Rightarrow> lease \<Rightarrow> time \<Rightarrow> 's \<Rightarrow> (lease \<times> 's) option"
    and q_cancel :: "time \<Rightarrow> uuid \<Rightarrow> 's \<Rightarrow> job option \<times> 's"
  assumes held_running: "good s \<Longrightarrow> holds l s \<Longrightarrow>
        \<exists>j. look (lease_job l) s = Some j \<and> state j = RUNNING \<and> job_id j = lease_job l"
    and one_token: "good s \<Longrightarrow> holds l s \<Longrightarrow> lease_job l' = lease_job l \<Longrightarrow>
        holds l' s \<longleftrightarrow> l_id l' = l_id l"
    and ack_held: "good s \<Longrightarrow> holds l s \<Longrightarrow> look (lease_job l) s = Some j \<Longrightarrow>
        \<exists>s'. q_ack now l ref s = Some s' \<and> good s' \<and> look (lease_job l) s' = Some (done_job ref j)"
    and nack_held: "good s \<Longrightarrow> holds l s \<Longrightarrow> look (lease_job l) s = Some j \<Longrightarrow>
        \<exists>s'. q_nack now l err rt s = Some s' \<and> good s' \<and>
             look (lease_job l) s' = Some (nacked_job err j)"
    and extend_held: "good s \<Longrightarrow> holds l s \<Longrightarrow> look (lease_job l) s = Some j \<Longrightarrow>
        \<exists>s'. q_extend now l by s = Some (\<lparr>l_id = l_id l, l_job = j, l_owner = l_owner l,
               l_expires_at = now + by\<rparr>, s') \<and> good s' \<and> (\<forall>l'. holds l' s' = holds l' s) \<and>
             (\<forall>i. look i s' = look i s)"
    and stale_refused: "good s \<Longrightarrow> \<not> holds l s \<Longrightarrow>
        q_ack now l ref s = None \<and> q_nack now l err rt s = None \<and> q_extend now l by s = None"
    and cancel_stops: "good s \<Longrightarrow> \<exists>s'. q_cancel now i s = (map_option stopped_job (look i s), s') \<and>
        good s' \<and> look i s' = map_option stopped_job (look i s) \<and> (\<forall>l. holds l s' = holds l s)"
begin

lemma ended_not_held:
  "good s \<Longrightarrow> look (lease_job l) s = Some j \<Longrightarrow> state j \<noteq> RUNNING \<Longrightarrow> \<not> holds l s"
  using held_running by fastforce

lemma ack_settles:
  assumes "good s" "holds l s" "lease_job l' = lease_job l"
  shows "\<exists>s'. q_ack now l ref s = Some s' \<and> good s' \<and> \<not> holds l' s' \<and> q_ack now2 l' ref2 s' = None \<and>
           q_nack now2 l' err rt s' = None \<and> q_extend now2 l' by s' = None"
proof -
  obtain j where j: "look (lease_job l) s = Some j" using held_running [OF assms(1,2)] by blast
  obtain s' where s': "q_ack now l ref s = Some s'" "good s'"
      "look (lease_job l) s' = Some (done_job ref j)"
    using ack_held [OF assms(1,2) j] by blast
  have "\<not> holds l' s'" using ended_not_held [OF s'(2), of l'] s'(3) assms(3) by simp
  with s' stale_refused [OF s'(2)] show ?thesis by blast
qed

lemma nack_settles:
  assumes "good s" "holds l s" "lease_job l' = lease_job l"
  shows "\<exists>s'. q_nack now l err rt s = Some s' \<and> good s' \<and> \<not> holds l' s' \<and>
           q_ack now2 l' ref2 s' = None \<and> q_nack now2 l' err2 rt2 s' = None"
proof -
  obtain j where j: "look (lease_job l) s = Some j" using held_running [OF assms(1,2)] by blast
  obtain s' where s': "q_nack now l err rt s = Some s'" "good s'"
      "look (lease_job l) s' = Some (nacked_job err j)"
    using nack_held [OF assms(1,2) j] by blast
  have "nack_state j \<noteq> RUNNING" by (simp add: nack_state_def)
  then have "\<not> holds l' s'" using ended_not_held [OF s'(2), of l'] s'(3) assms(3) by simp
  with s' stale_refused [OF s'(2)] show ?thesis by blast
qed

text \<open>The cancellation protocol: the flag reaches the holder in its next heartbeat.\<close>

lemma cancel_reaches_holder:
  assumes "good s" "holds l s"
  shows "\<exists>s1 l2 s2 s3. q_cancel now (lease_job l) s = (Some (l_job l2), s1) \<and>
           q_extend now2 l by s1 = Some (l2, s2) \<and> l_id l2 = l_id l \<and> cancel_requested (l_job l2) \<and>
           q_nack now3 l2 err rt s2 = Some s3 \<and>
           (\<exists>j. look (lease_job l) s3 = Some j \<and> state j = CANCELLED)"
proof -
  obtain j where j: "look (lease_job l) s = Some j" "state j = RUNNING" "job_id j = lease_job l"
    using held_running [OF assms] by blast
  let ?j1 = "j\<lparr>cancel_requested := True\<rparr>"
  obtain s1 where s1: "q_cancel now (lease_job l) s = (Some ?j1, s1)" "good s1"
      "look (lease_job l) s1 = Some ?j1" "\<forall>l. holds l s1 = holds l s"
    using cancel_stops [OF assms(1), of now "lease_job l"] j stopped_running by force
  let ?l2 = "\<lparr>l_id = l_id l, l_job = ?j1, l_owner = l_owner l, l_expires_at = now2 + by\<rparr>"
  have held1: "holds l s1" using s1(4) assms(2) by blast
  obtain s2 where s2: "q_extend now2 l by s1 = Some (?l2, s2)" "good s2"
      "\<forall>l'. holds l' s2 = holds l' s1" "\<forall>i. look i s2 = look i s1"
    using extend_held [OF s1(2) held1 s1(3), of now2 "by"] by blast
  have same: "lease_job ?l2 = lease_job l" using j(3) by simp
  have "holds ?l2 s1" using one_token [OF s1(2) held1 same] by simp
  then have held2: "holds ?l2 s2" using s2(3) by blast
  have "look (lease_job ?l2) s2 = Some ?j1" using s1(3) s2(4) same by simp
  from nack_held [OF s2(2) held2 this, of now3 err rt] obtain s3 where
    s3: "q_nack now3 ?l2 err rt s2 = Some s3" "look (lease_job ?l2) s3 = Some (nacked_job err ?j1)"
    by blast
  have "state (nacked_job err ?j1) = CANCELLED" by (simp add: nack_state_def)
  then show ?thesis using s1(1) s2(1) s3 same by fastforce
qed

end

text \<open>With a claim: a fresh token takes over the job, and every older token stops being live.\<close>

locale claiming_queue = job_queue +
  fixes q_claim :: "time \<Rightarrow> uuid \<Rightarrow> string \<Rightarrow> time \<Rightarrow> 's \<Rightarrow> lease option \<times> 's"
  assumes claim_takes: "good s \<Longrightarrow> q_claim now token owner dur s = (Some l, s') \<Longrightarrow>
        good s' \<and> l_id l = token \<and> holds l s' \<and> look (lease_job l) s' = Some (l_job l) \<and>
        state (l_job l) = RUNNING"
    and claim_none: "good s \<Longrightarrow> q_claim now token owner dur s = (None, s') \<Longrightarrow> good s'"
begin

lemma claim_fences:
  assumes "good s" "q_claim now token owner dur s = (Some l, s')"
    "lease_job l0 = lease_job l" "l_id l0 \<noteq> token"
  shows "q_ack now2 l0 ref s' = None \<and> q_nack now2 l0 err rt s' = None \<and> q_extend now2 l0 by s' = None"
proof -
  note c = claim_takes [OF assms(1,2)]
  then have "\<not> holds l0 s'" using one_token [of s' l l0] assms(3,4) by simp
  with c stale_refused [of s' l0] show ?thesis by blast
qed

end

subsection \<open>The reference provides it\<close>

definition mem_ok :: "mem_queue \<Rightarrow> bool" where
  "mem_ok q \<longleftrightarrow> distinct (map mr_id (mem_rows q)) \<and>
     (\<forall>m \<in> set (mem_rows q). (mr_lease_id m = None) = (state (mr_job m) \<noteq> RUNNING))"

definition mem_holds :: "lease \<Rightarrow> mem_queue \<Rightarrow> bool" where
  "mem_holds l q \<longleftrightarrow> \<not> isl (mem_live l q)"

definition succeeded :: "'e + 'a \<Rightarrow> 'a option" where
  "succeeded r = (case r of Inl _ \<Rightarrow> None | Inr x \<Rightarrow> Some x)"

lemma succeeded_simps [simp]: "succeeded (Inl e) = None" "succeeded (Inr x) = Some x"
  by (simp_all add: succeeded_def)

definition mem_ack_at :: "time \<Rightarrow> lease \<Rightarrow> string option \<Rightarrow> mem_queue \<Rightarrow> mem_queue option" where
  "mem_ack_at now l ref q = map_option snd (succeeded (mem_ack l ref q))"

definition mem_nack_at ::
    "time \<Rightarrow> lease \<Rightarrow> string \<Rightarrow> time option \<Rightarrow> mem_queue \<Rightarrow> mem_queue option" where
  "mem_nack_at now l err rt q = map_option snd (succeeded (mem_nack now l err rt q))"

definition mem_extend_at :: "time \<Rightarrow> lease \<Rightarrow> time \<Rightarrow> mem_queue \<Rightarrow> (lease \<times> mem_queue) option" where
  "mem_extend_at now l dur q = succeeded (mem_extend now l dur q)"

definition mem_cancel_at :: "time \<Rightarrow> uuid \<Rightarrow> mem_queue \<Rightarrow> job option \<times> mem_queue" where
  "mem_cancel_at now jid q = mem_cancel jid q"

lemmas mem_at_defs = mem_ack_at_def mem_nack_at_def mem_extend_at_def mem_cancel_at_def

lemma mem_find_write:
  assumes "\<And>m. mr_id (f m) = mr_id m"
  shows "mem_find i (mem_write jid f q) =
           (if i = jid then map_option f (mem_find jid q) else mem_find i q)"
proof -
  have "find (\<lambda>m. mr_id m = i) (update_where (\<lambda>m. mr_id m = jid) f ms) =
      (if i = jid then map_option f (find (\<lambda>m. mr_id m = jid) ms) else find (\<lambda>m. mr_id m = i) ms)" for ms
    using assms by (induction ms) auto
  then show ?thesis by (simp add: mem_find_def mem_write_def)
qed

lemma mem_ok_write:
  assumes "mem_ok q" "\<And>m. mr_id (f m) = mr_id m"
    "\<And>m. m \<in> set (mem_rows q) \<Longrightarrow> mr_id m = jid \<Longrightarrow> (mr_lease_id (f m) = None) = (state (mr_job (f m)) \<noteq> RUNNING)"
  shows "mem_ok (mem_write jid f q)"
  using assms
  by (auto simp: mem_ok_def mem_write_def map_update_where_key elim!: in_update_whereE)

lemma mem_find_in: "mem_find i q = Some m \<Longrightarrow> m \<in> set (mem_rows q) \<and> mr_id m = i"
  by (auto simp: mem_find_def dest: find_SomeD)

lemma mem_find_row: "mem_ok q \<Longrightarrow> m \<in> set (mem_rows q) \<Longrightarrow> mem_find (mr_id m) q = Some m"
  unfolding mem_find_def mem_ok_def by (rule find_key_Some) auto

lemma mem_holds_iff:
  "mem_holds l q \<longleftrightarrow> (\<exists>m. mem_find (lease_job l) q = Some m \<and> mr_lease_id m = Some (l_id l))"
  by (auto simp: mem_holds_def mem_live_def split: option.splits)

lemma mem_live_iff:
  "mem_live l q = Inr m \<longleftrightarrow> mem_find (lease_job l) q = Some m \<and> mr_lease_id m = Some (l_id l)"
  by (auto simp: mem_live_def split: option.splits)

lemma mem_not_holds: "\<not> mem_holds l q \<Longrightarrow> \<exists>e. mem_live l q = Inl e"
  by (cases "mem_live l q") (auto simp: mem_holds_def)

lemma mem_writes_id [simp]:
  "mr_id (mem_acked ref m) = mr_id m" "mr_id (mem_nacked now err rt m) = mr_id m"
  "mr_id (mem_cancelled m) = mr_id m" "mr_id (mem_claimed now t ow d m) = mr_id m"
  "mr_id (mem_retired now m) = mr_id m" "mr_id (mem_release m) = mr_id m"
  by (simp_all add: mem_acked_def mem_nacked_def mem_cancelled_def mem_claimed_def mem_retired_def
      mem_release_def Let_def)

lemma mem_nacked_job: "mr_job (mem_nacked now err rt m) = nacked_job err (mr_job m)"
  by (simp add: mem_nacked_def nacked_job_def mem_release_def Let_def nack_state_def)

lemma mem_acked_job: "mr_job (mem_acked ref m) = done_job ref (mr_job m)"
  by (simp add: mem_acked_def done_job_def mem_release_def)

lemma mem_ack_held:
  assumes "mem_ok q" "mem_holds l q" "mem_get (lease_job l) q = Some j"
  shows "\<exists>q'. mem_ack_at now l ref q = Some q' \<and> mem_ok q' \<and>
           mem_get (lease_job l) q' = Some (done_job ref j)"
proof -
  obtain m where m: "mem_find (lease_job l) q = Some m" "mr_lease_id m = Some (l_id l)"
    using assms(2) by (auto simp: mem_holds_iff)
  have id: "mr_id m = lease_job l" using mem_find_in [OF m(1)] by simp
  have "mem_ok (mem_write (lease_job l) (mem_acked ref) q)"
    by (rule mem_ok_write [OF assms(1)]) (simp_all add: mem_acked_def mem_release_def)
  moreover have "mem_get (lease_job l) (mem_write (lease_job l) (mem_acked ref) q) =
      Some (done_job ref j)"
    using m(1) assms(3) by (auto simp: mem_get_def mem_find_write mem_acked_job)
  ultimately show ?thesis using m id by (auto simp: mem_ack_at_def mem_ack_def mem_live_def)
qed

lemma mem_nack_held:
  assumes "mem_ok q" "mem_holds l q" "mem_get (lease_job l) q = Some j"
  shows "\<exists>q'. mem_nack_at now l err rt q = Some q' \<and> mem_ok q' \<and>
           mem_get (lease_job l) q' = Some (nacked_job err j)"
proof -
  obtain m where m: "mem_find (lease_job l) q = Some m" "mr_lease_id m = Some (l_id l)"
    using assms(2) by (auto simp: mem_holds_iff)
  have id: "mr_id m = lease_job l" using mem_find_in [OF m(1)] by simp
  have "mem_ok (mem_write (lease_job l) (mem_nacked now err rt) q)"
    by (rule mem_ok_write [OF assms(1)]) (simp_all add: mem_nacked_def mem_release_def Let_def)
  moreover have "mem_get (lease_job l) (mem_write (lease_job l) (mem_nacked now err rt) q) =
      Some (nacked_job err j)"
    using m(1) assms(3) by (auto simp: mem_get_def mem_find_write mem_nacked_job)
  ultimately show ?thesis using m id by (auto simp: mem_nack_at_def mem_nack_def mem_live_def)
qed

lemma mem_extend_held:
  assumes "mem_ok q" "mem_holds l q" "mem_get (lease_job l) q = Some j"
  shows "\<exists>q'. mem_extend_at now l dur q = Some (\<lparr>l_id = l_id l, l_job = j, l_owner = l_owner l,
             l_expires_at = now + dur\<rparr>, q') \<and> mem_ok q' \<and> (\<forall>l'. mem_holds l' q' = mem_holds l' q) \<and>
           (\<forall>i. mem_get i q' = mem_get i q)"
proof -
  obtain m where m: "mem_find (lease_job l) q = Some m" "mr_lease_id m = Some (l_id l)"
    using assms(2) by (auto simp: mem_holds_iff)
  have id: "mr_id m = lease_job l" and min: "m \<in> set (mem_rows q)" using mem_find_in [OF m(1)] by simp_all
  let ?q' = "mem_write (lease_job l) (\<lambda>m. m\<lparr>mr_lease_expires_at := Some (now + dur)\<rparr>) q"
  have "mem_ok ?q'"
    by (rule mem_ok_write [OF assms(1)]) (use assms(1) in \<open>simp_all add: mem_ok_def\<close>)
  moreover have "mem_holds l' ?q' = mem_holds l' q" for l'
    by (auto simp: mem_holds_iff mem_find_write)
  moreover have "mem_get i ?q' = mem_get i q" for i
    by (simp add: mem_get_def mem_find_write option.map_comp comp_def)
  ultimately show ?thesis using m id assms(3)
    by (auto simp: mem_extend_at_def mem_extend_def mem_live_def mem_get_def)
qed

lemma mem_cancel_stops:
  assumes "mem_ok q"
  shows "\<exists>q'. mem_cancel_at now i q = (map_option stopped_job (mem_get i q), q') \<and> mem_ok q' \<and>
           mem_get i q' = map_option stopped_job (mem_get i q) \<and> (\<forall>l. mem_holds l q' = mem_holds l q)"
proof (cases "mem_find i q")
  case None
  with assms show ?thesis by (simp add: mem_cancel_at_def mem_cancel_def mem_get_def)
next
  case (Some m)
  show ?thesis
  proof (cases "terminal (state (mr_job m))")
    case True
    with Some assms show ?thesis
      by (simp add: mem_cancel_at_def mem_cancel_def mem_get_def stopped_job_def)
  next
    case False
    let ?q' = "mem_write i mem_cancelled q"
    have job: "mr_job (mem_cancelled m) = stopped_job (mr_job m)"
      using False by (simp add: mem_cancelled_def stopped_job_def)
    have min: "m \<in> set (mem_rows q)" "mr_id m = i" using mem_find_in [OF Some] by simp_all
    have lease: "mr_lease_id (mem_cancelled x) = mr_lease_id x" for x
      by (simp add: mem_cancelled_def)
    have "mem_ok ?q'"
    proof (rule mem_ok_write [OF assms])
      show "(mr_lease_id (mem_cancelled x) = None) = (state (mr_job (mem_cancelled x)) \<noteq> RUNNING)"
        if "x \<in> set (mem_rows q)" for x
      proof -
        have "state (mr_job (mem_cancelled x)) = RUNNING \<longleftrightarrow> state (mr_job x) = RUNNING"
          by (simp add: mem_cancelled_def)
        moreover have "(mr_lease_id x = None) = (state (mr_job x) \<noteq> RUNNING)"
          using assms that unfolding mem_ok_def by blast
        ultimately show ?thesis unfolding lease by simp
      qed
    qed simp
    moreover have "mem_holds l ?q' = mem_holds l q" for l
      by (auto simp: mem_holds_iff mem_find_write lease)
    moreover have "mem_get i ?q' = Some (stopped_job (mr_job m))"
      using Some job by (simp add: mem_get_def mem_find_write)
    ultimately show ?thesis using Some False job
      by (simp add: mem_cancel_at_def mem_cancel_def mem_get_def)
  qed
qed

interpretation memq: job_queue mem_ok mem_get mem_holds mem_ack_at mem_nack_at mem_extend_at mem_cancel_at
proof
  fix q l
  assume ok: "mem_ok q" and h: "mem_holds l q"
  then obtain m where m: "mem_find (lease_job l) q = Some m" "mr_lease_id m = Some (l_id l)"
    by (auto simp: mem_holds_iff)
  with mem_find_in [OF m(1)] ok
  show "\<exists>j. mem_get (lease_job l) q = Some j \<and> state j = RUNNING \<and> job_id j = lease_job l"
    by (auto simp: mem_get_def mem_ok_def)
  show "mem_holds l' q \<longleftrightarrow> l_id l' = l_id l" if "lease_job l' = lease_job l" for l'
    using m that by (auto simp: mem_holds_iff)
next
  fix q l ref now err rt dur
  assume "\<not> mem_holds l q"
  then show "mem_ack_at now l ref q = None \<and> mem_nack_at now l err rt q = None \<and>
      mem_extend_at now l dur q = None"
    using mem_not_holds [of l q] by (auto simp: mem_at_defs mem_ack_def mem_nack_def mem_extend_def)
next
  fix q l now ref err rt dur j
  assume "mem_ok q" "mem_holds l q" "mem_get (lease_job l) q = Some j"
  note held = this
  show "\<exists>q'. mem_ack_at now l ref q = Some q' \<and> mem_ok q' \<and>
      mem_get (lease_job l) q' = Some (done_job ref j)"
    by (rule mem_ack_held [OF held])
  show "\<exists>q'. mem_nack_at now l err rt q = Some q' \<and> mem_ok q' \<and>
      mem_get (lease_job l) q' = Some (nacked_job err j)"
    by (rule mem_nack_held [OF held])
  show "\<exists>q'. mem_extend_at now l dur q = Some (\<lparr>l_id = l_id l, l_job = j, l_owner = l_owner l,
             l_expires_at = now + dur\<rparr>, q') \<and> mem_ok q' \<and> (\<forall>l'. mem_holds l' q' = mem_holds l' q) \<and>
           (\<forall>i. mem_get i q' = mem_get i q)"
    by (rule mem_extend_held [OF held])
next
  fix q now i
  assume "mem_ok q"
  then show "\<exists>q'. mem_cancel_at now i q = (map_option stopped_job (mem_get i q), q') \<and> mem_ok q' \<and>
      mem_get i q' = map_option stopped_job (mem_get i q) \<and> (\<forall>l. mem_holds l q' = mem_holds l q)"
    by (rule mem_cancel_stops)
qed

lemma mem_ok_retire: "mem_ok q \<Longrightarrow> mem_ok (mem_retire_lapsed now q)"
  by (auto simp: mem_ok_def mem_retire_lapsed_def comp_def)
     (auto simp: mem_retired_def mem_release_def Let_def split: if_splits)

lemma mem_claim_takes:
  assumes "mem_ok q" "mem_claim now token owner dur q = (Some l, q')"
  shows "mem_ok q' \<and> l_id l = token \<and> mem_holds l q' \<and> mem_get (lease_job l) q' = Some (l_job l) \<and>
           state (l_job l) = RUNNING"
proof -
  let ?q1 = "mem_retire_lapsed now q" and ?f = "mem_claimed now token owner dur"
  obtain m ms where cons: "filter (mem_reservable now) (mem_rows ?q1) = m # ms"
    using assms(2) by (auto simp: mem_claim_def Let_def split: list.splits)
  let ?b = "mem_min m ms"
  have l: "l = \<lparr>l_id = token, l_job = mr_job (?f ?b), l_owner = owner, l_expires_at = now + dur\<rparr>"
    and q': "q' = mem_write (mr_id ?b) ?f ?q1"
    using assms(2) cons by (simp_all add: mem_claim_def Let_def)
  have "?b \<in> set (filter (mem_reservable now) (mem_rows ?q1))" unfolding cons by (rule mem_min_in)
  then have b: "mem_find (mr_id ?b) ?q1 = Some ?b"
    using mem_find_row [OF mem_ok_retire [OF assms(1)]] by simp
  have "mem_ok q'"
    unfolding q' by (rule mem_ok_write [OF mem_ok_retire [OF assms(1)]]) (simp_all add: mem_claimed_def)
  moreover have found: "mem_find (mr_id ?b) q' = Some (?f ?b)"
    unfolding q' using b by (simp add: mem_find_write)
  moreover have "lease_job l = mr_id ?b" unfolding l by simp
  moreover have "mr_lease_id (?f ?b) = Some token" "state (mr_job (?f ?b)) = RUNNING"
    by (simp_all add: mem_claimed_def)
  ultimately show ?thesis by (simp add: mem_holds_iff mem_get_def) (simp add: l)
qed

lemma mem_claim_none:
  "mem_ok q \<Longrightarrow> mem_claim now token owner dur q = (None, q') \<Longrightarrow> mem_ok q'"
  using mem_ok_retire by (auto simp: mem_claim_def Let_def split: list.splits)

interpretation memclaim: claiming_queue mem_ok mem_get mem_holds mem_ack_at mem_nack_at mem_extend_at
    mem_cancel_at mem_claim
proof
  fix q q' l and now dur :: time and token :: uuid and owner :: string
  assume q: "mem_ok q"
  show "mem_ok q' \<and> l_id l = token \<and> mem_holds l q' \<and> mem_get (lease_job l) q' = Some (l_job l) \<and>
      state (l_job l) = RUNNING" if "mem_claim now token owner dur q = (Some l, q')"
    by (rule mem_claim_takes [OF q that])
  show "mem_ok q'" if "mem_claim now token owner dur q = (None, q')"
    by (rule mem_claim_none [OF q that])
qed

subsection \<open>The store provides it\<close>

text \<open>The store's laws follow from the reference's through the refinement lemmas.\<close>

definition store_holds :: "lease \<Rightarrow> db \<Rightarrow> bool" where
  "store_holds l db = list_ex (fencing l) (jobs db)"

definition store_ack :: "time \<Rightarrow> lease \<Rightarrow> string option \<Rightarrow> db \<Rightarrow> db option" where
  "store_ack now l ref db = map_option snd (succeeded (ack now l ref db))"

definition store_nack :: "time \<Rightarrow> lease \<Rightarrow> string \<Rightarrow> time option \<Rightarrow> db \<Rightarrow> db option" where
  "store_nack now l err rt db = map_option snd (succeeded (nack now l err rt db))"

definition store_extend :: "time \<Rightarrow> lease \<Rightarrow> time \<Rightarrow> db \<Rightarrow> (lease \<times> db) option" where
  "store_extend now l dur db = succeeded (Job_Store.extend now l dur db)"

definition store_cancel :: "time \<Rightarrow> uuid \<Rightarrow> db \<Rightarrow> job option \<times> db" where
  "store_cancel now jid db = (case cancel now jid db of Inl _ \<Rightarrow> (None, db) | Inr x \<Rightarrow> x)"

definition store_claim ::
    "uuid \<Rightarrow> time \<Rightarrow> uuid \<Rightarrow> string \<Rightarrow> time \<Rightarrow> db \<Rightarrow> lease option \<times> db" where
  "store_claim jid now token owner dur db =
     (case claim now token jid owner dur db of Inl _ \<Rightarrow> (None, db) | Inr x \<Rightarrow> x)"

lemmas store_at_defs = store_ack_def store_nack_def store_extend_def store_cancel_def

lemma mem_ok_abs: "db_ok db \<Longrightarrow> mem_ok (mem_abs db)"
proof -
  assume ok: "db_ok db"
  then have "distinct (map job_id (jobs db))" by (auto simp: db_ok_def dest: db_okD(1))
  moreover have "(lease_id r = None) = (state r \<noteq> RUNNING)" if "r \<in> set (jobs db)" for r
    using ok that by (auto simp: db_ok_def row_ok_def dest: db_okD(3))
  ultimately show ?thesis by (simp add: mem_ok_def mem_abs_def comp_def)
qed

lemma store_holds_abs: "db_ok db \<Longrightarrow> store_holds l db = mem_holds l (mem_abs db)"
  by (rule fencing_cases [of db l]) (auto simp: store_holds_def mem_holds_def list_ex_iff)

lemma store_ack_abs: "db_ok db \<Longrightarrow> map_option mem_abs (store_ack now l ref db) = mem_ack_at now l ref (mem_abs db)"
  by (cases "ack now l ref db") (auto simp: store_ack_def mem_ack_at_def ack_refines [where now = now])

lemma store_nack_abs:
  "db_ok db \<Longrightarrow> map_option mem_abs (store_nack now l err rt db) = mem_nack_at now l err rt (mem_abs db)"
  by (cases "nack now l err rt db") (auto simp: store_nack_def mem_nack_at_def nack_refines)

lemma store_extend_abs:
  "db_ok db \<Longrightarrow>
   map_option (map_prod id mem_abs) (store_extend now l dur db) = mem_extend_at now l dur (mem_abs db)"
  by (cases "Job_Store.extend now l dur db") (auto simp: store_extend_def mem_extend_at_def extend_refines)

lemma store_cancel_abs:
  "db_ok db \<Longrightarrow> map_prod id mem_abs (store_cancel now i db) = mem_cancel_at now i (mem_abs db)"
  using cancel_refines [of db now i]
  by (cases "cancel now i db") (auto simp: store_cancel_def mem_cancel_at_def)

lemma store_ok:
  assumes "db_ok db"
  shows "store_ack now l ref db = Some db' \<Longrightarrow> db_ok db'"
    and "store_nack now l err rt db = Some db' \<Longrightarrow> db_ok db'"
    and "store_extend now l dur db = Some (l', db') \<Longrightarrow> db_ok db'"
    and "store_cancel now i db = (res, db') \<Longrightarrow> db_ok db'"
    and "store_claim i now token owner dur db = (lo, db') \<Longrightarrow> db_ok db'"
  using ack_Inr_ok [OF assms] nack_Inr_ok [OF assms] extend_Inr_ok [OF assms] cancel_Inr_ok [OF assms]
    claim_Inr_ok [OF assms] assms
  by (auto simp: store_at_defs store_claim_def succeeded_def split: sum.splits)

interpretation storeq: job_queue db_ok get store_holds store_ack store_nack store_extend store_cancel
proof
  fix db l l'
  assume db: "db_ok db" and h: "store_holds l db"
  note mem = mem_ok_abs [OF db] h [unfolded store_holds_abs [OF db]]
  show "\<exists>j. get (lease_job l) db = Some j \<and> state j = RUNNING \<and> job_id j = lease_job l"
    using memq.held_running [OF mem] by (simp add: get_refines)
  show "store_holds l' db \<longleftrightarrow> l_id l' = l_id l" if "lease_job l' = lease_job l"
    unfolding store_holds_abs [OF db] by (rule memq.one_token [OF mem that])
next
  fix db l j now ref err rt dur
  assume db: "db_ok db" and h: "store_holds l db" and j: "get (lease_job l) db = Some j"
  note mem = mem_ok_abs [OF db] h [unfolded store_holds_abs [OF db]] j [folded get_refines [of _ db]]
  show "\<exists>db'. store_ack now l ref db = Some db' \<and> db_ok db' \<and>
      get (lease_job l) db' = Some (done_job ref j)"
    using memq.ack_held [OF mem, of now ref] store_ack_abs [OF db, of now l ref] store_ok(1) [OF db]
    by (fastforce simp: get_refines [symmetric])
  show "\<exists>db'. store_nack now l err rt db = Some db' \<and> db_ok db' \<and>
      get (lease_job l) db' = Some (nacked_job err j)"
    using memq.nack_held [OF mem, of now err rt] store_nack_abs [OF db, of now l err rt] store_ok(2) [OF db]
    by (fastforce simp: get_refines [symmetric])
  show "\<exists>db'. store_extend now l dur db = Some (\<lparr>l_id = l_id l, l_job = j, l_owner = l_owner l,
             l_expires_at = now + dur\<rparr>, db') \<and> db_ok db' \<and>
           (\<forall>l'. store_holds l' db' = store_holds l' db) \<and> (\<forall>i. get i db' = get i db)"
  proof -
    obtain q' where q': "mem_extend_at now l dur (mem_abs db) = Some (\<lparr>l_id = l_id l, l_job = j,
          l_owner = l_owner l, l_expires_at = now + dur\<rparr>, q')" "\<forall>l'. mem_holds l' q' = mem_holds l' (mem_abs db)"
        "\<forall>i. mem_get i q' = mem_get i (mem_abs db)"
      using memq.extend_held [OF mem, of now dur] by blast
    with store_extend_abs [OF db, of now l dur] obtain db' where
      d: "store_extend now l dur db = Some (\<lparr>l_id = l_id l, l_job = j,
          l_owner = l_owner l, l_expires_at = now + dur\<rparr>, db')" "q' = mem_abs db'" by auto
    have "db_ok db'" by (rule store_ok(3) [OF db d(1)])
    with d q'(2,3) store_holds_abs db show ?thesis by (auto simp: get_refines)
  qed
next
  fix db l now ref err rt dur
  assume db: "db_ok db" and h: "\<not> store_holds l db"
  from memq.stale_refused [OF mem_ok_abs [OF db] h [unfolded store_holds_abs [OF db]], of now ref err rt dur]
  show "store_ack now l ref db = None \<and> store_nack now l err rt db = None \<and>
      store_extend now l dur db = None"
    by (simp flip: store_ack_abs [OF db] store_nack_abs [OF db] store_extend_abs [OF db])
next
  fix db now i
  assume db: "db_ok db"
  obtain q' where q': "mem_cancel_at now i (mem_abs db) = (map_option stopped_job (get i db), q')"
      "mem_get i q' = map_option stopped_job (get i db)" "\<forall>l. mem_holds l q' = mem_holds l (mem_abs db)"
    using memq.cancel_stops [OF mem_ok_abs [OF db], of now i] by (auto simp: get_refines)
  obtain res db' where d: "store_cancel now i db = (res, db')" by fastforce
  with store_cancel_abs [OF db, of now i] q' have "res = map_option stopped_job (get i db)" "q' = mem_abs db'"
    by auto
  with d q'(2,3) store_ok(4) [OF db d] store_holds_abs db
  show "\<exists>db'. store_cancel now i db = (map_option stopped_job (get i db), db') \<and> db_ok db' \<and>
      get i db' = map_option stopped_job (get i db) \<and> (\<forall>l. store_holds l db' = store_holds l db)"
    by (auto simp: get_refines)
qed

lemma store_claim_takes:
  assumes "db_ok db" "store_claim jid now token owner dur db = (Some l, db')"
  shows "db_ok db' \<and> l_id l = token \<and> store_holds l db' \<and> get (lease_job l) db' = Some (l_job l) \<and>
           state (l_job l) = RUNNING"
proof (cases "\<exists>r \<in> set (jobs db). job_id r = jid \<and> (waiting now r \<or> lapsed now r)")
  case False
  with claim_refused [of db jid now token owner dur] assms(2) show ?thesis
    by (simp add: store_claim_def)
next
  case True
  then obtain r where r: "r \<in> set (jobs db)" "waiting now r \<or> lapsed now r" "job_id r = jid" by blast
  let ?f = "claimed_row now token owner dur"
  obtain db2 where c: "claim now token (job_id r) owner dur db = Inr (Some \<lparr>l_id = token,
        l_job = to_job (?f r), l_owner = owner, l_expires_at = now + dur\<rparr>, db2)" "db_ok db2"
      "jobs db2 = update_where (\<lambda>x. job_id x = job_id r \<and> (waiting now x \<or> lapsed now x)) ?f (jobs db)"
    using claim_granted [OF assms(1) r(1,2), of token owner dur] by blast
  have l: "l = \<lparr>l_id = token, l_job = to_job (?f r), l_owner = owner, l_expires_at = now + dur\<rparr>" "db' = db2"
    using assms(2) c(1) r(3) by (simp_all add: store_claim_def)
  have fr: "?f r \<in> set (jobs db2)" using r(1,2) by (auto simp: c(3) set_update_where)
  have "fencing l (?f r)" by (simp add: fencing_def l) (simp add: claimed_row_def)
  with fr have "store_holds l db'" by (auto simp: store_holds_def list_ex_iff l(2))
  moreover have "get (lease_job l) db' = Some (l_job l)"
    using get_known [OF c(2) fr] by (simp add: l)
  moreover have "state (l_job l) = RUNNING" "l_id l = token" by (simp_all add: l claimed_row_def)
  ultimately show ?thesis using c(2) l(2) by simp
qed

interpretation storeclaim: claiming_queue db_ok get store_holds store_ack store_nack store_extend
    store_cancel "store_claim jid" for jid
proof
  fix db db' l and now dur :: time and token :: uuid and owner :: string
  assume db: "db_ok db"
  show "db_ok db' \<and> l_id l = token \<and> store_holds l db' \<and> get (lease_job l) db' = Some (l_job l) \<and>
      state (l_job l) = RUNNING" if "store_claim jid now token owner dur db = (Some l, db')"
    by (rule store_claim_takes [OF db that])
  show "db_ok db'" if "store_claim jid now token owner dur db = (None, db')"
    by (rule store_ok(5) [OF db that])
qed

subsection \<open>Properties\<close>

lemma demo_running_held: "store_holds demo_lease demo_running"
  using demo_running_fenced by (simp add: store_holds_def demo_running_jobs)

lemma demo_running_db_ok: "db_ok demo_running"
  using demo_running_ok by (simp add: sys_ok_def)

text \<open>Cancelling a running job reaches its holder: the request only sets the flag, the holder's next
  heartbeat succeeds and hands back a job that carries the flag, and its \<open>nack\<close> with the refreshed
  lease ends the job as cancelled, whatever error and whatever backoff it passes.\<close>

theorem cancel_reaches_the_heartbeat:
  assumes "db_ok db" "store_holds l db"
  shows "\<exists>db1 l2 db2 db3. store_cancel now (lease_job l) db = (Some (l_job l2), db1) \<and>
           store_extend now2 l dur db1 = Some (l2, db2) \<and> l_id l2 = l_id l \<and>
           cancel_requested (l_job l2) \<and> store_nack now3 l2 err rt db2 = Some db3 \<and>
           (\<exists>j. get (lease_job l) db3 = Some j \<and> state j = CANCELLED)"
  by (rule storeq.cancel_reaches_holder [OF assms])

theorem cancel_reaches_the_heartbeat_witness:
  "\<exists>db1 (l2 :: lease). store_cancel 20 1 demo_running = (Some (l_job l2), db1) \<and> cancel_requested (l_job l2)"
proof -
  have job: "lease_job demo_lease = 1" by (simp add: demo_lease_def claimed_row_def new_row_def)
  show ?thesis
    using cancel_reaches_the_heartbeat [OF demo_running_db_ok demo_running_held,
        of 20 25 60 30 "''boom''" None, unfolded job] by blast
qed

text \<open>One lease settles a job once: after an \<open>ack\<close> that was accepted, no lease on the job, this one
  or any other, is live, and every further \<open>ack\<close>, \<open>nack\<close> or \<open>extend\<close> is refused.\<close>

theorem one_outcome_per_lease:
  assumes "db_ok db" "store_holds l db" "lease_job l' = lease_job l"
  shows "\<exists>db'. store_ack now l ref db = Some db' \<and> db_ok db' \<and> \<not> store_holds l' db' \<and>
           store_ack now2 l' ref2 db' = None \<and> store_nack now2 l' err rt db' = None \<and>
           store_extend now2 l' dur db' = None"
  by (rule storeq.ack_settles [OF assms])

theorem one_outcome_per_lease_witness:
  "\<exists>db'. store_ack 30 demo_lease (Some ''key'') demo_running = Some db' \<and>
     store_ack 31 demo_lease None db' = None"
  using one_outcome_per_lease [OF demo_running_db_ok demo_running_held, of demo_lease 30 "Some ''key''" 31 None]
  by blast

text \<open>C12: The store implements the reference semantics: reading the \<open>jobs\<close> table as the in-memory queue,
  \<open>ack\<close>, \<open>nack\<close>, \<open>extend\<close>, \<open>cancel\<close> and \<open>get\<close> on the table are the reference operations, the
  refusals included.\<close>

theorem store_refines_reference:
  assumes "db_ok db"
  shows "mem_ack l ref (mem_abs db) = mem_result (ack now l ref db) \<and>
         mem_nack now l err rt (mem_abs db) =
           mem_result (map_sum id (map_prod (\<lambda>_. ()) id) (nack now l err rt db)) \<and>
         mem_extend now l dur (mem_abs db) = mem_result (Job_Store.extend now l dur db) \<and>
         Inr (mem_cancel jid (mem_abs db)) = mem_result (cancel now jid db) \<and>
         mem_get jid (mem_abs db) = get jid db"
  using ack_refines [OF assms] nack_refines [OF assms] extend_refines [OF assms] get_refines
    cancel_refines [OF assms] by (simp add: mem_result_def)

theorem store_refines_reference_witness:
  "mem_ack demo_lease None (mem_abs demo_running) = mem_result (ack 30 demo_lease None demo_running)"
  using store_refines_reference [OF demo_running_db_ok] by blast

text \<open>Enqueueing on the table is enqueueing on the reference: a request whose key is known returns the
  job that key made and writes nothing, any other makes the same queued row and the same key.\<close>

theorem enqueue_refines_reference:
  assumes "db_ok db" "int4 (req_max_attempts req)" "0 < req_max_attempts req"
    "new_id \<notin> job_id ` set (jobs db)"
    "\<forall>s. req_session_id req = Some s \<longrightarrow> chat_sessions db s \<noteq> None"
  shows "mem_enqueue now new_id req (mem_abs db) =
           mem_result (map_sum id (map_prod fst id) (insert_or_get now new_id req db))"
  by (rule enqueue_refines) (use assms in auto)

theorem enqueue_refines_reference_witness:
  "mem_enqueue 9 2 demo_request (mem_abs demo_running) =
     mem_result (map_sum id (map_prod fst id) (insert_or_get 9 2 demo_request demo_running))"
proof (rule enqueue_refines_reference [OF demo_running_db_ok])
  show "2 \<notin> job_id ` set (jobs demo_running)"
    by (simp add: demo_running_jobs) (simp add: claimed_row_def new_row_def)
  show "\<forall>s. req_session_id demo_request = Some s \<longrightarrow> chat_sessions demo_running s \<noteq> None"
    by (simp add: demo_eval)
qed (simp_all add: demo_request_def request_def int4_def int4_max_def)

text \<open>C13: Away from the instant a deadline falls on, and where no row carries an empty error text, the
  sweep followed by the claim of a delivered id is the reference's claim: both end the same rows,
  hand out a job in the same cases, put the same lease on it and leave the same queue. The job the
  reference hands out is one nobody waits longer for. The two provisos are where the code differs:
  the reference lets a lease lapse at its deadline and the table after it, and the reference writes
  the lease-expiry message over an empty error text, which \<open>coalesce\<close> keeps.\<close>

theorem claim_refines_reference:
  assumes "db_ok db" "no_deadline_at now db" "no_blank_error db"
  shows "\<exists>ids db1. retire_lapsed now db = Inr (ids, db1) \<and>
    (case mem_claim now token owner dur (mem_abs db) of
       (None, q) \<Rightarrow> q = mem_abs db1 \<and> (\<forall>jid. claim now token jid owner dur db1 = Inr (None, db1))
     | (Some l, q) \<Rightarrow> longest_due now (job_id (l_job l)) db1 \<and>
         (\<exists>db2. claim now token (job_id (l_job l)) owner dur db1 = Inr (Some l, db2) \<and> q = mem_abs db2))"
  by (rule claim_refines [OF assms])

theorem claim_refines_reference_witness:
  "(\<exists>db1. retire_lapsed 60 demo_running = Inr ([], db1) \<and>
      mem_claim 60 101 ''w2'' 60 (mem_abs demo_running) = (None, mem_abs db1)) \<and>
   (\<exists>l db1 db2. lease_job l = 1 \<and> claim 60 101 1 ''w2'' 60 db1 = Inr (Some l, db2) \<and>
      mem_claim 60 101 ''w2'' 60 (mem_abs demo_queued) = (Some l, mem_abs db2))"
proof
  have "no_deadline_at 60 demo_running" "no_blank_error demo_running"
    by (simp_all add: no_deadline_at_def no_blank_error_def demo_running_jobs)
       (simp_all add: claimed_row_def new_row_def)
  from claim_refines_reference [OF demo_running_db_ok this, of 101 "''w2''" 60] obtain ids db1 where
    c: "retire_lapsed 60 demo_running = Inr (ids, db1)"
      "case mem_claim 60 101 ''w2'' 60 (mem_abs demo_running) of (None, q) \<Rightarrow> q = mem_abs db1 | (Some l, q) \<Rightarrow> True"
    by (fastforce split: prod.splits option.splits)
  have "fst (mem_claim 60 101 ''w2'' 60 (mem_abs demo_running)) = None"
    by (simp add: mem_claim_def mem_abs_def demo_running_jobs mem_retire_lapsed_def)
       (simp add: abs_row_def claimed_row_def new_row_def to_job_def job.truncate_def mem_retired_def
          mem_past_def mem_reservable_def)
  with c(2) have "mem_claim 60 101 ''w2'' 60 (mem_abs demo_running) = (None, mem_abs db1)"
    by (auto split: prod.splits)
  moreover have "filter (lapsed_for_good 60) (jobs demo_running) = []"
    by (simp add: demo_running_jobs) (simp add: lapsed_for_good_def lease_before_def claimed_row_def)
  then have "ids = []" using c(1) retire_lapsed_ok [OF demo_running_db_ok, of 60] by auto
  ultimately show "\<exists>db1. retire_lapsed 60 demo_running = Inr ([], db1) \<and>
      mem_claim 60 101 ''w2'' 60 (mem_abs demo_running) = (None, mem_abs db1)"
    using c(1) by blast
next
  have ok: "db_ok demo_queued" using demo_queued_ok by (simp add: sys_ok_def)
  have "no_deadline_at 60 demo_queued" "no_blank_error demo_queued"
    by (simp_all add: no_deadline_at_def no_blank_error_def demo_queued_jobs) (simp_all add: new_row_def)
  from claim_refines_reference [OF ok this, of 101 "''w2''" 60] obtain db1 where
    c: "case mem_claim 60 101 ''w2'' 60 (mem_abs demo_queued) of (None, q) \<Rightarrow> True
        | (Some l, q) \<Rightarrow> \<exists>db2. claim 60 101 (job_id (l_job l)) ''w2'' 60 db1 = Inr (Some l, db2) \<and> q = mem_abs db2"
    by (fastforce split: prod.splits option.splits)
  have "map_option lease_job (fst (mem_claim 60 101 ''w2'' 60 (mem_abs demo_queued))) = Some 1"
    by (simp add: mem_claim_def mem_abs_def demo_queued_jobs mem_retire_lapsed_def)
       (simp add: abs_row_def new_row_def to_job_def job.truncate_def mem_retired_def mem_past_def
          mem_reservable_def mem_claimed_def demo_request_def request_def)
  then obtain l q where l: "mem_claim 60 101 ''w2'' 60 (mem_abs demo_queued) = (Some l, q)" "lease_job l = 1"
    by (cases "mem_claim 60 101 ''w2'' 60 (mem_abs demo_queued)") auto
  with c obtain db2 where "claim 60 101 1 ''w2'' 60 db1 = Inr (Some l, db2)" "q = mem_abs db2" by auto
  with l show "\<exists>l db1 db2. lease_job l = 1 \<and> claim 60 101 1 ''w2'' 60 db1 = Inr (Some l, db2) \<and>
      mem_claim 60 101 ''w2'' 60 (mem_abs demo_queued) = (Some l, mem_abs db2)"
    by blast
qed

end
