(* ===== verification/Rabbit_Queue.thy ===== *)
theory Rabbit_Queue
  imports Queue_Contract Calls Uuid
begin

text \<open>
  \<open>adapters/rabbitmq/job_queue.py\<close>: the queue over a broker that moves job ids and a table that holds
  everything else. The state is the object's own (the buffered deliveries, the delivery behind each
  lease, the instants of the last re-offers), the database, the calls made to the broker, and the
  deliveries the broker counts against the consumer's prefetch window.

  The broker and the network are not the program's. An environment says, for each call an operation
  makes, at which instant it runs, what other processes commit just before it, and whether the link
  answers, fails before the call has any effect, or loses the reply after it had one. Only what
  AMQP documents is used of the broker: a delivery is outstanding until it is settled, and no more
  than \<open>prefetch\<close> are outstanding. A publish or a settle is recorded in \<open>sent\<close>. One call is made of the
  operating system and not of the network: \<open>CSpawn\<close>, the start of a solve child, which raises unless it
  works.
\<close>

subsection \<open>The environment\<close>

record delivery =
  d_tag :: nat
  d_body :: "string option"

datatype why = Fresh | Retry | Lapsed | Orphan

datatype call =
    CInsert | CMark why uuid | CPublish why uuid | CClaim nat | CExtend | CAck | CNack
  | CCancel | CGet | CRetire | CLapsed | CUnpublished | CSpawn

record env =
  clock :: "call \<Rightarrow> time"
  others :: "call \<Rightarrow> operation list"
  link_of :: "call \<Rightarrow> link"
  mint :: "nat \<Rightarrow> uuid"
  loop_time :: time
  quiet :: time
  orphan_after :: time

datatype route = Work | Parked time

datatype broker_call = Published string route | Settled nat

record world =
  incoming :: "delivery list"
  held :: "uuid \<Rightarrow> (uuid \<times> delivery) option"
  republished :: "uuid \<Rightarrow> time option"
  w_db :: db
  sent :: "broker_call list"
  unacked :: "delivery list"

datatype queue_error = StoreError db_error | StoreDown | PublishFailed | BadBody

type_synonym 'a act = "world \<Rightarrow> (queue_error + 'a) \<times> world"

subsection \<open>Sequencing calls that may raise\<close>

definition returnA :: "'a \<Rightarrow> 'a act" where
  "returnA x w = (Inr x, w)"

definition thenA :: "'a act \<Rightarrow> ('a \<Rightarrow> 'b act) \<Rightarrow> 'b act" where
  "thenA m f w = (case m w of (Inl e, w1) \<Rightarrow> (Inl e, w1) | (Inr x, w1) \<Rightarrow> f x w1)"

definition finallyA :: "'a act \<Rightarrow> (world \<Rightarrow> world) \<Rightarrow> 'a act" where
  "finallyA m g w = (case m w of (r, w1) \<Rightarrow> (r, g w1))"

definition updateA :: "(world \<Rightarrow> world) \<Rightarrow> unit act" where
  "updateA g w = (Inr (), g w)"

fun forA :: "('a \<Rightarrow> unit act) \<Rightarrow> 'a list \<Rightarrow> unit act" where
  "forA f [] w = (Inr (), w)"
| "forA f (x # xs) w = thenA (f x) (\<lambda>_. forA f xs) w"

definition store_call :: "env \<Rightarrow> call \<Rightarrow> (time \<Rightarrow> 'a txn) \<Rightarrow> 'a act" where
  "store_call env c t w =
     (case call_txn (link_of env c) (others env c) (t (clock env c)) (w_db w) of
        (Inl None, db) \<Rightarrow> (Inl StoreDown, w\<lparr>w_db := db\<rparr>)
      | (Inl (Some e), db) \<Rightarrow> (Inl (StoreError e), w\<lparr>w_db := db\<rparr>)
      | (Inr x, db) \<Rightarrow> (Inr x, w\<lparr>w_db := db\<rparr>))"

definition reading :: "(time \<Rightarrow> db \<Rightarrow> 'a) \<Rightarrow> time \<Rightarrow> 'a txn" where
  "reading q now db = Inr (q now db, db)"

subsection \<open>Settling and publishing\<close>

definition settle :: "delivery \<Rightarrow> world \<Rightarrow> world" where
  "settle m w = w\<lparr>sent := sent w @ [Settled (d_tag m)], unacked := remove1 m (unacked w)\<rparr>"

definition release :: "uuid \<Rightarrow> uuid option \<Rightarrow> world \<Rightarrow> world" where
  "release jid token w =
     (case held w jid of
        None \<Rightarrow> w
      | Some (t, m) \<Rightarrow>
          if token \<noteq> None \<and> token \<noteq> Some t then w
          else settle m (w\<lparr>held := (held w)(jid := None)\<rparr>))"

definition route_of :: "time option \<Rightarrow> route" where
  "route_of delay = (case delay of None \<Rightarrow> Work | Some d \<Rightarrow> if 0 < d then Parked d else Work)"

definition publish :: "env \<Rightarrow> why \<Rightarrow> uuid \<Rightarrow> time option \<Rightarrow> unit act" where
  "publish env y jid delay w =
     (let w' = w\<lparr>sent := sent w @ [Published (uuid_str jid) (route_of delay)]\<rparr> in
      case link_of env (CPublish y jid) of
        Works \<Rightarrow> (Inr (), w') | Fails \<Rightarrow> (Inl PublishFailed, w) | LosesReply \<Rightarrow> (Inl PublishFailed, w'))"

definition mark :: "env \<Rightarrow> why \<Rightarrow> uuid \<Rightarrow> unit act" where
  "mark env y jid = store_call env (CMark y jid) (\<lambda>now. mark_published now jid)"

subsection \<open>Producing\<close>

definition rmq_enqueue :: "env \<Rightarrow> uuid \<Rightarrow> job_request \<Rightarrow> job act" where
  "rmq_enqueue env new_id req =
     thenA (store_call env CInsert (\<lambda>now. insert_or_get now new_id req)) (\<lambda>(job, created).
       if created then
         thenA (publish env Fresh (job_id job) (Some (req_delay req))) (\<lambda>_.
           thenA (mark env Fresh (job_id job)) (\<lambda>_. returnA job))
       else returnA job)"

definition rmq_get :: "env \<Rightarrow> uuid \<Rightarrow> job option act" where
  "rmq_get env jid = store_call env CGet (reading (\<lambda>_. get jid))"

definition rmq_cancel :: "env \<Rightarrow> uuid \<Rightarrow> job option act" where
  "rmq_cancel env jid = store_call env CCancel (\<lambda>now. cancel now jid)"

subsection \<open>Consuming\<close>

definition on_delivery :: "delivery \<Rightarrow> world \<Rightarrow> world" where
  "on_delivery m w = w\<lparr>incoming := incoming w @ [m], unacked := unacked w @ [m]\<rparr>"

text \<open>
  \<open>reserve\<close> takes the buffered deliveries in order. The buffer it is given holds those it waits for
  too: a delivery that arrives during the wait is handled as one that was there.
\<close>

fun reserve_from :: "env \<Rightarrow> string \<Rightarrow> time \<Rightarrow> delivery list \<Rightarrow> lease option act" where
  "reserve_from env owner dur [] w = (Inr None, w\<lparr>incoming := []\<rparr>)"
| "reserve_from env owner dur (m # ms) w =
     (let w1 = w\<lparr>incoming := ms\<rparr> in
      case Option.bind (d_body m) uuid_parse of
        None \<Rightarrow> (Inl BadBody, w1)
      | Some jid \<Rightarrow>
          thenA (store_call env (CClaim (d_tag m))
                   (\<lambda>now. claim now (mint env (d_tag m)) jid owner dur))
            (\<lambda>claimed w2.
               case claimed of
                 None \<Rightarrow> reserve_from env owner dur ms (settle m w2)
               | Some l \<Rightarrow> (Inr (Some l), w2\<lparr>held := (held w2)(jid \<mapsto> (l_id l, m))\<rparr>)) w1)"

definition rmq_reserve :: "env \<Rightarrow> string \<Rightarrow> time \<Rightarrow> lease option act" where
  "rmq_reserve env owner dur w = reserve_from env owner dur (incoming w) w"

subsection \<open>Finishing\<close>

definition rmq_extend :: "env \<Rightarrow> lease \<Rightarrow> time \<Rightarrow> lease act" where
  "rmq_extend env l by' = store_call env CExtend (\<lambda>now. Job_Store.extend now l by')"

definition rmq_ack :: "env \<Rightarrow> lease \<Rightarrow> string option \<Rightarrow> unit act" where
  "rmq_ack env l ref =
     finallyA (store_call env CAck (\<lambda>now. ack now l ref)) (release (lease_job l) (Some (l_id l)))"

definition rmq_nack :: "env \<Rightarrow> lease \<Rightarrow> string \<Rightarrow> time option \<Rightarrow> unit act" where
  "rmq_nack env l err retry_in =
     thenA (finallyA (store_call env CNack (\<lambda>now. nack now l err retry_in))
              (release (lease_job l) (Some (l_id l)))) (\<lambda>job.
       if state job = FAILED then
         thenA (publish env Retry (job_id job) retry_in) (\<lambda>_. mark env Retry (job_id job))
       else returnA ())"

definition rmq_discard :: "lease \<Rightarrow> world \<Rightarrow> world" where
  "rmq_discard l = release (lease_job l) (Some (l_id l))"

subsection \<open>The periodic repairs\<close>

definition too_soon :: "env \<Rightarrow> world \<Rightarrow> uuid \<Rightarrow> bool" where
  "too_soon env w jid =
     (case republished w jid of None \<Rightarrow> False | Some last_offer \<Rightarrow> loop_time env - last_offer < quiet env)"

definition reoffer :: "env \<Rightarrow> uuid \<Rightarrow> unit act" where
  "reoffer env jid w =
     (let w1 = release jid None w in
      if too_soon env w1 jid then (Inr (), w1)
      else thenA (publish env Lapsed jid None)
             (\<lambda>_. updateA (\<lambda>w2. w2\<lparr>republished := (republished w2)(jid \<mapsto> loop_time env)\<rparr>)) w1)"

definition republish :: "env \<Rightarrow> uuid \<Rightarrow> unit act" where
  "republish env jid = thenA (publish env Orphan jid None) (\<lambda>_. mark env Orphan jid)"

definition prune :: "env \<Rightarrow> world \<Rightarrow> world" where
  "prune env w = w\<lparr>republished := (\<lambda>j. if too_soon env w j then republished w j else None)\<rparr>"

definition rmq_sweep :: "env \<Rightarrow> unit act" where
  "rmq_sweep env =
     thenA (store_call env CRetire retire_lapsed) (\<lambda>ended.
     thenA (updateA (fold (\<lambda>jid. release jid None) ended)) (\<lambda>_.
     thenA (store_call env CLapsed (reading lapsed_reservable)) (\<lambda>stale.
     thenA (forA (reoffer env) stale) (\<lambda>_.
     thenA (store_call env CUnpublished (reading (\<lambda>now. unpublished now (orphan_after env)))) (\<lambda>orphans.
     thenA (forA (republish env) orphans) (\<lambda>_.
     updateA (prune env)))))))"

text \<open>A pass of \<open>_maintain\<close>: what the sweep raises is logged and the loop goes on.\<close>

definition maintenance_pass :: "env \<Rightarrow> world \<Rightarrow> world" where
  "maintenance_pass env w = snd (rmq_sweep env w)"

subsection \<open>Every outstanding delivery can still be settled\<close>

definition in_hand :: "world \<Rightarrow> delivery set" where
  "in_hand w = set (incoming w) \<union> {m. \<exists>j t. held w j = Some (t, m)}"

definition held_once :: "world \<Rightarrow> bool" where
  "held_once w \<longleftrightarrow> (\<forall>j t m. held w j = Some (t, m) \<longrightarrow> m \<notin> set (incoming w) \<and>
     (\<forall>j' t'. held w j' = Some (t', m) \<longrightarrow> j' = j))"

definition slots_ok :: "world \<Rightarrow> bool" where
  "slots_ok w \<longleftrightarrow> distinct (unacked w) \<and> distinct (incoming w) \<and>
     set (unacked w) = in_hand w \<and> held_once w"

lemma slots_frame:
  assumes "incoming w' = incoming w" "held w' = held w" "unacked w' = unacked w"
  shows "slots_ok w' = slots_ok w" "in_hand w' = in_hand w"
  using assms by (simp_all add: slots_ok_def in_hand_def held_once_def)

lemma store_call_frame:
  assumes "store_call env c t w = (r, w')"
  shows "incoming w' = incoming w \<and> held w' = held w \<and> unacked w' = unacked w \<and>
         sent w' = sent w \<and> republished w' = republished w"
  using assms by (auto simp: store_call_def call_txn_def Let_def split: link.splits sum.splits option.splits prod.splits)

lemma publish_frame:
  assumes "publish env y jid delay w = (r, w')"
  shows "incoming w' = incoming w \<and> held w' = held w \<and> unacked w' = unacked w \<and>
         w_db w' = w_db w \<and> republished w' = republished w"
  using assms by (auto simp: publish_def Let_def split: link.splits)

lemma settle_sel [simp]:
  "incoming (settle m w) = incoming w" "held (settle m w) = held w" "w_db (settle m w) = w_db w"
  "unacked (settle m w) = remove1 m (unacked w)" "republished (settle m w) = republished w"
  "sent (settle m w) = sent w @ [Settled (d_tag m)]"
  by (simp_all add: settle_def)

lemma release_none: "held w jid = None \<Longrightarrow> release jid token w = w"
  by (simp add: release_def)

lemma release_other: "held w jid = Some (t, m) \<Longrightarrow> token \<noteq> None \<Longrightarrow> token \<noteq> Some t \<Longrightarrow>
    release jid token w = w"
  by (simp add: release_def)

lemma release_hit: "held w jid = Some (t, m) \<Longrightarrow> token = None \<or> token = Some t \<Longrightarrow>
    release jid token w = settle m (w\<lparr>held := (held w)(jid := None)\<rparr>)"
  by (auto simp: release_def)

lemma release_cases:
  obtains (kept) "release jid token w = w"
  | (gone) t m where "held w jid = Some (t, m)" "token = None \<or> token = Some t"
      "release jid token w = settle m (w\<lparr>held := (held w)(jid := None)\<rparr>)"
proof (cases "held w jid")
  case None
  then show ?thesis using kept by (simp add: release_none)
next
  case (Some p)
  obtain t m where p: "held w jid = Some (t, m)" using Some by (cases p) simp
  show ?thesis
  proof (cases "token = None \<or> token = Some t")
    case True
    from gone [OF p True release_hit [OF p True]] show ?thesis .
  next
    case False
    then show ?thesis using kept release_other [OF p] by simp
  qed
qed

lemma slots_release: "slots_ok w \<Longrightarrow> slots_ok (release jid token w)"
proof (rule release_cases [of jid token w])
  fix t m
  assume ok: "slots_ok w" and h: "held w jid = Some (t, m)"
    and r: "release jid token w = settle m (w\<lparr>held := (held w)(jid := None)\<rparr>)"
  let ?w = "settle m (w\<lparr>held := (held w)(jid := None)\<rparr>)"
  have once: "held_once w" and d: "distinct (unacked w)" "distinct (incoming w)"
    and u: "set (unacked w) = in_hand w" using ok by (simp_all add: slots_ok_def)
  have "in_hand ?w = in_hand w - {m}"
  proof (rule set_eqI)
    fix x
    show "x \<in> in_hand ?w \<longleftrightarrow> x \<in> in_hand w - {m}"
    proof (cases "x = m")
      case True
      have "m \<notin> set (incoming w)" "\<And>j t. held w j = Some (t, m) \<Longrightarrow> j = jid"
        using once h unfolding held_once_def by blast+
      with True show ?thesis by (auto simp: in_hand_def)
    next
      case False
      with h have "(\<exists>j t. (if j = jid then None else held w j) = Some (t, x)) \<longleftrightarrow>
          (\<exists>j t. held w j = Some (t, x))"
        by (metis option.inject option.distinct(1) prod.inject)
      with False show ?thesis by (simp add: in_hand_def fun_upd_def)
    qed
  qed
  moreover have "held_once ?w"
    using once unfolding held_once_def by (auto split: if_splits)
  ultimately show ?thesis unfolding r using d u by (simp add: slots_ok_def)
qed simp

lemma release_frame: "w_db (release jid token w) = w_db w" "incoming (release jid token w) = incoming w"
  "republished (release jid token w) = republished w"
  by (rule release_cases [of jid token w]; simp)+

lemma released_gone:
  assumes "slots_ok w" "held w jid = Some (t, m)" "token = None \<or> token = Some t"
  shows "held (release jid token w) jid = None" "m \<notin> set (unacked (release jid token w))"
    "Settled (d_tag m) \<in> set (sent (release jid token w))"
  using assms(1) unfolding release_hit [OF assms(2,3)] by (simp_all add: slots_ok_def)

lemma slots_settle_buffered:
  assumes "slots_ok w" "incoming w = m # ms"
  shows "slots_ok (settle m (w\<lparr>incoming := ms\<rparr>))"
proof -
  let ?w = "settle m (w\<lparr>incoming := ms\<rparr>)"
  have once: "held_once w" and d: "distinct (unacked w)" "distinct (incoming w)"
    and u: "set (unacked w) = in_hand w" using assms(1) by (simp_all add: slots_ok_def)
  have free: "held w j \<noteq> Some (t, m)" for j t using once assms(2) by (auto simp: held_once_def)
  have "in_hand ?w = in_hand w - {m}"
    using assms(2) d free by (auto simp: in_hand_def)
  moreover have "held_once ?w" using once assms(2) by (auto simp: held_once_def)
  ultimately show ?thesis using d u assms(2) by (simp add: slots_ok_def)
qed

lemma slots_hold:
  assumes "slots_ok w" "incoming w = m # ms" "held w jid = None"
  shows "slots_ok (w\<lparr>incoming := ms, held := (held w)(jid \<mapsto> (t, m))\<rparr>)"
proof -
  let ?w = "w\<lparr>incoming := ms, held := (held w)(jid \<mapsto> (t, m))\<rparr>"
  have once: "held_once w" and d: "distinct (unacked w)" "distinct (incoming w)"
    and u: "set (unacked w) = in_hand w" using assms(1) by (simp_all add: slots_ok_def)
  have free: "held w j \<noteq> Some (t', m)" for j t' using once assms(2) by (auto simp: held_once_def)
  have "(\<exists>j t'. (if j = jid then Some (t, m) else held w j) = Some (t', x)) \<longleftrightarrow>
      x = m \<or> (\<exists>j t'. held w j = Some (t', x))" for x
    using assms(3) by (metis option.inject option.distinct(1) prod.inject)
  then have "in_hand ?w = in_hand w"
    using assms(2) by (auto simp: in_hand_def fun_upd_def)
  moreover have "held_once ?w"
    using once assms(2) d free by (auto simp: held_once_def)
  ultimately show ?thesis using d u assms(2) by (simp add: slots_ok_def)
qed

lemma slots_delivery: "slots_ok w \<Longrightarrow> m \<notin> set (unacked w) \<Longrightarrow> slots_ok (on_delivery m w)"
  by (auto simp: slots_ok_def on_delivery_def in_hand_def held_once_def)

text \<open>
  A reserve keeps the account of the slots, unless the store raises or the job it claims is one
  this process already holds a delivery for.
\<close>

lemma claim_job:
  assumes "claim now t jid owner dur db = Inr (Some l, db')"
  shows "lease_job l = jid"
proof -
  let ?P = "\<lambda>r. job_id r = jid \<and> (waiting now r \<or> lapsed now r)"
  obtain row rows where rows: "returning ?P (claimed_row now t owner dur) (jobs db) = row # rows"
    using assms by (cases "returning ?P (claimed_row now t owner dur) (jobs db)") (simp_all add: claim_def)
  then have "job_id row = jid" by (auto elim!: returning_ConsD simp: writes_keep_identity)
  with assms rows show ?thesis by (auto simp: claim_def result_simps)
qed

lemma claimed_lease:
  assumes "store_call env (CClaim n) (\<lambda>now. claim now t jid owner dur) w = (Inr (Some l), w2)"
  shows "lease_job l = jid"
proof -
  have "\<exists>now db db'. claim now t jid owner dur db = Inr (Some l, db')"
    using assms by (auto simp: store_call_def call_txn_def Let_def split: link.splits sum.splits option.splits prod.splits)
  then show ?thesis using claim_job by blast
qed

lemma reserve_from_slots:
  assumes "slots_ok w" "incoming w = ms" "reserve_from env owner dur ms w = (Inr res, w')"
    "res \<noteq> None \<Longrightarrow> held w (lease_job (the res)) = None"
  shows "slots_ok w' \<and> (res = None \<longrightarrow> incoming w' = [] \<and> held w' = held w) \<and>
    (\<forall>l. res = Some l \<longrightarrow> (\<exists>m \<in> set ms. held w' = (held w)(lease_job l \<mapsto> (l_id l, m))))"
  using assms
proof (induction env owner dur ms w arbitrary: res w' rule: reserve_from.induct)
  case (1 env owner dur w)
  then have w': "w' = w\<lparr>incoming := []\<rparr>" "res = None" by auto
  moreover have "slots_ok w' = slots_ok w" by (rule slots_frame) (simp_all add: w' 1)
  ultimately show ?case using 1 by simp
next
  case (2 env owner dur m ms w)
  let ?w1 = "w\<lparr>incoming := ms\<rparr>"
  obtain jid where jid: "Option.bind (d_body m) uuid_parse = Some jid"
    using 2(4) by (auto simp: Let_def split: option.splits)
  let ?call = "store_call env (CClaim (d_tag m)) (\<lambda>now. claim now (mint env (d_tag m)) jid owner dur)"
  obtain c w2 where c: "?call ?w1 = (Inr c, w2)"
    using 2(4) jid by (auto simp: Let_def thenA_def split: prod.splits sum.splits)
  have fr: "incoming w2 = ms" "held w2 = held w" "unacked w2 = unacked w"
    using store_call_frame [OF c] by simp_all
  show ?case
  proof (cases c)
    case None
    have next_step: "reserve_from env owner dur ms (settle m w2) = (Inr res, w')"
      using 2(4) jid c None by (simp add: Let_def thenA_def)
    have ok: "slots_ok (settle m w2)"
      using slots_settle_buffered [OF 2(2,3)] fr
      by (simp add: slots_ok_def in_hand_def held_once_def)
    have "slots_ok w' \<and> (res = None \<longrightarrow> incoming w' = [] \<and> held w' = held (settle m w2)) \<and>
      (\<forall>l. res = Some l \<longrightarrow> (\<exists>m' \<in> set ms. held w' = (held (settle m w2))(lease_job l \<mapsto> (l_id l, m'))))"
      by (rule 2(1) [OF refl jid None ok _ next_step]) (use fr 2(5) in auto)
    then show ?thesis unfolding settle_sel fr(2) list.set by blast
  next
    case (Some l)
    have res: "res = Some l" "w' = w2\<lparr>held := (held w2)(jid \<mapsto> (l_id l, m))\<rparr>"
      using 2(4) jid c Some by (auto simp: Let_def thenA_def)
    have "lease_job l = jid" using claimed_lease [OF c [unfolded Some]] .
    moreover have "slots_ok w'"
    proof -
      let ?v = "w\<lparr>incoming := ms, held := (held w)(jid \<mapsto> (l_id l, m))\<rparr>"
      have "held w jid = None" using 2(5) res(1) calculation by simp
      then have "slots_ok ?v" by (rule slots_hold [OF 2(2,3)])
      moreover have "slots_ok w' = slots_ok ?v" by (rule slots_frame) (simp_all add: res(2) fr)
      ultimately show ?thesis by simp
    qed
    ultimately show ?thesis using res fr by auto
  qed
qed

subsection \<open>The database under the queue\<close>

text \<open>
  Whatever an operation does to the database is a run of transactions: those other processes commit
  in between, and its own, each once or not at all. \<open>transacts A m\<close> says which they are.
\<close>

definition transacts :: "operation set \<Rightarrow> 'a act \<Rightarrow> bool" where
  "transacts A m \<longleftrightarrow> (\<forall>w. \<exists>ops. set ops \<subseteq> A \<and> w_db (snd (m w)) = run ops (w_db w))"

definition env_ops :: "env \<Rightarrow> operation set" where
  "env_ops env = {op. \<exists>c. op \<in> set (others env c)}"

named_theorems transact

lemma transactsD: "transacts A m \<Longrightarrow> \<exists>ops. set ops \<subseteq> A \<and> w_db (snd (m w)) = run ops (w_db w)"
  by (simp add: transacts_def)

lemma transacts_mono: "transacts A m \<Longrightarrow> A \<subseteq> B \<Longrightarrow> transacts B m"
  unfolding transacts_def by (meson order_trans)

lemma transacts_frame: "(\<And>w. w_db (snd (m w)) = w_db w) \<Longrightarrow> transacts A m"
  unfolding transacts_def by (metis empty_iff list.set(1) run.simps(1) subsetI)

lemma store_call_db: "w_db (snd (store_call env c t w)) =
    snd (call_txn (link_of env c) (others env c) (t (clock env c)) (w_db w))"
  by (simp add: store_call_def split: prod.splits sum.splits option.splits)

lemma transacts_store_call:
  assumes op: "\<And>db. exec op db = commit (t (clock env c) db)" and A: "env_ops env \<subseteq> A" "op \<in> A"
  shows "transacts A (store_call env c t)"
  unfolding transacts_def
proof
  fix w :: world
  have others: "set (others env c) \<subseteq> A" using A(1) by (auto simp: env_ops_def)
  have "snd (call_txn (link_of env c) (others env c) (t (clock env c)) (w_db w)) \<in>
      {run (others env c) (w_db w), run (others env c @ [op]) (w_db w)}"
    by (auto simp: call_txn_def Let_def run_append op commit_def split: link.splits sum.splits)
  then show "\<exists>ops. set ops \<subseteq> A \<and> w_db (snd (store_call env c t w)) = run ops (w_db w)"
    unfolding store_call_db
  proof (elim insertE emptyE)
    assume "snd (call_txn (link_of env c) (others env c) (t (clock env c)) (w_db w)) = run (others env c @ [op]) (w_db w)"
    with others A(2) show "\<exists>ops. set ops \<subseteq> A \<and>
        snd (call_txn (link_of env c) (others env c) (t (clock env c)) (w_db w)) = run ops (w_db w)"
      by (intro exI [of _ "others env c @ [op]"]) simp
  qed (use others in blast)
qed

lemma transacts_reading [transact]:
  "env_ops env \<subseteq> A \<Longrightarrow> transacts A (store_call env c (reading q))"
  unfolding transacts_def store_call_db
  by (intro allI exI [of _ "others env c"])
     (auto simp: env_ops_def call_txn_def Let_def reading_def split: link.splits)

lemma transacts_thenA [transact]:
  assumes m: "transacts A m" and f: "\<And>x. transacts A (f x)"
  shows "transacts A (thenA m f)"
  unfolding transacts_def
proof
  fix w :: world
  obtain r w1 where r: "m w = (r, w1)" by fastforce
  obtain ops where ops: "set ops \<subseteq> A" "w_db w1 = run ops (w_db w)"
    using m r unfolding transacts_def by (metis snd_conv)
  show "\<exists>ops. set ops \<subseteq> A \<and> w_db (snd (thenA m f w)) = run ops (w_db w)"
  proof (cases r)
    case (Inr x)
    obtain more where "set more \<subseteq> A" "w_db (snd (f x w1)) = run more (w_db w1)"
      using f unfolding transacts_def by blast
    with ops r Inr show ?thesis by (intro exI [of _ "ops @ more"]) (simp add: thenA_def run_append)
  qed (use ops r in \<open>auto simp: thenA_def\<close>)
qed

lemma transacts_finallyA [transact]:
  "transacts A m \<Longrightarrow> (\<And>w. w_db (g w) = w_db w) \<Longrightarrow> transacts A (finallyA m g)"
  unfolding transacts_def by (simp add: finallyA_def prod.case_eq_if)

lemma transacts_updateA [transact]: "(\<And>w. w_db (g w) = w_db w) \<Longrightarrow> transacts A (updateA g)"
  by (rule transacts_frame) (simp add: updateA_def)

lemma transacts_returnA [transact]: "transacts A (returnA x)"
  by (rule transacts_frame) (simp add: returnA_def)

lemma transacts_publish [transact]: "transacts A (publish env y jid delay)"
  by (rule transacts_frame) (metis publish_frame prod.collapse)

lemma transacts_mark [transact]:
  "env_ops env \<subseteq> A \<Longrightarrow> MarkPublished (clock env (CMark y jid)) jid \<in> A \<Longrightarrow> transacts A (mark env y jid)"
  unfolding mark_def by (rule transacts_store_call) simp_all

lemma transacts_forA [transact]:
  assumes "\<And>x. transacts A (f x)"
  shows "transacts A (forA f xs)"
proof (induction xs)
  case Nil
  show ?case by (rule transacts_frame) simp
next
  case (Cons x xs)
  have "forA f (x # xs) = thenA (f x) (\<lambda>_. forA f xs)" by (rule ext) simp
  with transacts_thenA [OF assms Cons.IH] show ?case by simp
qed

lemma fold_release_db: "w_db (fold (\<lambda>j. release j None) ids w) = w_db w"
  by (induction ids arbitrary: w) (simp_all add: release_frame)

lemma transacts_reoffer [transact]: "transacts A (reoffer env jid)"
proof -
  let ?go = "thenA (publish env Lapsed jid None)
      (\<lambda>_. updateA (\<lambda>w2. w2\<lparr>republished := (republished w2)(jid \<mapsto> loop_time env)\<rparr>))"
  have "w_db (snd (?go w)) = w_db w" for w
    using publish_frame [of env Lapsed jid None w]
    by (cases "publish env Lapsed jid None w") (auto simp: thenA_def updateA_def split: sum.splits)
  then show ?thesis by (intro transacts_frame) (simp add: reoffer_def Let_def release_frame)
qed

text \<open>The transactions of each operation.\<close>

definition marks :: "operation set" where
  "marks = {op. \<exists>now j. op = MarkPublished now j}"

lemma marks_intro [simp]: "MarkPublished now j \<in> marks"
  by (simp add: marks_def)

lemma transacts_sweep: "transacts (env_ops env \<union> marks \<union> {Retire (clock env CRetire)}) (rmq_sweep env)"
  unfolding rmq_sweep_def republish_def
  by (rule transacts_thenA, rule transacts_store_call)
     (auto intro!: transact simp: fold_release_db prune_def)

lemma transacts_enqueue:
  "transacts (env_ops env \<union> marks \<union> {Enqueue (clock env CInsert) i req}) (rmq_enqueue env i req)"
  unfolding rmq_enqueue_def
  by (rule transacts_thenA, rule transacts_store_call) (auto intro!: transact split: prod.splits)

lemma transacts_get: "transacts (env_ops env) (rmq_get env jid)"
  unfolding rmq_get_def by (rule transacts_reading) simp

lemma transacts_cancel: "transacts (env_ops env \<union> {Cancel (clock env CCancel) jid}) (rmq_cancel env jid)"
  unfolding rmq_cancel_def by (rule transacts_store_call) auto

lemma transacts_extend: "transacts (env_ops env \<union> {Extend (clock env CExtend) l d}) (rmq_extend env l d)"
  unfolding rmq_extend_def by (rule transacts_store_call) auto

lemma transacts_ack: "transacts (env_ops env \<union> {Ack (clock env CAck) l ref}) (rmq_ack env l ref)"
  unfolding rmq_ack_def
  by (rule transacts_finallyA, rule transacts_store_call) (auto simp: release_frame)

lemma transacts_nack:
  "transacts (env_ops env \<union> marks \<union> {Nack (clock env CNack) l err rt}) (rmq_nack env l err rt)"
  unfolding rmq_nack_def
  by (rule transacts_thenA, rule transacts_finallyA, rule transacts_store_call)
     (auto intro!: transact simp: release_frame)

definition claims :: "env \<Rightarrow> string \<Rightarrow> time \<Rightarrow> operation set" where
  "claims env owner dur = {op. \<exists>now n j. op = Claim now (mint env n) j owner dur}"

lemma transacts_reserve_from:
  "transacts (env_ops env \<union> claims env owner dur) (reserve_from env owner dur ms)"
proof (induction ms)
  case Nil
  show ?case by (rule transacts_frame) simp
next
  case (Cons m ms)
  let ?A = "env_ops env \<union> claims env owner dur"
  show ?case
  proof (cases "Option.bind (d_body m) uuid_parse")
    case None
    then show ?thesis by (intro transacts_frame) (simp add: Let_def)
  next
    case (Some jid)
    let ?call = "store_call env (CClaim (d_tag m)) (\<lambda>now. claim now (mint env (d_tag m)) jid owner dur)"
    let ?found = "\<lambda>claimed w2. case claimed of
        None \<Rightarrow> reserve_from env owner dur ms (settle m w2)
      | Some l \<Rightarrow> (Inr (Some l), w2\<lparr>held := (held w2)(jid \<mapsto> (l_id l, m))\<rparr>)"
    have "transacts ?A ?call" by (rule transacts_store_call) (auto simp: claims_def)
    moreover have "transacts ?A (?found x)" for x
    proof (cases x)
      case None
      with Cons.IH show ?thesis by (simp add: transacts_def) (metis settle_sel(3))
    next
      case (Some l)
      then show ?thesis by (intro transacts_frame) simp
    qed
    ultimately have found: "transacts ?A (thenA ?call ?found)" by (rule transacts_thenA)
    show ?thesis
      unfolding transacts_def
    proof
      fix w :: world
      have "reserve_from env owner dur (m # ms) w = thenA ?call ?found (w\<lparr>incoming := ms\<rparr>)"
        using Some by (simp add: Let_def)
      with transactsD [OF found, of "w\<lparr>incoming := ms\<rparr>"]
      show "\<exists>ops. set ops \<subseteq> ?A \<and> w_db (snd (reserve_from env owner dur (m # ms) w)) = run ops (w_db w)"
        by simp
    qed
  qed
qed

lemma transacts_reserve: "transacts (env_ops env \<union> claims env owner dur) (rmq_reserve env owner dur)"
  using transacts_reserve_from unfolding transacts_def rmq_reserve_def by blast

lemmas transacts_ops = transacts_enqueue transacts_get transacts_cancel transacts_reserve
  transacts_extend transacts_ack transacts_nack transacts_sweep

lemma transacts_reachable: "transacts A m \<Longrightarrow> reachable (w_db w) \<Longrightarrow> reachable (w_db (snd (m w)))"
  unfolding transacts_def by (metis reachable_run)

end
