(* ===== verification/Solve.thy ===== *)
theory Solve
  imports Jobs Py_Text Config
begin

text \<open>
  The two sides of the process boundary: \<open>worker/solve.py\<close> (what crosses the pipe), \<open>worker/child.py\<close>
  (what the child reports), \<open>worker/solvers.py\<close> (the registry) and \<open>worker/process.py\<close> (what the parent
  reads and how it stops the child).

  The operating system is not the program's: what the pipe yields and how the child exits are
  arguments. \<open>multiprocessing\<close> raises \<open>EOFError\<close> for a pipe closed before a message and another
  exception for one closed in the middle of it.
\<close>

subsection \<open>What crosses the boundary\<close>

type_synonym bytes = "8 word list"

record solve_request =
  sr_kind :: string
  sr_payload :: payload
  sr_job_id :: uuid

datatype outcome =
    Solved (solved_data: bytes) (solved_type: string)
  | Failed (fail_error: string) (fail_traceback: string) (fail_permanent: bool)
  | Died (exit_code: int)

text \<open>\<open>signal.Signals\<close> on Linux.\<close>

definition signal_names :: "(int \<times> string) list" where
  "signal_names = zip ([1..31] @ [34, 64])
     [''SIGHUP'', ''SIGINT'', ''SIGQUIT'', ''SIGILL'', ''SIGTRAP'', ''SIGABRT'', ''SIGBUS'', ''SIGFPE'',
      ''SIGKILL'', ''SIGUSR1'', ''SIGSEGV'', ''SIGUSR2'', ''SIGPIPE'', ''SIGALRM'', ''SIGTERM'',
      ''SIGSTKFLT'', ''SIGCHLD'', ''SIGCONT'', ''SIGSTOP'', ''SIGTSTP'', ''SIGTTIN'', ''SIGTTOU'',
      ''SIGURG'', ''SIGXCPU'', ''SIGXFSZ'', ''SIGVTALRM'', ''SIGPROF'', ''SIGWINCH'', ''SIGIO'',
      ''SIGPWR'', ''SIGSYS'', ''SIGRTMIN'', ''SIGRTMAX'']"

definition died_signal :: "int \<Rightarrow> string option" where
  "died_signal code = (if 0 \<le> code then None else map_of signal_names (- code))"

definition died_error :: "int \<Rightarrow> string" where
  "died_error code =
     (case died_signal code of
        Some sig \<Rightarrow> ''solve child killed by '' @ sig
      | None \<Rightarrow> ''solve child exited with status '' @ int_text code)"

subsection \<open>The child\<close>

text \<open>
  What a solver does with a payload: it returns, it raises an \<open>Exception\<close>, or the process ends under
  it (\<open>SystemExit\<close>, \<open>KeyboardInterrupt\<close>, \<open>os._exit\<close>, a signal). \<open>resolve\<close> looks a kind up in the registry.
\<close>

datatype solver_end =
    Returns_bytes bytes string
  | Raises_error string string string
  | Ends_process

type_synonym registry' = "string \<Rightarrow> (payload \<Rightarrow> solver_end) option"

definition resolve :: "registry' \<Rightarrow> string \<Rightarrow> string + (payload \<Rightarrow> solver_end)" where
  "resolve solvers k =
     (case solvers k of
        None \<Rightarrow> Inl (''no solver registered for kind '' @ py_repr k)
      | Some f \<Rightarrow> Inr f)"

definition solve_child :: "registry' \<Rightarrow> solve_request \<Rightarrow> outcome option" where
  "solve_child solvers req =
     (case resolve solvers (sr_kind req) of
        Inl e \<Rightarrow> Some (Failed e [] True)
      | Inr solver \<Rightarrow>
          (case solver (sr_payload req) of
             Returns_bytes b t \<Rightarrow> Some (Solved b t)
           | Raises_error ty msg tb \<Rightarrow> Some (Failed (ty @ '': '' @ msg) tb False)
           | Ends_process \<Rightarrow> None))"

text \<open>\<open>run_child\<close> sends the outcome, or closes the pipe with nothing on it.\<close>

datatype pipe = Message outcome | Closed | Torn string

definition run_child :: "registry' \<Rightarrow> solve_request \<Rightarrow> pipe" where
  "run_child solvers req = (case solve_child solvers req of Some r \<Rightarrow> Message r | None \<Rightarrow> Closed)"

subsection \<open>The parent's handle\<close>

text \<open>
  \<open>_read_and_reap\<close>: \<open>exits\<close> is the code the child exits with within \<open>_REAP_AFTER\<close>, \<open>None\<close> when it has to be
  killed. The answer is an outcome or the exception that escapes.
\<close>

definition SIGKILL_CODE :: int where
  "SIGKILL_CODE = -9"

definition read_and_reap :: "pipe \<Rightarrow> int option \<Rightarrow> string + outcome" where
  "read_and_reap p exits =
     (case p of
        Torn e \<Rightarrow> Inl e
      | Message r \<Rightarrow> Inr r
      | Closed \<Rightarrow> Inr (Died (case exits of Some c \<Rightarrow> c | None \<Rightarrow> SIGKILL_CODE)))"

text \<open>
  \<open>stop\<close>: what the collector reads after the SIGTERM if it answers within the grace, and after the
  SIGKILL otherwise. Whatever it raises, \<open>stop\<close> raises.
\<close>

datatype signalled = Sigterm | Sigkill

definition stop_child :: "bool \<Rightarrow> (pipe \<times> int option) option \<Rightarrow> pipe \<times> int option \<Rightarrow>
    signalled list \<times> (string + outcome)" where
  "stop_child running within_grace after_kill =
     ((if running then [Sigterm] else []) @ (case within_grace of Some _ \<Rightarrow> [] | None \<Rightarrow> [Sigkill]),
      case within_grace of
        Some (p, c) \<Rightarrow> read_and_reap p c
      | None \<Rightarrow> read_and_reap (fst after_kill) (snd after_kill))"

definition reported :: "string + outcome \<Rightarrow> outcome" where
  "reported r =
     (case r of
        Inr out \<Rightarrow> out
      | Inl e \<Rightarrow> Failed (''the solve child's outcome could not be read: '' @ e) [] False)"

definition solve_request_of :: "job \<Rightarrow> solve_request" where
  "solve_request_of j = \<lparr>sr_kind = kind j, sr_payload = payload j, sr_job_id = job_id j\<rparr>"

end
