(* ===== verification/Artifacts.thy ===== *)
theory Artifacts
  imports Solve
begin

text \<open>
  \<open>core/artifacts.py\<close> and \<open>adapters/s3/object_store.py\<close>: where an attempt writes, and the store it
  writes to. The protocol \<open>ObjectStore\<close> is a locale: its laws are what a reader of artifacts relies
  on, and both implementations keep them, the S3 client and the in-memory store of
  \<open>tests/MemoryObjectStore.py\<close>.
\<close>

subsection \<open>Keys\<close>

definition artifact_key :: "uuid \<Rightarrow> uuid \<Rightarrow> string" where
  "artifact_key jid lid = ''jobs/'' @ uuid_str jid @ ''/'' @ uuid_str lid"

lemma artifact_key_inj: "artifact_key j l = artifact_key j' l' \<longleftrightarrow> j = j' \<and> l = l'"
proof
  assume "artifact_key j l = artifact_key j' l'"
  then have e: "uuid_str j @ ''/'' @ uuid_str l = uuid_str j' @ ''/'' @ uuid_str l'"
    by (simp add: artifact_key_def)
  moreover have "length (uuid_str j) = length (uuid_str j')" by (simp add: uuid_str_def dashed_def)
  ultimately show "j = j' \<and> l = l'" by (simp add: uuid_str_inj append_eq_append_conv)
qed simp

subsection \<open>The S3 store\<close>

type_synonym objects = "string \<Rightarrow> (bytes \<times> string) option"

datatype store_error = ArtifactNotFound string | ClientError string

datatype put_answer = Stored | Refused string | StoredThenFailed string

text \<open>One request: the object is there whole or not at all, and the reply may be lost.\<close>

definition s3_put :: "put_answer \<Rightarrow> string \<Rightarrow> bytes \<Rightarrow> string \<Rightarrow> objects \<Rightarrow> (string + unit) \<times> objects" where
  "s3_put ans key b t objs =
     (case ans of
        Stored \<Rightarrow> (Inr (), objs(key \<mapsto> (b, t)))
      | Refused e \<Rightarrow> (Inl e, objs)
      | StoredThenFailed e \<Rightarrow> (Inl e, objs(key \<mapsto> (b, t))))"

definition missing_codes :: "string list" where
  "missing_codes = [''NoSuchKey'', ''NoSuchBucket'', ''404'']"

text \<open>\<open>answer\<close> is the client's: the body of the object, or the error code of a \<open>ClientError\<close>.\<close>

definition s3_get :: "string \<Rightarrow> string + bytes \<Rightarrow> store_error + bytes" where
  "s3_get key answer =
     (case answer of
        Inr b \<Rightarrow> Inr b
      | Inl code \<Rightarrow> if code \<in> set missing_codes then Inl (ArtifactNotFound key) else Inl (ClientError code))"

definition s3_delete :: "string \<Rightarrow> objects \<Rightarrow> objects" where
  "s3_delete key objs = objs(key := None)"

text \<open>
  \<open>ensure_bucket\<close>: \<open>head\<close> is the code of the \<open>ClientError\<close> of \<open>head_bucket\<close>, if any; \<open>create\<close> what
  \<open>create_bucket\<close> answers. The result says whether a bucket was asked for, and what escapes.
\<close>

definition ensure_bucket :: "string option \<Rightarrow> string + unit \<Rightarrow> bool \<times> (string + unit)" where
  "ensure_bucket head create =
     (case head of
        None \<Rightarrow> (False, Inr ())
      | Some code \<Rightarrow> if code \<notin> set missing_codes then (False, Inl code) else (True, create))"

text \<open>What the client answers from the objects there are.\<close>

definition s3_read :: "string \<Rightarrow> objects \<Rightarrow> store_error + bytes" where
  "s3_read key objs =
     s3_get key (case objs key of None \<Rightarrow> Inl ''NoSuchKey'' | Some (b, t) \<Rightarrow> Inr b)"

subsection \<open>The in-memory store\<close>

record mem_store =
  mem_objects :: objects
  written :: "string list"
  fail_with :: "string option"

definition mos_put :: "string \<Rightarrow> bytes \<Rightarrow> string \<Rightarrow> mem_store \<Rightarrow> (string + unit) \<times> mem_store" where
  "mos_put key b t s =
     (case fail_with s of
        Some e \<Rightarrow> (Inl e, s)
      | None \<Rightarrow> (Inr (), s\<lparr>mem_objects := (mem_objects s)(key \<mapsto> (b, t)), written := written s @ [key]\<rparr>))"

definition mos_read :: "string \<Rightarrow> mem_store \<Rightarrow> store_error + bytes" where
  "mos_read key s = (case mem_objects s key of None \<Rightarrow> Inl (ArtifactNotFound key) | Some (b, t) \<Rightarrow> Inr b)"

definition mos_delete :: "string \<Rightarrow> mem_store \<Rightarrow> mem_store" where
  "mos_delete key s = s\<lparr>mem_objects := (mem_objects s)(key := None)\<rparr>"

subsection \<open>The protocol\<close>

text \<open>
  A write that returns can be read back; one that raises may have landed or not, but like every
  other operation it leaves all other keys alone.
\<close>

datatype object_op = Put string bytes string | Remove string

fun op_key :: "object_op \<Rightarrow> string" where
  "op_key (Put k b t) = k"
| "op_key (Remove k) = k"

fun object_step ::
    "(string \<Rightarrow> bytes \<Rightarrow> string \<Rightarrow> 's \<Rightarrow> (string + unit) \<times> 's) \<Rightarrow> (string \<Rightarrow> 's \<Rightarrow> 's) \<Rightarrow> object_op \<Rightarrow> 's \<Rightarrow> 's" where
  "object_step put remove (Put k b t) s = snd (put k b t s)"
| "object_step put remove (Remove k) s = remove k s"

locale object_store =
  fixes put :: "string \<Rightarrow> bytes \<Rightarrow> string \<Rightarrow> 's \<Rightarrow> (string + unit) \<times> 's"
    and read :: "string \<Rightarrow> 's \<Rightarrow> store_error + bytes"
    and remove :: "string \<Rightarrow> 's \<Rightarrow> 's"
  assumes put_read: "put k b t s = (Inr (), s') \<Longrightarrow> read k s' = Inr b"
    and put_apart: "put k b t s = (r, s') \<Longrightarrow> k' \<noteq> k \<Longrightarrow> read k' s' = read k' s"
    and removed: "read k (remove k s) = Inl (ArtifactNotFound k)"
    and remove_apart: "k' \<noteq> k \<Longrightarrow> read k' (remove k s) = read k' s"
begin

lemma step_apart: "op_key op \<noteq> k \<Longrightarrow> read k (object_step put remove op s) = read k s"
  by (cases op) (auto simp: remove_apart intro: put_apart [OF prod.collapse [symmetric]])

lemma steps_apart:
  "\<forall>op \<in> set ops. op_key op \<noteq> k \<Longrightarrow> read k (fold (object_step put remove) ops s) = read k s"
  by (induction ops arbitrary: s) (simp_all add: step_apart)

lemma put_survives:
  assumes "put k b t s = (Inr (), s')" "\<forall>op \<in> set ops. op_key op \<noteq> k"
  shows "read k (fold (object_step put remove) ops s') = Inr b"
  using put_read [OF assms(1)] steps_apart [OF assms(2)] by simp

end

interpretation s3store: object_store "s3_put ans" s3_read s3_delete for ans
  by unfold_locales
     (auto simp: s3_put_def s3_read_def s3_get_def s3_delete_def missing_codes_def split: put_answer.splits)

interpretation memstore: object_store mos_put mos_read mos_delete
  by unfold_locales (auto simp: mos_put_def mos_read_def mos_delete_def split: option.splits)

text \<open>While nothing fails, the two stores agree on every read.\<close>

definition same_objects :: "objects \<Rightarrow> mem_store \<Rightarrow> bool" where
  "same_objects objs s \<longleftrightarrow> mem_objects s = objs \<and> fail_with s = None"

lemma same_objects_step:
  "same_objects objs s \<Longrightarrow> same_objects (object_step (s3_put Stored) s3_delete op objs) (object_step mos_put mos_delete op s)"
  by (cases op) (auto simp: same_objects_def s3_put_def mos_put_def s3_delete_def mos_delete_def)

lemma same_objects_read: "same_objects objs s \<Longrightarrow> s3_read key objs = mos_read key s"
  by (auto simp: same_objects_def s3_read_def s3_get_def mos_read_def missing_codes_def split: option.splits)

lemma stores_agree:
  "same_objects objs s \<Longrightarrow>
   s3_read key (fold (object_step (s3_put Stored) s3_delete) ops objs) = mos_read key (fold (object_step mos_put mos_delete) ops s)"
proof (induction ops arbitrary: objs s)
  case (Cons op ops)
  from Cons.IH [OF same_objects_step [OF Cons.prems]] show ?case by simp
qed (simp add: same_objects_read)

end
