(* ===== verification/Supervisor.thy ===== *)
theory Supervisor
  imports Rabbit_Queue Artifacts
begin

text \<open>
  \<open>worker/supervisor.py\<close>: one lease, one child, and the six ways a solve can end. The supervisor acts on
  the queue's \<open>world\<close> and on the object store. What it waits for is a list of wake-ups: at each,
  \<open>asyncio.wait\<close> has returned and the environment says what the clock reads, whether the child has
  reported or the worker was asked to stop, how the calls of this beat go, and what stopping the
  child would answer. An \<open>extend\<close> that \<open>wait_for\<close> gives up on is one whose reply never comes.
\<close>

subsection \<open>State, endings, wake-ups\<close>

record supervised =
  sup_world :: world
  artifacts :: objects

datatype ending = COMPLETED | CANCELLED_WHILE_RUNNING | TIMED_OUT | STALE | UNDEFENDABLE | RELEASED

record handled =
  h_lease :: lease
  h_outcome :: outcome
  h_ending :: ending

datatype sup_error = QueueError queue_error | CollectorError string | SpawnError

type_synonym 'a sact = "supervised \<Rightarrow> (sup_error + 'a) \<times> supervised"

definition on_queue :: "'a act \<Rightarrow> 'a sact" where
  "on_queue m s =
     (case m (sup_world s) of
        (Inl e, w) \<Rightarrow> (Inl (QueueError e), s\<lparr>sup_world := w\<rparr>)
      | (Inr x, w) \<Rightarrow> (Inr x, s\<lparr>sup_world := w\<rparr>))"

record wakeup =
  woke_at :: time
  child_report :: "(string + outcome) option"
  asked_to_stop :: bool
  beat :: env
  wall_clock :: time
  when_stopped :: "string + outcome"

subsection \<open>Watching the child\<close>

datatype renewal = Renewed lease | Taken | Unreachable

definition sup_extend :: "worker_config \<Rightarrow> env \<Rightarrow> lease \<Rightarrow> supervised \<Rightarrow> renewal \<times> supervised" where
  "sup_extend cfg env l s =
     (case on_queue (rmq_extend env l (lease_for cfg)) s of
        (Inr l', s1) \<Rightarrow> (Renewed l', s1)
      | (Inl (QueueError (StoreError (StaleLease j t))), s1) \<Rightarrow> (Taken, s1)
      | (Inl _, s1) \<Rightarrow> (Unreachable, s1))"

text \<open>Stopping the child is \<open>Solve_Process\<close>; the supervisor sees what the stop answers, which comes with the
  wake-up.\<close>

definition kill :: "lease \<Rightarrow> wakeup \<Rightarrow> ending \<Rightarrow> handled sact" where
  "kill l w e s =
     (case when_stopped w of
        Inl err \<Rightarrow> (Inl (CollectorError err), s)
      | Inr out \<Rightarrow> (Inr \<lparr>h_lease = l, h_outcome = out, h_ending = e\<rparr>, s))"

text \<open>\<open>None\<close>: the wake-ups are used up and the child is still being watched.\<close>

fun supervise ::
    "worker_config \<Rightarrow> time \<Rightarrow> lease \<Rightarrow> wakeup list \<Rightarrow> supervised \<Rightarrow>
     ((sup_error + handled) \<times> supervised) option" where
  "supervise cfg cap l [] s = None"
| "supervise cfg cap l (w # ws) s =
     (case child_report w of
        Some r \<Rightarrow> Some (Inr \<lparr>h_lease = l, h_outcome = reported r, h_ending = COMPLETED\<rparr>, s)
      | None \<Rightarrow>
          if asked_to_stop w then Some (kill l w RELEASED s)
          else if cap \<le> woke_at w then Some (kill l w TIMED_OUT s)
          else case sup_extend cfg (beat w) l s of
            (Taken, s1) \<Rightarrow> Some (kill l w STALE s1)
          | (Unreachable, s1) \<Rightarrow>
              if \<not> expired l (wall_clock w) then supervise cfg cap l ws s1
              else Some (kill l w UNDEFENDABLE s1)
          | (Renewed l', s1) \<Rightarrow>
              if cancel_requested (l_job l') then Some (kill l' w CANCELLED_WHILE_RUNNING s1)
              else supervise cfg cap l' ws s1)"

subsection \<open>Reporting\<close>

definition sup_nack :: "env \<Rightarrow> lease \<Rightarrow> string \<Rightarrow> time option \<Rightarrow> unit sact" where
  "sup_nack env l err retry_in s =
     (case on_queue (rmq_nack env l err retry_in) s of
        (Inl (QueueError (StoreError (StaleLease j t))), s1) \<Rightarrow> (Inr (), s1)
      | (r, s1) \<Rightarrow> (r, s1))"

definition sup_release :: "env \<Rightarrow> lease \<Rightarrow> string \<Rightarrow> unit sact" where
  "sup_release env l err s = (Inr (), snd (sup_nack env l err None s))"

definition sup_install ::
    "worker_config \<Rightarrow> env \<Rightarrow> put_answer \<Rightarrow> lease \<Rightarrow> bytes \<Rightarrow> string \<Rightarrow> unit sact" where
  "sup_install cfg env ans l b t s =
     (let key = artifact_key (job_id (l_job l)) (l_id l) in
      case s3_put ans key b t (artifacts s) of
        (Inl e, objs) \<Rightarrow>
          sup_nack env l (''writing the artifact failed: '' @ e) (Some (retry_backoff cfg)) (s\<lparr>artifacts := objs\<rparr>)
      | (Inr _, objs) \<Rightarrow>
          (case on_queue (rmq_ack env l (Some key)) (s\<lparr>artifacts := objs\<rparr>) of
             (Inl (QueueError (StoreError (StaleLease j t'))), s1) \<Rightarrow> (Inr (), s1)
           | (r, s1) \<Rightarrow> (r, s1)))"

definition sup_report :: "worker_config \<Rightarrow> env \<Rightarrow> put_answer \<Rightarrow> lease \<Rightarrow> outcome \<Rightarrow> unit sact" where
  "sup_report cfg env ans l out s =
     (case out of
        Solved b t \<Rightarrow> sup_install cfg env ans l b t s
      | Failed e tb permanent \<Rightarrow> sup_nack env l e (Some (retry_backoff cfg)) s
      | Died c \<Rightarrow> sup_nack env l (died_error c) (Some (retry_backoff cfg)) s)"

definition cap_error :: "worker_config \<Rightarrow> string" where
  "cap_error cfg = ''solve exceeded its '' @ timedelta_str (solve_timeout cfg) @ '' wall-clock cap''"

definition sup_finish :: "worker_config \<Rightarrow> env \<Rightarrow> put_answer \<Rightarrow> handled \<Rightarrow> unit sact" where
  "sup_finish cfg env ans h s =
     (let l = h_lease h in
      case h_ending h of
        STALE \<Rightarrow> (Inr (), s\<lparr>sup_world := rmq_discard l (sup_world s)\<rparr>)
      | UNDEFENDABLE \<Rightarrow> sup_release env l ''worker lost contact with the job store'' s
      | CANCELLED_WHILE_RUNNING \<Rightarrow> sup_nack env l ''cancelled while running'' None s
      | RELEASED \<Rightarrow> sup_nack env l ''released by a worker that is shutting down'' None s
      | TIMED_OUT \<Rightarrow> sup_nack env l (cap_error cfg) (Some (retry_backoff cfg)) s
      | COMPLETED \<Rightarrow> sup_report cfg env ans l (h_outcome h) s)"

subsection \<open>One job, and the loop\<close>

record shift =
  reserving :: env
  began_at :: time
  wakeups :: "wakeup list"
  finishing :: env
  putting :: put_answer
  closing_child :: "string + outcome"

text \<open>
  \<open>run_once\<close>: \<open>aclose\<close> runs whatever happened once the child is started and, like \<open>stop\<close>, raises what
  the collector raised. The start itself (a pipe, a pickled request, a process) stands before the
  \<open>try\<close>: what it raises leaves the turn with the lease and the delivery where the reserve put them.
\<close>

definition aclose :: "string + outcome \<Rightarrow> (sup_error + 'a) \<Rightarrow> sup_error + 'a" where
  "aclose c r = (case c of Inl e \<Rightarrow> Inl (CollectorError e) | Inr _ \<Rightarrow> r)"

definition watch_and_finish ::
    "worker_config \<Rightarrow> shift \<Rightarrow> lease \<Rightarrow> supervised \<Rightarrow> ((sup_error + handled) \<times> supervised) option" where
  "watch_and_finish cfg sh l s =
     (case supervise cfg (began_at sh + solve_timeout cfg) l (wakeups sh) s of
        None \<Rightarrow> None
      | Some (Inl e, s1) \<Rightarrow> Some (aclose (closing_child sh) (Inl e), s1)
      | Some (Inr h, s1) \<Rightarrow>
          (case sup_finish cfg (finishing sh) (putting sh) h s1 of
             (Inl e, s2) \<Rightarrow> Some (aclose (closing_child sh) (Inl e), s2)
           | (Inr _, s2) \<Rightarrow> Some (aclose (closing_child sh) (Inr h), s2)))"

definition run_once ::
    "worker_config \<Rightarrow> string \<Rightarrow> shift \<Rightarrow> supervised \<Rightarrow> ((sup_error + handled option) \<times> supervised) option" where
  "run_once cfg owner sh s =
     (case on_queue (rmq_reserve (reserving sh) owner (lease_for cfg)) s of
        (Inl e, s1) \<Rightarrow> Some (Inl e, s1)
      | (Inr None, s1) \<Rightarrow> Some (Inr None, s1)
      | (Inr (Some l), s1) \<Rightarrow>
          if link_of (reserving sh) CSpawn \<noteq> Works then Some (Inl SpawnError, s1)
          else (case watch_and_finish cfg sh l s1 of
             None \<Rightarrow> None
           | Some (Inl e, s2) \<Rightarrow> Some (Inl e, s2)
           | Some (Inr h, s2) \<Rightarrow> Some (Inr (Some h), s2)))"

text \<open>
  \<open>run\<close>: turn after turn until \<open>stop\<close>; an error that escapes a turn is logged, and the loop pauses and
  goes on. Each turn comes with whether the worker had been asked to stop before it.
\<close>

fun sup_run :: "worker_config \<Rightarrow> string \<Rightarrow> (bool \<times> shift) list \<Rightarrow> supervised \<Rightarrow> supervised option" where
  "sup_run cfg owner [] s = Some s"
| "sup_run cfg owner ((stopping, sh) # shs) s =
     (if stopping then Some s
      else case run_once cfg owner sh s of
        None \<Rightarrow> None
      | Some (r, s1) \<Rightarrow> sup_run cfg owner shs s1)"

end
