(* ===== verification/Rabbit_Properties.thy ===== *)
theory Rabbit_Properties
  imports Rabbit_Queue
begin

text \<open>
  What the queue over the broker keeps and repairs: every path that ends a lease frees the delivery
  behind it, a reserve accounts for every delivery it took, a job whose publish failed is found and
  published by the sweep, a \<open>nack\<close> offers again exactly the jobs it left failed. And where it does
  not: a claim that raises leaves a delivery nobody can settle, and a late \<open>mark_published\<close> hides a
  job from the sweep.
\<close>

subsection \<open>A small world the witnesses evaluate\<close>

definition demo_env :: env where
  "demo_env = \<lparr>clock = (\<lambda>_. 10), others = (\<lambda>_. []), link_of = (\<lambda>_. Works), mint = (\<lambda>_. 100),
     loop_time = 1000, quiet = 120, orphan_after = 2\<rparr>"

definition demo_delivery :: delivery where
  "demo_delivery = \<lparr>d_tag = 1, d_body = Some (uuid_str 1)\<rparr>"

definition idle_world :: "db \<Rightarrow> world" where
  "idle_world db = \<lparr>incoming = [], held = (\<lambda>_. None), republished = (\<lambda>_. None), w_db = db,
     sent = [], unacked = []\<rparr>"

definition demo_holding :: world where
  "demo_holding = (idle_world demo_running)
     \<lparr>held := (\<lambda>_. None)(1 \<mapsto> (100, demo_delivery)), unacked := [demo_delivery]\<rparr>"

lemma demo_lease_job: "lease_job demo_lease = 1" "l_id demo_lease = 100"
  by (simp_all add: demo_lease_def claimed_row_def new_row_def)

lemma demo_holding_slots: "slots_ok demo_holding"
  by (simp add: slots_ok_def demo_holding_def idle_world_def in_hand_def held_once_def)

subsection \<open>The queue is a client of the store\<close>

text \<open>
  What a call leaves behind: the transactions that ran against the database, in order, and the calls
  the broker accepted. \<open>round_trip\<close> is one round trip to the store: what other processes commit just
  before it, then the transaction itself unless the link failed before it. \<open>announced\<close> is a publish and
  the mark that follows it once the broker has confirmed. \<open>handed_back\<close> is the settling of the delivery
  behind a lease, when this process holds it under that lease's token.
\<close>

definition does :: "operation list \<Rightarrow> broker_call list \<Rightarrow> world \<Rightarrow> world \<Rightarrow> bool" where
  "does ops calls w w' \<longleftrightarrow> w_db w' = run ops (w_db w) \<and> sent w' = sent w @ calls"

definition round_trip :: "env \<Rightarrow> call \<Rightarrow> (time \<Rightarrow> operation) \<Rightarrow> operation list" where
  "round_trip env c op = others env c @ (if link_of env c = Fails then [] else [op (clock env c)])"

definition announced :: "env \<Rightarrow> why \<Rightarrow> uuid \<Rightarrow> time option \<Rightarrow> operation list \<times> broker_call list" where
  "announced env y j delay =
     (if link_of env (CPublish y j) = Works then round_trip env (CMark y j) (\<lambda>now. MarkPublished now j) else [],
      if link_of env (CPublish y j) = Fails then [] else [Published (uuid_str j) (route_of delay)])"

definition handed_back :: "lease \<Rightarrow> world \<Rightarrow> broker_call list" where
  "handed_back l w =
     (case held w (lease_job l) of
        None \<Rightarrow> [] | Some (t, m) \<Rightarrow> if t = l_id l then [Settled (d_tag m)] else [])"

lemma does_then: "does ops calls w w1 \<Longrightarrow> does ops' calls' w1 w2 \<Longrightarrow> does (ops @ ops') (calls @ calls') w w2"
  by (simp add: does_def run_append)

lemma store_call_does:
  assumes "\<And>now db. exec (op now) db = commit (t now db)"
  shows "does (round_trip env c op) [] w (snd (store_call env c t w))"
proof -
  obtain r w' where c: "store_call env c t w = (r, w')" by fastforce
  have "w_db w' = snd (call_txn (link_of env c) (others env c) (t (clock env c)) (w_db w))"
    using store_call_db [of env c t w] c by simp
  also have "\<dots> = run (round_trip env c op) (w_db w)"
    by (auto simp: call_txn_def Let_def round_trip_def run_append assms commit_def split: link.splits sum.splits)
  finally show ?thesis using store_call_frame [OF c] c by (simp add: does_def)
qed

lemma reading_does: "does (others env c) [] w (snd (store_call env c (reading q) w))"
proof -
  obtain r w' where c: "store_call env c (reading q) w = (r, w')" by fastforce
  have "w_db w' = snd (call_txn (link_of env c) (others env c) (reading q (clock env c)) (w_db w))"
    using store_call_db [of env c "reading q" w] c by simp
  then show ?thesis
    using store_call_frame [OF c] c by (simp add: does_def call_txn_def Let_def reading_def split: link.splits)
qed

lemma release_does: "does [] (handed_back l w) w (release (lease_job l) (Some (l_id l)) w)"
  by (auto simp: does_def handed_back_def release_def split: option.splits)

lemma ending_does:
  assumes "\<And>now db. exec (op now) db = commit (t now db)"
  shows "does (round_trip env c op) (handed_back l w) w
     (snd (finallyA (store_call env c t) (release (lease_job l) (Some (l_id l))) w))"
proof -
  obtain r w1 where c: "store_call env c t w = (r, w1)" by fastforce
  have "handed_back l w1 = handed_back l w" using store_call_frame [OF c] by (simp add: handed_back_def)
  with does_then [OF store_call_does [of op t env c w, OF assms] release_does, of l] c
  show ?thesis by (simp add: finallyA_def)
qed

lemma announced_does:
  "does (fst (announced env y j delay)) (snd (announced env y j delay)) w
     (snd (thenA (publish env y j delay) (\<lambda>_. mark env y j) w))"
proof (cases "link_of env (CPublish y j)")
  case Works
  let ?w1 = "w\<lparr>sent := sent w @ [Published (uuid_str j) (route_of delay)]\<rparr>"
  have "does (round_trip env (CMark y j) (\<lambda>now. MarkPublished now j)) [] ?w1 (snd (mark env y j ?w1))"
    unfolding mark_def by (rule store_call_does) simp
  moreover have "does [] [Published (uuid_str j) (route_of delay)] w ?w1" by (simp add: does_def)
  ultimately show ?thesis
    using does_then [of "[]" "[Published (uuid_str j) (route_of delay)]" w ?w1] Works
    by (simp add: announced_def thenA_def publish_def)
qed (simp_all add: announced_def thenA_def publish_def does_def)

lemma nack_job:
  assumes "nack now l err rt db = Inr (job, db')"
  shows "job_id job = lease_job l"
proof -
  obtain row rows where rows: "returning (fencing l) (nacked_row now err rt) (jobs db) = row # rows"
    using assms by (cases "returning (fencing l) (nacked_row now err rt) (jobs db)") (simp_all add: nack_def)
  then have "job_id row = lease_job l" by (auto elim!: returning_ConsD simp: writes_keep_identity fencing_def)
  with assms rows show ?thesis by (auto simp: nack_def result_simps)
qed

lemma insert_job:
  assumes "insert_or_get now i req db = Inr ((job, True), db')"
  shows "job_id job = i"
  using assms
  by (auto simp: insert_or_get_def Let_def new_row_def result_simps split: if_splits option.splits)

lemma store_call_result:
  "fst (store_call env c t w) = Inr x \<longleftrightarrow>
     link_of env c = Works \<and> (\<exists>db'. t (clock env c) (run (others env c) (w_db w)) = Inr (x, db'))"
  by (auto simp: store_call_def call_txn_def Let_def split: link.splits sum.splits option.splits prod.splits)

lemma enqueue_does:
  "(let o' = if link_of env CInsert = Works \<and> (\<exists>job db'. insert_or_get (clock env CInsert) i req
               (run (others env CInsert) (w_db w)) = Inr ((job, True), db'))
            then announced env Fresh i (Some (req_delay req)) else ([], [])
    in does (round_trip env CInsert (\<lambda>now. Enqueue now i req) @ fst o') (snd o') w (snd (rmq_enqueue env i req w)))"
proof -
  let ?t = "\<lambda>now. insert_or_get now i req"
  obtain r w1 where c: "store_call env CInsert ?t w = (r, w1)" by fastforce
  have first: "does (round_trip env CInsert (\<lambda>now. Enqueue now i req)) [] w w1"
    using store_call_does [of "\<lambda>now. Enqueue now i req" ?t env CInsert w] c by simp
  note res = store_call_result [of env CInsert ?t w, unfolded c fst_conv]
  show ?thesis
  proof (cases "\<exists>job. r = Inr (job, True)")
    case True
    then obtain job where r: "r = Inr (job, True)" by blast
    have new: "link_of env CInsert = Works \<and> (\<exists>job db'. insert_or_get (clock env CInsert) i req
               (run (others env CInsert) (w_db w)) = Inr ((job, True), db'))"
      using res r by blast
    have id: "job_id job = i" using res r insert_job by blast
    have "snd (rmq_enqueue env i req w) =
        snd (thenA (publish env Fresh i (Some (req_delay req))) (\<lambda>_. mark env Fresh i) w1)"
      using c r id by (simp add: rmq_enqueue_def thenA_def returnA_def split: prod.splits sum.splits)
    with does_then [OF first announced_does [of env Fresh i "Some (req_delay req)" w1]] new
    show ?thesis by simp
  next
    case False
    then have "snd (rmq_enqueue env i req w) = w1"
      using c by (cases r) (auto simp: rmq_enqueue_def thenA_def returnA_def)
    moreover have "\<not> (link_of env CInsert = Works \<and> (\<exists>job db'. insert_or_get (clock env CInsert) i req
               (run (others env CInsert) (w_db w)) = Inr ((job, True), db')))"
      using res False by blast
    ultimately show ?thesis using first by (simp only: if_False Let_def fst_conv snd_conv append_Nil2)
  qed
qed

lemma nack_does:
  "(let o' = if link_of env CNack = Works \<and> (\<exists>job db'. nack (clock env CNack) l err rt
               (run (others env CNack) (w_db w)) = Inr (job, db') \<and> state job = FAILED)
            then announced env Retry (lease_job l) rt else ([], [])
    in does (round_trip env CNack (\<lambda>now. Nack now l err rt) @ fst o') (handed_back l w @ snd o') w
         (snd (rmq_nack env l err rt w)))"
proof -
  let ?t = "\<lambda>now. nack now l err rt"
  let ?a = "finallyA (store_call env CNack ?t) (release (lease_job l) (Some (l_id l)))"
  obtain r w1 where c: "?a w = (r, w1)" by fastforce
  have first: "does (round_trip env CNack (\<lambda>now. Nack now l err rt)) (handed_back l w) w w1"
    using ending_does [of "\<lambda>now. Nack now l err rt" ?t env CNack l w] c by simp
  have "r = fst (store_call env CNack ?t w)" using c by (auto simp: finallyA_def split: prod.splits)
  note res = store_call_result [of env CNack ?t w, folded this]
  show ?thesis
  proof (cases "\<exists>job. r = Inr job \<and> state job = FAILED")
    case True
    then obtain job where r: "r = Inr job" "state job = FAILED" by blast
    have new: "link_of env CNack = Works \<and> (\<exists>job db'. nack (clock env CNack) l err rt
               (run (others env CNack) (w_db w)) = Inr (job, db') \<and> state job = FAILED)"
      using res r by blast
    have id: "job_id job = lease_job l" using res r nack_job by blast
    have "snd (rmq_nack env l err rt w) =
        snd (thenA (publish env Retry (lease_job l) rt) (\<lambda>_. mark env Retry (lease_job l)) w1)"
      using c r id by (simp add: rmq_nack_def thenA_def [of ?a])
    with does_then [OF first announced_does [of env Retry "lease_job l" rt w1]] new
    show ?thesis by simp
  next
    case False
    then have "snd (rmq_nack env l err rt w) = w1"
      using c by (cases r) (auto simp: rmq_nack_def thenA_def [of ?a] returnA_def)
    moreover have "\<not> (link_of env CNack = Works \<and> (\<exists>job db'. nack (clock env CNack) l err rt
               (run (others env CNack) (w_db w)) = Inr (job, db') \<and> state job = FAILED))"
      using res False by blast
    ultimately show ?thesis using first by (simp only: if_False Let_def fst_conv snd_conv append_Nil2)
  qed
qed


text \<open>A reserve asks the store for one delivery after the other, settles each the store has no use for,
  and stops at the first it does not get that answer for.\<close>

definition claim_trip :: "env \<Rightarrow> string \<Rightarrow> time \<Rightarrow> delivery \<Rightarrow> operation list" where
  "claim_trip env owner dur m =
     (case Option.bind (d_body m) uuid_parse of
        None \<Rightarrow> []
      | Some j \<Rightarrow> round_trip env (CClaim (d_tag m)) (\<lambda>now. Claim now (mint env (d_tag m)) j owner dur))"

definition reserve_stops :: "env \<Rightarrow> string \<Rightarrow> time \<Rightarrow> delivery list \<Rightarrow> world \<Rightarrow> queue_error + lease option \<Rightarrow> world \<Rightarrow> bool" where
  "reserve_stops env owner dur ms w r w' \<longleftrightarrow>
     r = Inr None \<and> incoming w' = [] \<and>
       does (concat (map (claim_trip env owner dur) ms)) (map (Settled \<circ> d_tag) ms) w w' \<or>
     (\<exists>refused m rest. ms = refused @ m # rest \<and> r \<noteq> Inr None \<and> incoming w' = rest \<and>
       does (concat (map (claim_trip env owner dur) (refused @ [m]))) (map (Settled \<circ> d_tag) refused) w w' \<and>
       (\<forall>l. r = Inr (Some l) \<longrightarrow> held w' = (held w)(lease_job l \<mapsto> (l_id l, m))))"

lemma reserve_from_does:
  "reserve_from env owner dur ms w = (r, w') \<Longrightarrow> reserve_stops env owner dur ms w r w'"
proof (induction ms arbitrary: w)
  case Nil
  then show ?case by (auto simp: reserve_stops_def does_def)
next
  case (Cons m ms)
  let ?w1 = "w\<lparr>incoming := ms\<rparr>"
  show ?case
  proof (cases "Option.bind (d_body m) uuid_parse")
    case None
    with Cons.prems have "r = Inl BadBody" "w' = ?w1" by (auto simp: Let_def)
    with None show ?thesis
      by (auto simp: reserve_stops_def does_def claim_trip_def intro!: exI [of _ "[]"])
  next
    case (Some jid)
    let ?t = "\<lambda>now. claim now (mint env (d_tag m)) jid owner dur"
    obtain c w2 where c: "store_call env (CClaim (d_tag m)) ?t ?w1 = (c, w2)" by fastforce
    have asks: "does (claim_trip env owner dur m) [] w w2"
      using store_call_does [of "\<lambda>now. Claim now (mint env (d_tag m)) jid owner dur" ?t env "CClaim (d_tag m)" ?w1]
        c Some by (simp add: claim_trip_def does_def)
    have fr: "incoming w2 = ms" "held w2 = held w" using store_call_frame [OF c] by simp_all
    show ?thesis
    proof (cases "c = Inr None")
      case True
      with Cons.prems c Some have "reserve_from env owner dur ms (settle m w2) = (r, w')"
        by (simp add: Let_def thenA_def)
      from Cons.IH [OF this] have rest: "reserve_stops env owner dur ms (settle m w2) r w'" .
      have "does (claim_trip env owner dur m) [Settled (d_tag m)] w (settle m w2)"
        using asks by (simp add: does_def)
      note step = does_then [OF this]
      from rest show ?thesis
        unfolding reserve_stops_def
      proof (elim disjE exE conjE)
        assume "r = Inr None" "incoming w' = []"
          "does (concat (map (claim_trip env owner dur) ms)) (map (Settled \<circ> d_tag) ms) (settle m w2) w'"
        with step show "r = Inr None \<and> incoming w' = [] \<and>
          does (concat (map (claim_trip env owner dur) (m # ms))) (map (Settled \<circ> d_tag) (m # ms)) w w' \<or>
          (\<exists>refused m' rest. m # ms = refused @ m' # rest \<and> r \<noteq> Inr None \<and> incoming w' = rest \<and>
            does (concat (map (claim_trip env owner dur) (refused @ [m']))) (map (Settled \<circ> d_tag) refused) w w' \<and>
            (\<forall>l. r = Inr (Some l) \<longrightarrow> held w' = (held w)(lease_job l \<mapsto> (l_id l, m'))))"
          by simp
      next
        fix refused m' rest
        assume a: "ms = refused @ m' # rest" "r \<noteq> Inr None" "incoming w' = rest"
          "does (concat (map (claim_trip env owner dur) (refused @ [m']))) (map (Settled \<circ> d_tag) refused) (settle m w2) w'"
          "\<forall>l. r = Inr (Some l) \<longrightarrow> held w' = (held (settle m w2))(lease_job l \<mapsto> (l_id l, m'))"
        have "does (concat (map (claim_trip env owner dur) ((m # refused) @ [m'])))
            (map (Settled \<circ> d_tag) (m # refused)) w w'" using step [OF a(4)] by simp
        moreover have "\<forall>l. r = Inr (Some l) \<longrightarrow> held w' = (held w)(lease_job l \<mapsto> (l_id l, m'))"
          using a(5) fr by simp
        moreover have "m # ms = (m # refused) @ m' # rest" using a(1) by simp
        ultimately show "r = Inr None \<and> incoming w' = [] \<and>
          does (concat (map (claim_trip env owner dur) (m # ms))) (map (Settled \<circ> d_tag) (m # ms)) w w' \<or>
          (\<exists>refused m' rest. m # ms = refused @ m' # rest \<and> r \<noteq> Inr None \<and> incoming w' = rest \<and>
            does (concat (map (claim_trip env owner dur) (refused @ [m']))) (map (Settled \<circ> d_tag) refused) w w' \<and>
            (\<forall>l. r = Inr (Some l) \<longrightarrow> held w' = (held w)(lease_job l \<mapsto> (l_id l, m'))))"
          using a(2,3) by blast
      qed
    next
      case False
      have res: "r \<noteq> Inr None \<and> incoming w' = ms \<and> does (claim_trip env owner dur m) [] w w' \<and>
          (\<forall>l. r = Inr (Some l) \<longrightarrow> held w' = (held w)(lease_job l \<mapsto> (l_id l, m)))"
      proof (cases c)
        case (Inl e)
        with Cons.prems c Some have "r = Inl e" "w' = w2" by (auto simp: Let_def thenA_def)
        with asks fr show ?thesis by simp
      next
        case (Inr lo)
        with False obtain l where l: "lo = Some l" by auto
        with Cons.prems c Some Inr have "r = Inr (Some l)" "w' = w2\<lparr>held := (held w2)(jid \<mapsto> (l_id l, m))\<rparr>"
          by (auto simp: Let_def thenA_def)
        with asks fr claimed_lease [OF c [unfolded Inr l]] show ?thesis by (simp add: does_def)
      qed
      then show ?thesis unfolding reserve_stops_def
        by (intro disjI2 exI [of _ "[]"] exI [of _ m] exI [of _ ms]) simp
    qed
  qed
qed

text \<open>
  The sweep's own marks: each for a job whose message the broker confirmed in this very pass.
\<close>

definition confirmed :: "env \<Rightarrow> broker_call list \<Rightarrow> operation set" where
  "confirmed env calls =
     {op. \<exists>j. op = MarkPublished (clock env (CMark Orphan j)) j \<and> Published (uuid_str j) Work \<in> set calls}"

definition repairs :: "env \<Rightarrow> 'a act \<Rightarrow> bool" where
  "repairs env m \<longleftrightarrow> (\<forall>w. \<exists>ops calls. does ops calls w (snd (m w)) \<and> set ops \<subseteq> env_ops env \<union> confirmed env calls)"

named_theorems repair

lemma repairsI: "(\<And>w. \<exists>ops calls. does ops calls w (snd (m w)) \<and> set ops \<subseteq> env_ops env \<union> confirmed env calls) \<Longrightarrow>
    repairs env m"
  by (simp add: repairs_def)

lemma repairs_thenA [repair]:
  assumes m: "repairs env m" and f: "\<And>x. repairs env (f x)"
  shows "repairs env (thenA m f)"
proof (rule repairsI)
  fix w
  obtain r w1 where r: "m w = (r, w1)" by fastforce
  obtain ops calls where o: "does ops calls w w1" "set ops \<subseteq> env_ops env \<union> confirmed env calls"
    using m r unfolding repairs_def by (metis snd_conv)
  show "\<exists>ops calls. does ops calls w (snd (thenA m f w)) \<and> set ops \<subseteq> env_ops env \<union> confirmed env calls"
  proof (cases r)
    case (Inl e)
    with o r show ?thesis by (auto simp: thenA_def)
  next
    case (Inr x)
    obtain more calls' where p: "does more calls' w1 (snd (f x w1))" "set more \<subseteq> env_ops env \<union> confirmed env calls'"
      using f unfolding repairs_def by blast
    have "set (ops @ more) \<subseteq> env_ops env \<union> confirmed env (calls @ calls')"
      using o(2) p(2) by (auto simp: confirmed_def)
    moreover have "does (ops @ more) (calls @ calls') w (snd (thenA m f w))"
      using does_then [OF o(1) p(1)] r Inr by (simp add: thenA_def)
    ultimately show ?thesis by blast
  qed
qed

lemma repairs_forA [repair]:
  assumes "\<And>x. repairs env (f x)"
  shows "repairs env (forA f xs)"
proof (induction xs)
  case Nil
  show ?case by (rule repairsI) (auto simp: does_def intro!: exI [of _ "[]"])
next
  case (Cons x xs)
  have "forA f (x # xs) = thenA (f x) (\<lambda>_. forA f xs)" by (rule ext) simp
  with repairs_thenA [OF assms Cons.IH] show ?case by simp
qed

lemma repairs_reading [repair]: "repairs env (store_call env c (reading q))"
  by (rule repairsI) (use reading_does in \<open>fastforce simp: env_ops_def\<close>)

lemma repairs_sends: "(\<And>w. \<exists>calls. does [] calls w (snd (m w))) \<Longrightarrow> repairs env m"
  by (rule repairsI) (metis empty_subsetI list.set(1))

lemma release_sends: "\<exists>calls. does [] calls w (release jid token w)"
  by (auto simp: does_def release_def split: option.splits)

lemma fold_release_sends: "\<exists>calls. does [] calls w (fold (\<lambda>j. release j None) ids w)"
proof (induction ids arbitrary: w)
  case Nil
  show ?case by (auto simp: does_def)
next
  case (Cons i ids)
  obtain c1 where "does [] c1 w (release i None w)" using release_sends by blast
  moreover obtain c2 where "does [] c2 (release i None w) (fold (\<lambda>j. release j None) ids (release i None w))"
    using Cons.IH by blast
  ultimately show ?case using does_then [of "[]" c1 w _ "[]" c2] by auto
qed

lemma repairs_reoffer [repair]: "repairs env (reoffer env jid)"
proof (rule repairs_sends)
  fix w
  obtain c1 where c1: "does [] c1 w (release jid None w)" using release_sends by blast
  have "\<exists>calls. does [] calls w1 (snd (thenA (publish env Lapsed jid None)
      (\<lambda>_. updateA (\<lambda>w2. w2\<lparr>republished := (republished w2)(jid \<mapsto> loop_time env)\<rparr>)) w1))" for w1
    by (cases "link_of env (CPublish Lapsed jid)") (auto simp: publish_def thenA_def updateA_def does_def)
  then obtain c2 where "does [] c2 (release jid None w) (snd (thenA (publish env Lapsed jid None)
      (\<lambda>_. updateA (\<lambda>w2. w2\<lparr>republished := (republished w2)(jid \<mapsto> loop_time env)\<rparr>)) (release jid None w)))"
    by blast
  from does_then [OF c1 this] c1 show "\<exists>calls. does [] calls w (snd (reoffer env jid w))"
    by (auto simp: reoffer_def Let_def)
qed

lemma repairs_republish [repair]: "repairs env (republish env jid)"
proof (rule repairsI)
  fix w
  have "set (fst (announced env Orphan jid None)) \<subseteq> env_ops env \<union> confirmed env (snd (announced env Orphan jid None))"
    by (auto simp: announced_def round_trip_def env_ops_def confirmed_def route_of_def)
  then show "\<exists>ops calls. does ops calls w (snd (republish env jid w)) \<and> set ops \<subseteq> env_ops env \<union> confirmed env calls"
    unfolding republish_def using announced_does by blast
qed

lemma repairs_updates: "repairs env (updateA (prune env))" "repairs env (updateA (fold (\<lambda>j. release j None) ids))"
  using fold_release_sends
  by (auto intro!: repairs_sends simp: updateA_def) (simp add: does_def prune_def)

lemma sweep_does:
  "\<exists>ops calls. does (round_trip env CRetire Retire @ ops) calls w (snd (rmq_sweep env w)) \<and>
     set ops \<subseteq> env_ops env \<union> confirmed env calls"
proof -
  obtain r w1 where c: "store_call env CRetire retire_lapsed w = (r, w1)" by fastforce
  have first: "does (round_trip env CRetire Retire) [] w w1"
    using store_call_does [of Retire retire_lapsed env CRetire w] c by simp
  show ?thesis
  proof (cases r)
    case (Inl e)
    with first c show ?thesis
      by (auto simp: rmq_sweep_def thenA_def intro!: exI [of _ "[]"])
  next
    case (Inr ended)
    let ?rest = "thenA (updateA (fold (\<lambda>jid. release jid None) ended)) (\<lambda>_.
      thenA (store_call env CLapsed (reading lapsed_reservable)) (\<lambda>stale.
      thenA (forA (reoffer env) stale) (\<lambda>_.
      thenA (store_call env CUnpublished (reading (\<lambda>now. unpublished now (orphan_after env)))) (\<lambda>orphans.
      thenA (forA (republish env) orphans) (\<lambda>_.
      updateA (prune env))))))"
    have "repairs env ?rest" by (intro repair repairs_updates)
    then obtain ops calls where o: "does ops calls w1 (snd (?rest w1))" "set ops \<subseteq> env_ops env \<union> confirmed env calls"
      unfolding repairs_def by blast
    have "snd (rmq_sweep env w) = snd (?rest w1)"
      using c Inr by (simp add: rmq_sweep_def thenA_def [of "store_call env CRetire retire_lapsed"])
    with does_then [OF first o(1)] have "does (round_trip env CRetire Retire @ ops) calls w (snd (rmq_sweep env w))"
      by simp
    with o(2) show ?thesis by blast
  qed
qed

text \<open>C22: Every operation of the queue is a run of the store's transactions and of calls to the broker,
  and these are they, whatever each link does (answers, fails before the call, loses the reply).
  \<open>get\<close>, \<open>cancel\<close> and \<open>extend\<close> are one transaction and tell the broker nothing. \<open>ack\<close> is one transaction,
  and the delivery behind the lease is settled whether or not the store took it; \<open>discard\<close> is the
  settling alone. \<open>enqueue\<close> publishes exactly when the store answered that it made the row, and marks
  the row published only after the broker confirmed; \<open>nack\<close> settles, then publishes and marks in that
  way exactly when the store answered that the job is left failed. \<open>reserve\<close> makes one claim per
  delivery, in order, settles those that were refused and keeps the one that was not. The sweep
  starts with the retirement, and marks only jobs whose message was sent in the same pass.\<close>

theorem queue_calls_are_transactions:
  "does (others env CGet) [] w (snd (rmq_get env jid w)) \<and>
   does (round_trip env CCancel (\<lambda>now. Cancel now jid)) [] w (snd (rmq_cancel env jid w)) \<and>
   does (round_trip env CExtend (\<lambda>now. Extend now l dur)) [] w (snd (rmq_extend env l dur w)) \<and>
   does (round_trip env CAck (\<lambda>now. Ack now l ref)) (handed_back l w) w (snd (rmq_ack env l ref w)) \<and>
   does [] (handed_back l w) w (rmq_discard l w) \<and>
   (let after = if link_of env CInsert = Works \<and> (\<exists>job db'. insert_or_get (clock env CInsert) i req
                  (run (others env CInsert) (w_db w)) = Inr ((job, True), db'))
                then announced env Fresh i (Some (req_delay req)) else ([], [])
    in does (round_trip env CInsert (\<lambda>now. Enqueue now i req) @ fst after) (snd after) w (snd (rmq_enqueue env i req w))) \<and>
   (let after = if link_of env CNack = Works \<and> (\<exists>job db'. nack (clock env CNack) l err rt
                  (run (others env CNack) (w_db w)) = Inr (job, db') \<and> state job = FAILED)
                then announced env Retry (lease_job l) rt else ([], [])
    in does (round_trip env CNack (\<lambda>now. Nack now l err rt) @ fst after) (handed_back l w @ snd after) w
         (snd (rmq_nack env l err rt w))) \<and>
   reserve_stops env owner dur (incoming w) w (fst (rmq_reserve env owner dur w)) (snd (rmq_reserve env owner dur w)) \<and>
   (\<exists>ops calls. does (round_trip env CRetire Retire @ ops) calls w (maintenance_pass env w) \<and>
      set ops \<subseteq> env_ops env \<union> confirmed env calls)"
proof (intro conjI)
  show "does (others env CGet) [] w (snd (rmq_get env jid w))"
    unfolding rmq_get_def by (rule reading_does)
  show "does (round_trip env CCancel (\<lambda>now. Cancel now jid)) [] w (snd (rmq_cancel env jid w))"
    unfolding rmq_cancel_def by (rule store_call_does) simp
  show "does (round_trip env CExtend (\<lambda>now. Extend now l dur)) [] w (snd (rmq_extend env l dur w))"
    unfolding rmq_extend_def by (rule store_call_does) simp
  show "does (round_trip env CAck (\<lambda>now. Ack now l ref)) (handed_back l w) w (snd (rmq_ack env l ref w))"
    unfolding rmq_ack_def by (rule ending_does) simp
  show "does [] (handed_back l w) w (rmq_discard l w)"
    unfolding rmq_discard_def by (rule release_does)
  show "reserve_stops env owner dur (incoming w) w (fst (rmq_reserve env owner dur w)) (snd (rmq_reserve env owner dur w))"
    unfolding rmq_reserve_def by (rule reserve_from_does) simp
qed (use enqueue_does nack_does sweep_does in \<open>simp_all add: maintenance_pass_def\<close>)

theorem queue_calls_are_transactions_witness:
  "does [Ack 10 demo_lease None] [Settled 1] demo_holding
     (snd (rmq_ack (demo_env\<lparr>link_of := \<lambda>_. LosesReply\<rparr>) demo_lease None demo_holding)) \<and>
   does [] [Settled 1] demo_holding
     (snd (rmq_nack (demo_env\<lparr>link_of := \<lambda>_. Fails\<rparr>) demo_lease ''boom'' None demo_holding))"
proof -
  have h: "handed_back demo_lease demo_holding = [Settled 1]"
    by (simp add: handed_back_def demo_holding_def demo_lease_job demo_delivery_def)
  note ack = queue_calls_are_transactions [of "demo_env\<lparr>link_of := \<lambda>_. LosesReply\<rparr>" demo_holding 0 demo_lease 0 None]
  note nack = queue_calls_are_transactions
    [of "demo_env\<lparr>link_of := \<lambda>_. Fails\<rparr>" demo_holding 0 demo_lease 0 None 0 demo_request "''boom''" None]
  show ?thesis
    using conjunct1 [OF conjunct2 [OF conjunct2 [OF conjunct2 [OF ack]]]]
      conjunct1 [OF conjunct2 [OF conjunct2 [OF conjunct2 [OF conjunct2 [OF conjunct2 [OF conjunct2 [OF nack]]]]]]]
    by (simp add: h round_trip_def demo_env_def)
qed

text \<open>In particular every operation leads from a reachable database to a reachable one.\<close>

lemma queue_keeps_reachable:
  assumes "reachable (w_db w)"
  shows "reachable (w_db (snd (rmq_enqueue env i req w)))" "reachable (w_db (snd (rmq_get env jid w)))"
    "reachable (w_db (snd (rmq_cancel env jid w)))" "reachable (w_db (snd (rmq_reserve env owner dur w)))"
    "reachable (w_db (snd (rmq_extend env l dur w)))" "reachable (w_db (snd (rmq_ack env l ref w)))"
    "reachable (w_db (snd (rmq_nack env l err rt w)))" "reachable (w_db (rmq_discard l w))"
    "reachable (w_db (maintenance_pass env w))"
  using transacts_ops [THEN transacts_reachable, OF assms] assms
  by (simp_all add: maintenance_pass_def rmq_discard_def release_frame)

subsection \<open>Every ending frees the slot\<close>

definition freed :: "lease \<Rightarrow> delivery \<Rightarrow> world \<Rightarrow> bool" where
  "freed l m w \<longleftrightarrow> slots_ok w \<and> held w (lease_job l) = None \<and> m \<notin> set (unacked w) \<and>
     Settled (d_tag m) \<in> set (sent w)"

lemma freed_release:
  assumes "slots_ok w" "held w (lease_job l) = Some (l_id l, m)"
  shows "freed l m (release (lease_job l) (Some (l_id l)) w)"
  using slots_release [OF assms(1)] released_gone [OF assms, of "Some (l_id l)"]
  by (simp add: freed_def)

lemma freed_frame:
  "freed l m w \<Longrightarrow> incoming w' = incoming w \<Longrightarrow> held w' = held w \<Longrightarrow> unacked w' = unacked w \<Longrightarrow>
   set (sent w) \<subseteq> set (sent w') \<Longrightarrow> freed l m w'"
  using slots_frame(1) [of w' w] by (auto simp: freed_def)

lemma publish_sent: "publish env y jid delay w = (r, w') \<Longrightarrow> set (sent w) \<subseteq> set (sent w')"
  by (auto simp: publish_def Let_def split: link.splits)

lemma freed_store_call:
  assumes "slots_ok w" "held w (lease_job l) = Some (l_id l, m)"
  shows "freed l m (snd (finallyA (store_call env c t) (release (lease_job l) (Some (l_id l))) w))"
proof -
  obtain r w1 where c: "store_call env c t w = (r, w1)" by fastforce
  note fr = store_call_frame [OF c]
  have "slots_ok w1 = slots_ok w" by (rule slots_frame) (simp_all add: fr)
  with assms fr have "freed l m (release (lease_job l) (Some (l_id l)) w1)"
    by (intro freed_release) simp_all
  with c show ?thesis by (simp add: finallyA_def)
qed

lemma freed_mark: "freed l m w \<Longrightarrow> freed l m (snd (mark env y jid w))"
proof -
  assume f: "freed l m w"
  obtain r w1 where c: "store_call env (CMark y jid) (\<lambda>now. mark_published now jid) w = (r, w1)" by fastforce
  from freed_frame [OF f, of w1] store_call_frame [OF c] c show ?thesis by (simp add: mark_def)
qed

lemma freed_publish_mark:
  assumes "freed l m w"
  shows "freed l m (snd (thenA (publish env y jid delay) (\<lambda>_. mark env y jid) w))"
proof -
  obtain r w1 where p: "publish env y jid delay w = (r, w1)" by fastforce
  from freed_frame [OF assms, of w1] publish_frame [OF p] publish_sent [OF p] have "freed l m w1" by simp
  with freed_mark p show ?thesis by (cases r) (simp_all add: thenA_def)
qed

lemma freed_endings:
  assumes "slots_ok w" "held w (lease_job l) = Some (l_id l, m)"
  shows "freed l m (snd (rmq_ack env l ref w))" "freed l m (snd (rmq_nack env l err rt w))"
    "freed l m (rmq_discard l w)"
proof -
  show "freed l m (snd (rmq_ack env l ref w))"
    unfolding rmq_ack_def by (rule freed_store_call [OF assms])
  show "freed l m (rmq_discard l w)" unfolding rmq_discard_def by (rule freed_release [OF assms])
  let ?a = "finallyA (store_call env CNack (\<lambda>now. nack now l err rt)) (release (lease_job l) (Some (l_id l)))"
  obtain r w1 where a: "?a w = (r, w1)" by fastforce
  have f: "freed l m w1"
    using freed_store_call [OF assms, of env CNack "\<lambda>now. nack now l err rt"] by (simp add: a)
  show "freed l m (snd (rmq_nack env l err rt w))"
    using freed_publish_mark [OF f] f a
    by (cases r) (simp_all add: rmq_nack_def thenA_def [of ?a] returnA_def)
qed

text \<open>Every way of ending a lease gives the broker its delivery back: \<open>ack\<close>, \<open>nack\<close> and \<open>discard\<close>
  settle the delivery held for the lease and drop it, whether the store accepts the write, refuses
  it as stale or cannot be reached, whether or not the republish works, and the account of
  outstanding deliveries stays exact.\<close>

theorem every_ending_frees_the_slot:
  assumes "slots_ok w" "held w (lease_job l) = Some (l_id l, m)"
  shows "freed l m (snd (rmq_ack env l ref w)) \<and> freed l m (snd (rmq_nack env l err rt w)) \<and>
         freed l m (rmq_discard l w)"
  by (simp add: freed_endings [OF assms])

theorem every_ending_frees_the_slot_witness:
  "freed demo_lease demo_delivery (snd (rmq_ack (demo_env\<lparr>link_of := \<lambda>_. Fails\<rparr>) demo_lease None demo_holding))"
proof -
  have "held demo_holding (lease_job demo_lease) = Some (l_id demo_lease, demo_delivery)"
    by (simp add: demo_lease_job demo_holding_def)
  from every_ending_frees_the_slot [OF demo_holding_slots this] show ?thesis by blast
qed

subsection \<open>A reserve accounts for what it took\<close>

text \<open>A reserve that returns accounts for every delivery it took, on a consumer holding nothing: it
  returns nothing only when every buffered delivery was refused by its row and settled, so none is
  outstanding; it returns a lease with exactly one delivery held, under that lease's job and token.\<close>

theorem reserve_accounts_for_deliveries:
  assumes "slots_ok w" "held w = (\<lambda>_. None)" "rmq_reserve env owner dur w = (Inr res, w')"
  shows "slots_ok w' \<and>
    (case res of None \<Rightarrow> unacked w' = []
     | Some l \<Rightarrow> \<exists>m \<in> set (incoming w). held w' = (\<lambda>_. None)(lease_job l \<mapsto> (l_id l, m)))"
proof -
  have r: "slots_ok w' \<and> (res = None \<longrightarrow> incoming w' = [] \<and> held w' = held w) \<and>
    (\<forall>l. res = Some l \<longrightarrow> (\<exists>m \<in> set (incoming w). held w' = (held w)(lease_job l \<mapsto> (l_id l, m))))"
    by (rule reserve_from_slots [OF assms(1) refl assms(3) [unfolded rmq_reserve_def]])
       (simp add: assms(2))
  have "unacked w' = []" if "res = None"
  proof -
    have "set (unacked w') = {}" using r that assms(2) by (simp add: slots_ok_def in_hand_def)
    then show ?thesis by simp
  qed
  with r assms(2) show ?thesis by (auto split: option.splits)
qed

theorem reserve_accounts_for_deliveries_witness:
  "unacked (snd (rmq_reserve demo_env ''w'' 60 (on_delivery demo_delivery (idle_world empty_db)))) = []"
proof -
  let ?w = "on_delivery demo_delivery (idle_world empty_db)"
  have w: "slots_ok ?w" "held ?w = (\<lambda>_. None)"
    by (simp_all add: slots_ok_def on_delivery_def idle_world_def in_hand_def held_once_def)
  have "fst (rmq_reserve demo_env ''w'' 60 ?w) = Inr None"
    by (simp add: rmq_reserve_def on_delivery_def idle_world_def demo_delivery_def uuid_parse_str Let_def
        thenA_def store_call_def call_txn_def demo_env_def claim_def empty_db_def)
  then obtain w' where "rmq_reserve demo_env ''w'' 60 ?w = (Inr None, w')" by (metis prod.collapse)
  from reserve_accounts_for_deliveries [OF w this] this show ?thesis by simp
qed

lemma store_call_works:
  "link_of env c = Works \<Longrightarrow> t (clock env c) (run (others env c) (w_db w)) = Inr (x, db') \<Longrightarrow>
   store_call env c t w = (Inr x, w\<lparr>w_db := db'\<rparr>)"
  by (simp add: store_call_def call_txn_def Let_def)

text \<open>What is published can be claimed: the body put on the wire for a job, delivered back, is read as
  that very job, and if its row may be claimed at that moment the reserve returns a lease on it and
  holds the delivery until the lease is ended.\<close>

theorem published_body_is_claimable:
  assumes "publish env0 y (job_id r) delay w0 = (Inr (), w1)"
    and "sent w1 = sent w0 @ [Published body rt]"
    and "sys_ok (w_db w)" "incoming w = m # ms" "d_body m = Some body"
    and "link_of env (CClaim (d_tag m)) = Works"
    and "r \<in> set (jobs (run (others env (CClaim (d_tag m))) (w_db w)))"
    and "waiting (clock env (CClaim (d_tag m))) r \<or> lapsed (clock env (CClaim (d_tag m))) r"
  shows "\<exists>l w'. rmq_reserve env owner dur w = (Inr (Some l), w') \<and> lease_job l = job_id r \<and>
           l_id l = mint env (d_tag m) \<and> held w' (job_id r) = Some (l_id l, m) \<and> incoming w' = ms"
proof -
  let ?c = "CClaim (d_tag m)"
  have body: "uuid_parse body = Some (job_id r)"
    using assms(1,2) uuid_parse_str by (auto simp: publish_def Let_def split: link.splits)
  have "db_ok (run (others env ?c) (w_db w))"
    using run_sys_ok [OF assms(3)] by (simp add: sys_ok_def)
  from claim_granted [OF this assms(7,8), of "mint env (d_tag m)" owner dur] obtain db' l where
    c: "claim (clock env ?c) (mint env (d_tag m)) (job_id r) owner dur (run (others env ?c) (w_db w)) =
        Inr (Some l, db')" "l_id l = mint env (d_tag m)" "lease_job l = job_id r"
    by (auto simp: writes_keep_identity)
  have "store_call env ?c (\<lambda>now. claim now (mint env (d_tag m)) (job_id r) owner dur) (w\<lparr>incoming := ms\<rparr>) =
      (Inr (Some l), w\<lparr>incoming := ms, w_db := db'\<rparr>)"
    using store_call_works [OF assms(6), of "\<lambda>now. claim now (mint env (d_tag m)) (job_id r) owner dur"
        "w\<lparr>incoming := ms\<rparr>"] c(1) by simp
  then have "rmq_reserve env owner dur w =
      (Inr (Some l), w\<lparr>incoming := ms, w_db := db', held := (held w)(job_id r \<mapsto> (l_id l, m))\<rparr>)"
    by (simp add: rmq_reserve_def assms(4) Let_def assms(5) body thenA_def)
  with c(2,3) show ?thesis by simp
qed

theorem published_body_is_claimable_witness:
  "\<exists>l. fst (rmq_reserve demo_env ''w'' 60 (on_delivery demo_delivery (idle_world demo_queued))) =
     Inr (Some l) \<and> lease_job l = 1"
proof -
  let ?r = "new_row 5 1 demo_request" and ?w = "on_delivery demo_delivery (idle_world demo_queued)"
  let ?w1 = "(idle_world demo_queued)\<lparr>sent := [Published (uuid_str 1) Work]\<rparr>"
  have id: "job_id ?r = 1" by (simp add: new_row_def)
  have "publish demo_env Fresh (job_id ?r) None (idle_world demo_queued) = (Inr (), ?w1)"
    by (simp add: publish_def demo_env_def route_of_def id idle_world_def)
  moreover have "sent ?w1 = sent (idle_world demo_queued) @ [Published (uuid_str 1) Work]"
    by (simp add: idle_world_def)
  moreover have "sys_ok (w_db ?w)" by (simp add: on_delivery_def idle_world_def demo_queued_ok)
  moreover have "incoming ?w = demo_delivery # []" by (simp add: on_delivery_def idle_world_def)
  moreover have "d_body demo_delivery = Some (uuid_str 1)" by (simp add: demo_delivery_def)
  moreover have "link_of demo_env (CClaim (d_tag demo_delivery)) = Works" by (simp add: demo_env_def)
  moreover have "?r \<in> set (jobs (run (others demo_env (CClaim (d_tag demo_delivery))) (w_db ?w)))"
    by (simp add: demo_env_def on_delivery_def idle_world_def demo_queued_jobs)
  moreover have "waiting (clock demo_env (CClaim (d_tag demo_delivery))) ?r"
    by (simp add: demo_env_def waiting_def new_row_def demo_request_def request_def)
  ultimately show ?thesis
    using published_body_is_claimable [of demo_env Fresh ?r None "idle_world demo_queued" ?w1
        "uuid_str 1" Work ?w demo_delivery "[]" demo_env "''w''" 60] id by fastforce
qed

subsection \<open>A reserve that raises\<close>

text \<open>
  A delivery the broker counts as outstanding and the process can no longer settle, with nothing
  left in the buffer.
\<close>

definition lost :: "delivery \<Rightarrow> world \<Rightarrow> bool" where
  "lost m w \<longleftrightarrow> m \<in> set (unacked w) \<and> m \<notin> in_hand w \<and> incoming w = []"

definition keeps_lost :: "delivery \<Rightarrow> 'a act \<Rightarrow> bool" where
  "keeps_lost m f \<longleftrightarrow> (\<forall>w. lost m w \<longrightarrow> lost m (snd (f w)))"

lemma lost_frame:
  "lost m w \<Longrightarrow> incoming w' = incoming w \<Longrightarrow> held w' = held w \<Longrightarrow> unacked w' = unacked w \<Longrightarrow> lost m w'"
  by (simp add: lost_def in_hand_def)

lemma lost_release: "lost m w \<Longrightarrow> lost m (release jid token w)"
proof (rule release_cases [of jid token w])
  fix t m'
  assume l: "lost m w" and h: "held w jid = Some (t, m')"
    and r: "release jid token w = settle m' (w\<lparr>held := (held w)(jid := None)\<rparr>)"
  from l h have "m' \<noteq> m" by (auto simp: lost_def in_hand_def)
  with l show "lost m (release jid token w)"
    unfolding r by (auto simp: lost_def in_hand_def split: if_splits)
qed simp

named_theorems keeps_slot

lemma keeps_lost_store_call [keeps_slot]: "keeps_lost m (store_call env c t)"
  unfolding keeps_lost_def by (metis lost_frame prod.collapse store_call_frame)

lemma keeps_lost_publish [keeps_slot]: "keeps_lost m (publish env y jid delay)"
  unfolding keeps_lost_def by (metis lost_frame prod.collapse publish_frame)

lemma keeps_lost_mark [keeps_slot]: "keeps_lost m (mark env y jid)"
  unfolding mark_def by (rule keeps_lost_store_call)

lemma keeps_lost_thenA [keeps_slot]:
  "keeps_lost m f \<Longrightarrow> (\<And>x. keeps_lost m (g x)) \<Longrightarrow> keeps_lost m (thenA f g)"
  unfolding keeps_lost_def thenA_def by (simp add: prod.case_eq_if sum.case_eq_if)

lemma keeps_lost_finallyA [keeps_slot]:
  "keeps_lost m f \<Longrightarrow> (\<And>w. lost m w \<Longrightarrow> lost m (g w)) \<Longrightarrow> keeps_lost m (finallyA f g)"
  unfolding keeps_lost_def finallyA_def by (simp add: prod.case_eq_if)

lemma keeps_lost_updateA [keeps_slot]: "(\<And>w. lost m w \<Longrightarrow> lost m (g w)) \<Longrightarrow> keeps_lost m (updateA g)"
  by (simp add: keeps_lost_def updateA_def)

lemma keeps_lost_returnA [keeps_slot]: "keeps_lost m (returnA x)"
  by (simp add: keeps_lost_def returnA_def)

lemma keeps_lost_forA [keeps_slot]:
  assumes "\<And>x. keeps_lost m (f x)"
  shows "keeps_lost m (forA f xs)"
proof (induction xs)
  case Nil
  show ?case by (simp add: keeps_lost_def)
next
  case (Cons x xs)
  have "forA f (x # xs) = thenA (f x) (\<lambda>_. forA f xs)" by (rule ext) simp
  with keeps_lost_thenA [OF assms Cons.IH] show ?case by simp
qed

lemma keeps_lost_reoffer [keeps_slot]: "keeps_lost m (reoffer env jid)"
proof -
  have "keeps_lost m (thenA (publish env Lapsed jid None)
      (\<lambda>_. updateA (\<lambda>w2. w2\<lparr>republished := (republished w2)(jid \<mapsto> loop_time env)\<rparr>)))"
    by (intro keeps_slot) (erule lost_frame; simp)
  then show ?thesis using lost_release by (simp add: keeps_lost_def reoffer_def Let_def)
qed

lemma keeps_lost_republish [keeps_slot]: "keeps_lost m (republish env jid)"
  unfolding republish_def by (intro keeps_slot)

lemma lost_fold_release: "lost m w \<Longrightarrow> lost m (fold (\<lambda>j. release j None) ids w)"
  by (induction ids arbitrary: w) (simp_all add: lost_release)

lemma lost_prune: "lost m w \<Longrightarrow> lost m (prune env w)"
  by (erule lost_frame) (simp_all add: prune_def)

lemma keeps_lost_sweep [keeps_slot]: "keeps_lost m (rmq_sweep env)"
  unfolding rmq_sweep_def by (intro keeps_slot lost_fold_release lost_prune)

lemma keeps_lost_finish [keeps_slot]:
  "keeps_lost m (rmq_ack env l ref)" "keeps_lost m (rmq_nack env l err rt)"
  "keeps_lost m (rmq_enqueue env new_id req)"
proof -
  show "keeps_lost m (rmq_ack env l ref)" unfolding rmq_ack_def by (intro keeps_slot lost_release)
  show "keeps_lost m (rmq_nack env l err rt)"
    unfolding rmq_nack_def by (auto intro!: keeps_slot lost_release)
  show "keeps_lost m (rmq_enqueue env new_id req)"
    unfolding rmq_enqueue_def by (rule keeps_lost_thenA) (auto intro!: keeps_slot split: prod.splits)
qed

text \<open>
  What a consumer does over its life: it is handed deliveries, within the window, and runs the
  operations in any order and in any environment. A reserve starts with what is buffered.
\<close>

inductive consumer_step :: "nat \<Rightarrow> world \<Rightarrow> world \<Rightarrow> bool" where
  delivered: "length (unacked w) < prefetch \<Longrightarrow> m \<notin> set (unacked w) \<Longrightarrow> consumer_step prefetch w (on_delivery m w)"
| enqueued: "consumer_step prefetch w (snd (rmq_enqueue env new_id req w))"
| reserved: "consumer_step prefetch w (snd (rmq_reserve env owner dur w))"
| acked: "consumer_step prefetch w (snd (rmq_ack env l ref w))"
| nacked: "consumer_step prefetch w (snd (rmq_nack env l err rt w))"
| discarded: "consumer_step prefetch w (rmq_discard l w)"
| maintained: "consumer_step prefetch w (maintenance_pass env w)"

lemma empty_reserve: "incoming w = [] \<Longrightarrow> rmq_reserve env owner dur w = (Inr None, w\<lparr>incoming := []\<rparr>)"
  by (simp add: rmq_reserve_def)

lemma lost_step:
  assumes "consumer_step prefetch w w'" "prefetch = 1" "lost m w"
  shows "lost m w'"
  using assms
proof (cases rule: consumer_step.cases)
  case (delivered m')
  with assms(2,3) show ?thesis by (cases "unacked w") (simp_all add: lost_def)
next
  case (reserved env owner dur)
  with assms(3) have "rmq_reserve env owner dur w = (Inr None, w\<lparr>incoming := []\<rparr>)"
    by (intro empty_reserve) (simp add: lost_def)
  with assms(3) reserved show ?thesis by (simp add: lost_def in_hand_def)
next
  case (discarded l)
  with assms(3) show ?thesis by (simp add: rmq_discard_def lost_release)
next
  case (maintained env)
  with assms(3) keeps_lost_sweep [of m env] show ?thesis
    by (simp add: maintenance_pass_def keeps_lost_def)
next
  case (acked env l ref)
  with assms(3) keeps_lost_finish(1) [of m env l ref] show ?thesis by (simp add: keeps_lost_def)
next
  case (nacked env l err rt)
  with assms(3) keeps_lost_finish(2) [of m env l err rt] show ?thesis by (simp add: keeps_lost_def)
next
  case (enqueued env i req)
  with assms(3) keeps_lost_finish(3) [of m env i req] show ?thesis by (simp add: keeps_lost_def)
qed

text \<open>C20: If the store cannot be reached when \<open>reserve\<close> claims, the error leaves its delivery outstanding
  and out of reach, and at a prefetch window of one the consumer is finished: whatever it does
  afterwards on that channel, in any environment, that delivery is never settled and every reserve
  returns nothing.\<close>

theorem failed_claim_wedges_consumer:
  assumes "slots_ok w" "incoming w = [m]" "Option.bind (d_body m) uuid_parse = Some jid"
    and "link_of env (CClaim (d_tag m)) \<noteq> Works" "rmq_reserve env owner dur w = (r, w')"
    and "(consumer_step 1)\<^sup>*\<^sup>* w' w''"
  shows "r = Inl StoreDown \<and> m \<in> set (unacked w'') \<and>
         fst (rmq_reserve env2 owner2 dur2 w'') = Inr None"
proof -
  let ?call = "store_call env (CClaim (d_tag m)) (\<lambda>now. claim now (mint env (d_tag m)) jid owner dur)"
  obtain w1 where c: "?call (w\<lparr>incoming := []\<rparr>) = (Inl StoreDown, w1)"
    using assms(4) by (cases "link_of env (CClaim (d_tag m))") (simp_all add: store_call_def call_txn_def Let_def)
  then have r: "r = Inl StoreDown" "w' = w1"
    using assms(2,3,5) by (auto simp: rmq_reserve_def Let_def thenA_def)
  have fr: "incoming w1 = []" "held w1 = held w" "unacked w1 = unacked w"
    using store_call_frame [OF c] by simp_all
  have "m \<in> set (unacked w)" "\<And>j t. held w j \<noteq> Some (t, m)"
    using assms(1,2) by (auto simp: slots_ok_def in_hand_def held_once_def)
  with fr r(2) have "lost m w'" by (simp add: lost_def in_hand_def)
  from assms(6) this have "lost m w''" by (induction rule: rtranclp_induct) (auto intro: lost_step)
  then show ?thesis using r(1) empty_reserve [of w''] by (simp add: lost_def)
qed

theorem failed_claim_wedges_consumer_witness:
  "fst (rmq_reserve demo_env ''w'' 60 (snd (rmq_reserve (demo_env\<lparr>link_of := \<lambda>_. Fails\<rparr>) ''w'' 60
      (on_delivery demo_delivery (idle_world demo_queued))))) = Inr None"
proof -
  let ?w = "on_delivery demo_delivery (idle_world demo_queued)" and ?e = "demo_env\<lparr>link_of := \<lambda>_. Fails\<rparr>"
  have w: "slots_ok ?w" "incoming ?w = [demo_delivery]"
    by (simp_all add: slots_ok_def on_delivery_def idle_world_def in_hand_def held_once_def)
  have p: "Option.bind (d_body demo_delivery) uuid_parse = Some 1"
    by (simp add: demo_delivery_def uuid_parse_str)
  have l: "link_of ?e (CClaim (d_tag demo_delivery)) \<noteq> Works" by simp
  obtain r w' where r: "rmq_reserve ?e ''w'' 60 ?w = (r, w')" by fastforce
  from failed_claim_wedges_consumer [OF w p l r rtranclp.rtrancl_refl] r show ?thesis by simp
qed

subsection \<open>The dual write and its repair\<close>

definition on_the_wire :: "world \<Rightarrow> (string \<times> route) list" where
  "on_the_wire w = concat (map (\<lambda>c. case c of Published b rt \<Rightarrow> [(b, rt)] | Settled _ \<Rightarrow> []) (sent w))"

lemma on_the_wire_settle [simp]: "on_the_wire (settle m w) = on_the_wire w"
  by (simp add: on_the_wire_def)

lemma on_the_wire_release: "on_the_wire (release jid token w) = on_the_wire w"
  by (rule release_cases [of jid token w]; simp) (simp add: on_the_wire_def)

lemma on_the_wire_frame: "sent w' = sent w \<Longrightarrow> on_the_wire w' = on_the_wire w"
  by (simp add: on_the_wire_def)

lemma publish_works:
  "link_of env (CPublish y jid) = Works \<Longrightarrow>
   publish env y jid delay w = (Inr (), w\<lparr>sent := sent w @ [Published (uuid_str jid) (route_of delay)]\<rparr>)"
  by (simp add: publish_def Let_def)

lemma insert_created_row:
  assumes "insert_or_get now new_id req db = Inr ((job, True), db')"
  shows "job = to_job (new_row now new_id req) \<and> new_row now new_id req \<in> set (jobs db')"
  using assms
  by (auto simp: insert_or_get_def Let_def result_simps split: if_splits option.splits
      dest!: record_event_jobs)

text \<open>A publish that fails leaves a job the sweep can find: after such an \<open>enqueue\<close> the row is there,
  queued and marked as not published, and the sweep's query lists it as soon as the job has been due
  for longer than \<open>orphan_after\<close>.\<close>

theorem failed_publish_is_findable:
  assumes "rmq_enqueue env new_id req w = (Inl PublishFailed, w')"
  shows "\<exists>r \<in> set (jobs (w_db w')). job_id r = new_id \<and> state r = QUEUED \<and> published_at r = None \<and>
           (\<forall>now wait. run_after r + wait < now \<longrightarrow> new_id \<in> set (unpublished now wait (w_db w')))"
proof -
  let ?now = "clock env CInsert" and ?ins = "\<lambda>now. insert_or_get now new_id req"
  obtain res w1 where i: "store_call env CInsert ?ins w = (res, w1)" by fastforce
  have no: "res \<noteq> Inl PublishFailed"
    using i by (auto simp: store_call_def call_txn_def Let_def split: link.splits sum.splits)
  obtain job created where r: "res = Inr (job, created)"
    using assms i no by (cases res) (auto simp: rmq_enqueue_def thenA_def)
  have cr: created
  proof (rule ccontr)
    assume "\<not> created"
    with assms i r show False by (simp add: rmq_enqueue_def thenA_def returnA_def)
  qed
  obtain db where db: "insert_or_get ?now new_id req (run (others env CInsert) (w_db w)) =
      Inr ((job, True), w_db w1)"
    using i r cr by (auto simp: store_call_def call_txn_def Let_def split: link.splits sum.splits)
  let ?row = "new_row ?now new_id req"
  note row = insert_created_row [OF db]
  obtain pr w2 where p: "publish env Fresh (job_id job) (Some (req_delay req)) w1 = (pr, w2)" by fastforce
  have "w_db w' = w_db w1"
  proof (cases pr)
    case (Inl e)
    with assms i r cr p publish_frame [OF p] show ?thesis by (simp add: rmq_enqueue_def thenA_def)
  next
    case (Inr u)
    obtain mr w3 where m: "mark env Fresh (job_id job) w2 = (mr, w3)" by fastforce
    have "mr \<noteq> Inl PublishFailed"
      using m by (auto simp: mark_def store_call_def call_txn_def Let_def split: link.splits sum.splits)
    with assms i r cr p m Inr show ?thesis
      by (cases mr) (simp_all add: rmq_enqueue_def thenA_def returnA_def)
  qed
  moreover have "?row \<in> set (jobs (w_db w1))" using row by simp
  moreover have "job_id ?row = new_id" "state ?row = QUEUED" "published_at ?row = None"
    by (simp_all add: new_row_def)
  ultimately show ?thesis by (intro bexI [of _ ?row]) (auto simp: unpublished_def image_iff)
qed

theorem failed_publish_is_findable_witness:
  "1 \<in> set (unpublished 13 2 (w_db (snd (rmq_enqueue
      (demo_env\<lparr>link_of := (\<lambda>_. Works)(CPublish Fresh 1 := Fails)\<rparr>) 1 demo_request
      (idle_world (run [EnsureSession 1 7] empty_db))))))"
proof -
  let ?e = "demo_env\<lparr>link_of := (\<lambda>_. Works)(CPublish Fresh 1 := Fails)\<rparr>"
  let ?w = "idle_world (run [EnsureSession 1 7] empty_db)"
  have res: "rmq_enqueue ?e 1 demo_request ?w =
      (Inl PublishFailed, ?w\<lparr>w_db := run [Enqueue 10 1 demo_request] (w_db ?w)\<rparr>)"
    by (simp add: rmq_enqueue_def thenA_def store_call_def call_txn_def demo_env_def idle_world_def)
       (simp add: demo_eval publish_def thenA_def)
  from failed_publish_is_findable [OF res] obtain r where
    r: "r \<in> set (jobs (run [Enqueue 10 1 demo_request] (w_db ?w)))" "run_after r + 2 < 13 \<longrightarrow>
      1 \<in> set (unpublished 13 2 (run [Enqueue 10 1 demo_request] (w_db ?w)))" by auto
  moreover have "run_after r = 10" using r(1) by (simp add: idle_world_def) (simp add: demo_eval)
  ultimately show ?thesis using res by simp
qed

text \<open>An environment in which every call answers and nobody else writes.\<close>

definition undisturbed :: "env \<Rightarrow> bool" where
  "undisturbed env \<longleftrightarrow> (\<forall>c. link_of env c = Works) \<and> (\<forall>c. others env c = [])"

lemma undisturbed_call:
  "undisturbed env \<Longrightarrow> t (clock env c) (w_db w) = Inr (x, db') \<Longrightarrow>
   store_call env c t w = (Inr x, w\<lparr>w_db := db'\<rparr>)"
  using store_call_works [of env c t w x db'] by (simp add: undisturbed_def)

lemma undisturbed_read:
  "undisturbed env \<Longrightarrow> store_call env c (reading q) w = (Inr (q (clock env c) (w_db w)), w)"
  using undisturbed_call [of env "reading q" c w] by (simp add: reading_def)

lemma undisturbed_publish:
  "undisturbed env \<Longrightarrow>
   publish env y jid delay w = (Inr (), w\<lparr>sent := sent w @ [Published (uuid_str jid) (route_of delay)]\<rparr>)"
  by (rule publish_works) (simp add: undisturbed_def)

lemma undisturbed_reoffers:
  assumes env: "undisturbed env"
  shows "\<exists>w'. forA (reoffer env) ids w = (Inr (), w') \<and> w_db w' = w_db w \<and>
           set (on_the_wire w) \<subseteq> set (on_the_wire w') \<and>
           (\<forall>jid \<in> set ids. \<not> too_soon env w jid \<longrightarrow> (uuid_str jid, Work) \<in> set (on_the_wire w'))"
proof (induction ids arbitrary: w)
  case Nil
  show ?case by simp
next
  case (Cons a ids)
  let ?w1 = "release a None w"
  have soon: "too_soon env ?w1 j = too_soon env w j" for j by (simp add: too_soon_def release_frame)
  show ?case
  proof (cases "too_soon env w a")
    case True
    with Cons.IH [of ?w1] soon show ?thesis
      by (fastforce simp: thenA_def reoffer_def Let_def release_frame on_the_wire_release)
  next
    case False
    let ?w2 = "?w1\<lparr>sent := sent ?w1 @ [Published (uuid_str a) (route_of None)],
        republished := (republished ?w1)(a \<mapsto> loop_time env)\<rparr>"
    have head: "reoffer env a w = (Inr (), ?w2)"
      using False soon undisturbed_publish [OF env, of Lapsed a None ?w1]
      by (simp add: reoffer_def Let_def thenA_def updateA_def)
    obtain w' where w': "forA (reoffer env) ids ?w2 = (Inr (), w')" "w_db w' = w_db ?w2"
        "set (on_the_wire ?w2) \<subseteq> set (on_the_wire w')"
        "\<forall>jid \<in> set ids. \<not> too_soon env ?w2 jid \<longrightarrow> (uuid_str jid, Work) \<in> set (on_the_wire w')"
      using Cons.IH [of ?w2] by blast
    have wire: "on_the_wire ?w2 = on_the_wire w @ [(uuid_str a, Work)]"
      using on_the_wire_release [of a None w] by (simp add: on_the_wire_def route_of_def)
    have "(uuid_str jid, Work) \<in> set (on_the_wire w')"
      if "jid \<in> set (a # ids)" "\<not> too_soon env w jid" for jid
    proof (cases "jid = a")
      case True
      with wire w'(3) show ?thesis by auto
    next
      case False
      then have "too_soon env ?w2 jid = too_soon env w jid"
        using soon [of jid] by (simp add: too_soon_def)
      with False that w'(4) show ?thesis by simp
    qed
    with head w' wire show ?thesis by (auto simp: thenA_def release_frame)
  qed
qed

definition marked :: "uuid \<Rightarrow> db \<Rightarrow> bool" where
  "marked jid db \<longleftrightarrow> (\<forall>r \<in> set (jobs db). job_id r = jid \<longrightarrow> published_at r \<noteq> None)"

lemma marked_mark:
  assumes "jid = k \<or> marked jid db"
  shows "marked jid (db\<lparr>jobs := update_where (\<lambda>r. job_id r = k) (published_row now) (jobs db)\<rparr>)"
  using assms by (auto simp: marked_def published_row_def elim!: in_update_whereE)

lemma undisturbed_orphans:
  assumes env: "undisturbed env"
  shows "\<exists>w'. forA (republish env) ids w = (Inr (), w') \<and>
           set (on_the_wire w) \<subseteq> set (on_the_wire w') \<and>
           (\<forall>jid \<in> set ids. (uuid_str jid, Work) \<in> set (on_the_wire w')) \<and>
           (\<forall>jid. jid \<in> set ids \<or> marked jid (w_db w) \<longrightarrow> marked jid (w_db w')) \<and>
           (db_ok (w_db w) \<longrightarrow> db_ok (w_db w')) \<and>
           (\<forall>r \<in> set (jobs (w_db w)). job_id r \<notin> set ids \<longrightarrow> r \<in> set (jobs (w_db w')))"
proof (induction ids arbitrary: w)
  case Nil
  show ?case by simp
next
  case (Cons a ids)
  let ?db2 = "(w_db w)\<lparr>jobs := update_where (\<lambda>r. job_id r = a)
      (published_row (clock env (CMark Orphan a))) (jobs (w_db w))\<rparr>"
  let ?w2 = "w\<lparr>sent := sent w @ [Published (uuid_str a) (route_of None)], w_db := ?db2\<rparr>"
  have head: "republish env a w = (Inr (), ?w2)"
    using undisturbed_call [OF env, of "\<lambda>now. mark_published now a" "CMark Orphan a"]
    by (simp add: republish_def thenA_def undisturbed_publish [OF env] mark_def mark_published_def)
  obtain w' where w': "forA (republish env) ids ?w2 = (Inr (), w')"
      "set (on_the_wire ?w2) \<subseteq> set (on_the_wire w')"
      "\<forall>jid \<in> set ids. (uuid_str jid, Work) \<in> set (on_the_wire w')"
      "\<forall>jid. jid \<in> set ids \<or> marked jid (w_db ?w2) \<longrightarrow> marked jid (w_db w')"
      "db_ok (w_db ?w2) \<longrightarrow> db_ok (w_db w')"
      "\<forall>r \<in> set (jobs (w_db ?w2)). job_id r \<notin> set ids \<longrightarrow> r \<in> set (jobs (w_db w'))"
    using Cons.IH [of ?w2] by blast
  have wire: "on_the_wire ?w2 = on_the_wire w @ [(uuid_str a, Work)]"
    by (simp add: on_the_wire_def route_of_def)
  have "marked jid (w_db w')" if "jid \<in> set (a # ids) \<or> marked jid (w_db w)" for jid
    using that w'(4) marked_mark [of jid a "w_db w"] by auto
  moreover have "forA (republish env) (a # ids) w = (Inr (), w')"
    using head w'(1) by (simp add: thenA_def)
  moreover have "(uuid_str jid, Work) \<in> set (on_the_wire w')" if "jid \<in> set (a # ids)" for jid
    using that w'(2,3) wire by auto
  moreover have "set (on_the_wire w) \<subseteq> set (on_the_wire w')" using w'(2) wire by auto
  moreover have "db_ok (w_db w')" if "db_ok (w_db w)"
    using mark_published_ok [OF that] w'(5) by simp
  moreover have "r \<in> set (jobs (w_db w'))" if "r \<in> set (jobs (w_db w))" "job_id r \<notin> set (a # ids)" for r
    using that w'(6) by (simp add: set_update_where)
  ultimately show ?case by blast
qed

lemma fold_release_wire: "on_the_wire (fold (\<lambda>j. release j None) ids w) = on_the_wire w"
  by (induction ids arbitrary: w) (simp_all add: on_the_wire_release)

lemma fold_release_soon: "too_soon env (fold (\<lambda>j. release j None) ids w) j = too_soon env w j"
  by (induction ids arbitrary: w) (simp_all add: too_soon_def release_frame)

lemma lists_after_retire:
  "map job_id (filter (lapsed t) (update_where (lapsed_for_good now) (retired_row now) rs)) =
   map job_id (filter (lapsed t) rs)"
  "map job_id (filter (\<lambda>r. published_at r = None \<and> (state r = QUEUED \<or> state r = FAILED) \<and> run_after r < u)
     (update_where (lapsed_for_good now) (retired_row now) rs)) =
   map job_id (filter (\<lambda>r. published_at r = None \<and> (state r = QUEUED \<or> state r = FAILED) \<and> run_after r < u) rs)"
  by (induction rs) (auto simp: lapsed_def lapsed_for_good_def retired_row_def released_def)

text \<open>An undisturbed sweep, before it prunes: what was listed when it began has been seen to.\<close>

lemma swept:
  assumes env: "undisturbed env" and dok: "db_ok (w_db w)"
  obtains w4 where "rmq_sweep env w = (Inr (), prune env w4)"
    and "\<forall>jid \<in> set (unpublished (clock env CUnpublished) (orphan_after env) (w_db w)).
      (uuid_str jid, Work) \<in> set (on_the_wire w4) \<and> marked jid (w_db w4)"
    and "\<forall>jid \<in> set (lapsed_reservable (clock env CLapsed) (w_db w)).
      \<not> too_soon env w jid \<longrightarrow> (uuid_str jid, Work) \<in> set (on_the_wire w4)"
    and "db_ok (w_db w4)"
    and "\<forall>r \<in> set (jobs (w_db w)). state r = RUNNING \<and> \<not> lapsed_for_good (clock env CRetire) r \<longrightarrow>
      r \<in> set (jobs (w_db w4))"
proof -
  let ?now = "clock env CRetire" and ?db = "w_db w"
  obtain db1 where d: "retire_lapsed ?now ?db = Inr (map job_id (filter (lapsed_for_good ?now) (jobs ?db)), db1)"
      "jobs db1 = update_where (lapsed_for_good ?now) (retired_row ?now) (jobs ?db)" "db_ok db1"
    using retire_lapsed_ok [OF dok, of ?now] by blast
  let ?w2 = "fold (\<lambda>j. release j None) (map job_id (filter (lapsed_for_good ?now) (jobs ?db))) (w\<lparr>w_db := db1\<rparr>)"
  let ?lapsed = "lapsed_reservable (clock env CLapsed) db1"
  let ?orphans = "unpublished (clock env CUnpublished) (orphan_after env) db1"
  obtain w3 where w3: "forA (reoffer env) ?lapsed ?w2 = (Inr (), w3)" "w_db w3 = db1"
      "\<forall>jid \<in> set ?lapsed. \<not> too_soon env ?w2 jid \<longrightarrow> (uuid_str jid, Work) \<in> set (on_the_wire w3)"
    using undisturbed_reoffers [OF env, of ?lapsed ?w2] by (auto simp: fold_release_db)
  obtain w4 where w4: "forA (republish env) ?orphans w3 = (Inr (), w4)"
      "set (on_the_wire w3) \<subseteq> set (on_the_wire w4)"
      "\<forall>jid \<in> set ?orphans. (uuid_str jid, Work) \<in> set (on_the_wire w4)"
      "\<forall>jid. jid \<in> set ?orphans \<or> marked jid (w_db w3) \<longrightarrow> marked jid (w_db w4)"
      "db_ok (w_db w4)" "\<forall>r \<in> set (jobs (w_db w3)). job_id r \<notin> set ?orphans \<longrightarrow> r \<in> set (jobs (w_db w4))"
    using undisturbed_orphans [OF env, of ?orphans w3] w3(2) d(3) by auto
  have kept: "r \<in> set (jobs (w_db w4))"
    if "r \<in> set (jobs ?db)" "state r = RUNNING" "\<not> lapsed_for_good ?now r" for r
  proof -
    have "r \<in> set (jobs db1)" using that by (simp add: d(2) set_update_where)
    moreover from same_job [OF d(3) [unfolded db_ok_def] _ this] have "job_id r \<notin> set ?orphans"
      using that(2) by (auto simp: unpublished_def)
    ultimately show ?thesis using w4(6) w3(2) by simp
  qed
  have lists: "?lapsed = lapsed_reservable (clock env CLapsed) ?db"
    "?orphans = unpublished (clock env CUnpublished) (orphan_after env) ?db"
    using lists_after_retire by (simp_all add: lapsed_reservable_def unpublished_def d(2))
  have soon: "too_soon env ?w2 jid = too_soon env w jid" for jid
    by (simp add: fold_release_soon) (simp add: too_soon_def)
  show ?thesis
  proof (rule that)
    show "rmq_sweep env w = (Inr (), prune env w4)"
      using undisturbed_call [where t = retire_lapsed and c = CRetire, OF env d(1)] w3(1,2) w4(1)
      by (simp add: undisturbed_read [OF env] rmq_sweep_def thenA_def updateA_def fold_release_db)
  qed (use w3(3) w4(2-5) soon kept in \<open>auto simp: lists\<close>)
qed

text \<open>C16: The sweep repairs what the dual write and a dead consumer leave behind: run when the store and
  the broker answer, it raises nothing, it puts every job that has waited unpublished for longer
  than \<open>orphan_after\<close> on the work queue and marks it, and it offers again every job whose lease
  lapsed with attempts left, unless it did so within the quiet period.\<close>

theorem sweep_repairs:
  assumes "undisturbed env" "sys_ok (w_db w)" "rmq_sweep env w = (r, w')"
  shows "r = Inr () \<and>
    (\<forall>jid \<in> set (unpublished (clock env CUnpublished) (orphan_after env) (w_db w)).
       (uuid_str jid, Work) \<in> set (on_the_wire w') \<and> marked jid (w_db w')) \<and>
    (\<forall>jid \<in> set (lapsed_reservable (clock env CLapsed) (w_db w)).
       \<not> too_soon env w jid \<longrightarrow> (uuid_str jid, Work) \<in> set (on_the_wire w'))"
proof -
  have "db_ok (w_db w)" using assms(2) by (simp add: sys_ok_def)
  then obtain w4 where w4: "rmq_sweep env w = (Inr (), prune env w4)"
      "\<forall>jid \<in> set (unpublished (clock env CUnpublished) (orphan_after env) (w_db w)).
         (uuid_str jid, Work) \<in> set (on_the_wire w4) \<and> marked jid (w_db w4)"
      "\<forall>jid \<in> set (lapsed_reservable (clock env CLapsed) (w_db w)).
         \<not> too_soon env w jid \<longrightarrow> (uuid_str jid, Work) \<in> set (on_the_wire w4)"
    using swept [OF assms(1), of w] by metis
  have "on_the_wire (prune env w4) = on_the_wire w4" "w_db (prune env w4) = w_db w4"
    by (simp_all add: prune_def on_the_wire_def)
  with w4 assms(3) show ?thesis by auto
qed

theorem sweep_repairs_witness:
  "(uuid_str 1, Work) \<in> set (on_the_wire (snd (rmq_sweep demo_env (idle_world demo_queued))))"
proof -
  have env: "undisturbed demo_env" by (simp add: undisturbed_def demo_env_def)
  have ok: "sys_ok (w_db (idle_world demo_queued))" by (simp add: idle_world_def demo_queued_ok)
  obtain r w' where r: "rmq_sweep demo_env (idle_world demo_queued) = (r, w')" by fastforce
  have "1 \<in> set (unpublished (clock demo_env CUnpublished) (orphan_after demo_env)
      (w_db (idle_world demo_queued)))"
    by (simp add: idle_world_def unpublished_def demo_queued_jobs demo_env_def)
       (simp add: new_row_def demo_request_def request_def)
  with sweep_repairs [OF env ok r] r show ?thesis by simp
qed

text \<open>A \<open>nack\<close> offers again exactly the jobs it left failed: when the store accepts it, the job goes
  back on the wire (through the parking queue when there is a backoff) if and only if its new state
  is \<open>failed\<close>, that is attempts remain and nobody cancelled it; when the lease is stale nothing is
  published and the error is raised.\<close>

theorem nack_reoffers_failures:
  assumes "undisturbed env" "sys_ok (w_db w)" "rmq_nack env l err retry_in w = (res, w')"
  shows "(if store_holds l (w_db w)
          then \<exists>j. get (lease_job l) (w_db w) = Some j \<and> res = Inr () \<and>
                 on_the_wire w' = on_the_wire w @
                   (if \<not> cancel_requested j \<and> attempts j < max_attempts j
                    then [(uuid_str (lease_job l), route_of retry_in)] else [])
          else res = Inl (StoreError (stale_lease l)) \<and> on_the_wire w' = on_the_wire w)"
proof -
  note env = assms(1)
  let ?now = "clock env CNack" and ?rel = "release (lease_job l) (Some (l_id l))"
  have dok: "db_ok (w_db w)" using assms(2) by (simp add: sys_ok_def)
  show ?thesis
  proof (cases "store_holds l (w_db w)")
    case True
    then obtain r where r: "r \<in> set (jobs (w_db w))" "fencing l r"
      by (auto simp: store_holds_def list_ex_iff)
    have id: "job_id r = lease_job l" using r(2) by (simp add: fencing_def)
    let ?j = "to_job (nacked_row ?now err retry_in r)"
    obtain db' where n: "nack ?now l err retry_in (w_db w) = Inr (?j, db')"
      using nack_live [OF dok r, of ?now err retry_in] by blast
    let ?w1 = "?rel (w\<lparr>w_db := db'\<rparr>)"
    have j: "state ?j = nack_state r" "job_id ?j = lease_job l"
      by (simp_all add: nacked_row_def released_def id)
    have head: "finallyA (store_call env CNack (\<lambda>now. nack now l err retry_in)) ?rel w = (Inr ?j, ?w1)"
      using undisturbed_call [OF env, of "\<lambda>now. nack now l err retry_in" CNack] n by (simp add: finallyA_def)
    have wire: "on_the_wire ?w1 = on_the_wire w"
      using on_the_wire_release on_the_wire_frame [of "w\<lparr>w_db := db'\<rparr>" w] by simp
    have got: "get (lease_job l) (w_db w) = Some (to_job r)" using get_known [OF dok r(1)] id by simp
    show ?thesis
    proof (cases "nack_state r = FAILED")
      case failed: True
      let ?w2 = "?w1\<lparr>sent := sent ?w1 @ [Published (uuid_str (lease_job l)) (route_of retry_in)]\<rparr>"
      have "\<exists>w3. mark env Retry (lease_job l) ?w2 = (Inr (), w3) \<and> sent w3 = sent ?w2"
        using undisturbed_call [OF env, of "\<lambda>now. mark_published now (lease_job l)" "CMark Retry (lease_job l)" ?w2]
        by (simp add: mark_def mark_published_def)
      then obtain w3 where w3: "mark env Retry (lease_job l) ?w2 = (Inr (), w3)" "sent w3 = sent ?w2" by blast
      have "rmq_nack env l err retry_in w = (Inr (), w3)"
        using head failed j w3(1) undisturbed_publish [OF env] by (simp add: rmq_nack_def thenA_def)
      moreover have "on_the_wire w3 = on_the_wire w @ [(uuid_str (lease_job l), route_of retry_in)]"
        using on_the_wire_frame [OF w3(2)] wire by (simp add: on_the_wire_def)
      ultimately show ?thesis using assms(3) True got failed
        by (auto simp: nack_state_def split: if_splits)
    next
      case False
      then have "rmq_nack env l err retry_in w = (Inr (), ?w1)"
        using head j by (simp add: rmq_nack_def thenA_def returnA_def)
      with assms(3) True got False wire show ?thesis by (auto simp: nack_state_def split: if_splits)
    qed
  next
    case False
    then have "nack ?now l err retry_in (w_db w) = Inl (stale_lease l)"
      by (intro nack_stale) (simp add: store_holds_def list_ex_iff)
    then have "store_call env CNack (\<lambda>now. nack now l err retry_in) w = (Inl (StoreError (stale_lease l)), w)"
      using env by (simp add: store_call_def call_txn_def undisturbed_def)
    with False assms(3) show ?thesis
      by (auto simp: rmq_nack_def thenA_def finallyA_def on_the_wire_release)
  qed
qed

theorem nack_reoffers_failures_witness:
  "on_the_wire (snd (rmq_nack demo_env demo_lease ''boom'' (Some 30) demo_holding)) =
     [(uuid_str 1, Parked 30)]"
proof -
  have env: "undisturbed demo_env" by (simp add: undisturbed_def demo_env_def)
  have db: "w_db demo_holding = demo_running" by (simp add: demo_holding_def idle_world_def)
  have ok: "sys_ok (w_db demo_holding)" by (simp add: db demo_running_ok)
  obtain res w' where r: "rmq_nack demo_env demo_lease ''boom'' (Some 30) demo_holding = (res, w')" by fastforce
  have job: "get 1 demo_running = Some (to_job (claimed_row 10 100 ''w1'' 60 (new_row 5 1 demo_request)))"
    by (simp add: get_def demo_running_jobs) (simp add: claimed_row_def new_row_def)
  have "on_the_wire demo_holding = []" by (simp add: demo_holding_def idle_world_def on_the_wire_def)
  with nack_reoffers_failures [OF env ok r] r demo_running_held job show ?thesis
    by (simp add: db demo_lease_job route_of_def)
       (simp add: claimed_row_def new_row_def demo_request_def request_def)
qed

subsection \<open>A repair that is defeated\<close>

definition race_env :: env where
  "race_env = demo_env\<lparr>others :=
     (\<lambda>_. [])(CMark Fresh 1 := [Claim 10 100 1 ''w1'' 60, Nack 20 demo_lease ''boom'' None])\<rparr>"

text \<open>The outbox has a hole: \<open>mark_published\<close> is unconditional, so when the message of a new job is
  consumed and given back, and the consumer dies before it publishes the retry, all before the
  producer's own \<open>mark_published\<close>, the job ends up failed, with attempts left, marked as published
  and with no message for it: no sweep at any time lists it.\<close>

theorem late_mark_hides_a_job:
  "\<exists>w' r. rmq_enqueue race_env 1 demo_request (idle_world (run [EnsureSession 1 7] empty_db)) =
       (Inr (to_job (new_row 10 1 demo_request)), w') \<and>
     jobs (w_db w') = [r] \<and> state r = FAILED \<and> attempts r < max_attempts r \<and> \<not> cancel_requested r \<and>
     (\<forall>now wait. unpublished now wait (w_db w') = [] \<and> lapsed_reservable now (w_db w') = [] \<and>
        filter (lapsed_for_good now) (jobs (w_db w')) = [])"
proof -
  define db0 where "db0 = run [EnsureSession 1 7] empty_db"
  define db1 where "db1 = run [Enqueue 10 1 demo_request] db0"
  define db2 where "db2 = run [Claim 10 100 1 ''w1'' 60, Nack 20 demo_lease ''boom'' None] db1"
  let ?n = "nacked_row 20 ''boom'' None (claimed_row 10 100 ''w1'' 60 (new_row 10 1 demo_request))"
  let ?r = "published_row 10 ?n" and ?w = "idle_world db0"
  let ?w' = "?w\<lparr>sent := [Published (uuid_str 1) Work], w_db := db2\<lparr>jobs := [?r]\<rparr>\<rparr>"
  note dbs = db0_def db1_def db2_def
  have ins: "insert_or_get 10 1 demo_request db0 = Inr ((to_job (new_row 10 1 demo_request), True), db1)"
    by (simp add: dbs) (simp add: demo_eval)
  have nacked: "jobs db2 = [?n]"
    by (simp add: dbs) (simp add: demo_eval nack_def nacked_row_def released_def nack_state_def)
  have sel: "job_id (new_row 10 1 demo_request) = 1" "req_delay demo_request = 0"
    by (simp_all add: new_row_def demo_request_def request_def)
  have marked: "mark_published 10 1 db2 = Inr ((), db2\<lparr>jobs := [?r]\<rparr>)"
    by (simp add: mark_published_def nacked writes_keep_identity sel)
  have "store_call race_env CInsert (\<lambda>now. insert_or_get now 1 demo_request) ?w =
      (Inr (to_job (new_row 10 1 demo_request), True), ?w\<lparr>w_db := db1\<rparr>)"
    by (rule store_call_works) (simp_all add: race_env_def demo_env_def idle_world_def ins)
  moreover have "publish race_env Fresh 1 (Some 0) (?w\<lparr>w_db := db1\<rparr>) =
      (Inr (), ?w\<lparr>w_db := db1, sent := [Published (uuid_str 1) Work]\<rparr>)"
    by (simp add: publish_works race_env_def demo_env_def route_of_def idle_world_def)
  moreover have "mark race_env Fresh 1 (?w\<lparr>w_db := db1, sent := [Published (uuid_str 1) Work]\<rparr>) =
      (Inr (), ?w')"
  proof -
    have "run (others race_env (CMark Fresh 1)) db1 = db2" by (simp add: race_env_def db2_def)
    then have "store_call race_env (CMark Fresh 1) (\<lambda>now. mark_published now 1)
        (?w\<lparr>w_db := db1, sent := [Published (uuid_str 1) Work]\<rparr>) =
        (Inr (), ?w\<lparr>w_db := db1, sent := [Published (uuid_str 1) Work], w_db := db2\<lparr>jobs := [?r]\<rparr>\<rparr>)"
      by (intro store_call_works) (simp_all add: marked, simp_all add: race_env_def demo_env_def marked)
    then show ?thesis by (simp add: mark_def)
  qed
  ultimately have "rmq_enqueue race_env 1 demo_request ?w = (Inr (to_job (new_row 10 1 demo_request)), ?w')"
    by (simp add: rmq_enqueue_def thenA_def returnA_def sel)
  moreover have "state ?r = FAILED" "attempts ?r < max_attempts ?r" "\<not> cancel_requested ?r"
      "published_at ?r \<noteq> None"
    by (simp_all add: published_row_def nacked_row_def released_def nack_state_def claimed_row_def
        new_row_def demo_request_def request_def)
  ultimately show ?thesis
    unfolding db0_def [symmetric]
    by (intro exI [of _ ?w'] exI [of _ ?r])
       (simp add: unpublished_def lapsed_reservable_def lapsed_def lapsed_for_good_def)
qed

end
