(* ===== verification/Supervisor_Properties.thy ===== *)
theory Supervisor_Properties
  imports Supervisor Rabbit_Properties
begin

text \<open>
  What a worker promises: the watch ends within a known number of heartbeats, every ending hands the
  delivery back unless the child could not be started or read, an artifact is written before a row points at it, a worker whose lease was taken
  writes nothing, a cancelled job ends cancelled whatever its child reported. And what it does not:
  a report torn by the kill leaves the lease held, and the third heartbeat of the deployed timing
  comes at the deadline.
\<close>

subsection \<open>The frame of a beat\<close>

lemma on_queue_sel:
  assumes "on_queue m s = (r, s1)"
  shows "artifacts s1 = artifacts s" "sup_world s1 = snd (m (sup_world s))"
  using assms by (auto simp: on_queue_def split: prod.splits sum.splits)

lemma on_queue_Inr:
  "on_queue m s = (Inr x, s1) \<longleftrightarrow> (\<exists>w. m (sup_world s) = (Inr x, w) \<and> s1 = s\<lparr>sup_world := w\<rparr>)"
  by (auto simp: on_queue_def split: prod.splits sum.splits)

lemma sup_extend_sel:
  assumes "sup_extend cfg env l s = (r, s1)"
  shows "artifacts s1 = artifacts s" "sup_world s1 = snd (rmq_extend env l (lease_for cfg) (sup_world s))"
proof -
  obtain q s2 where q: "on_queue (rmq_extend env l (lease_for cfg)) s = (q, s2)" by fastforce
  with assms have "s1 = s2"
    by (auto simp: sup_extend_def split: sum.splits sup_error.splits queue_error.splits db_error.splits)
  with on_queue_sel [OF q] show "artifacts s1 = artifacts s"
    "sup_world s1 = snd (rmq_extend env l (lease_for cfg) (sup_world s))" by simp_all
qed

lemma extend_keeps_lease:
  assumes "Job_Store.extend now l d db = Inr (l', db')"
  shows "l_id l' = l_id l \<and> lease_job l' = lease_job l"
proof -
  obtain row rows where rows: "returning (fencing l) (extended_row now d) (jobs db) = row # rows"
    using assms by (cases "returning (fencing l) (extended_row now d) (jobs db)") (simp_all add: Job_Store.extend_def)
  then have "job_id row = lease_job l"
    by (auto elim!: returning_ConsD simp: fencing_def writes_keep_identity)
  with assms rows show ?thesis by (auto simp: Job_Store.extend_def)
qed

lemma sup_extend_lease:
  assumes "sup_extend cfg env l s = (Renewed l', s1)"
  shows "l_id l' = l_id l \<and> lease_job l' = lease_job l"
proof -
  have "on_queue (rmq_extend env l (lease_for cfg)) s = (Inr l', s1)"
    using assms by (auto simp: sup_extend_def split: prod.splits sum.splits sup_error.splits
        queue_error.splits db_error.splits)
  then have "\<exists>db db'. Job_Store.extend (clock env CExtend) l (lease_for cfg) db = Inr (l', db')"
    by (auto simp: on_queue_Inr rmq_extend_def store_call_def call_txn_def Let_def
        split: link.splits sum.splits option.splits prod.splits)
  then show ?thesis using extend_keeps_lease by blast
qed

text \<open>
  A watch is a chain of heartbeats: what every heartbeat of the lease does, and what holds of nothing
  done and of one thing done after another, the watch does. It ends with the lease it began with,
  renewed or not, and raises only what the collector raised.
\<close>

lemma kill_sel:
  assumes "kill k w e s = (r, s')"
  shows "s' = s" "r = Inr h \<Longrightarrow> h_lease h = k" "r = Inl q \<Longrightarrow> \<exists>err. q = CollectorError err"
  using assms by (auto simp: kill_def split: sum.splits)

definition watched :: "lease \<Rightarrow> sup_error + handled \<Rightarrow> bool" where
  "watched l r \<longleftrightarrow> (\<forall>h. r = Inr h \<longrightarrow> l_id (h_lease h) = l_id l \<and> lease_job (h_lease h) = lease_job l) \<and>
     (\<forall>q. r = Inl q \<longrightarrow> (\<exists>err. q = CollectorError err))"

lemma watched_kill: "kill k w e s = (r, s') \<Longrightarrow> l_id k = l_id l \<Longrightarrow> lease_job k = lease_job l \<Longrightarrow> watched l r"
  by (auto simp: watched_def dest: kill_sel)

lemma supervise_chain:
  assumes "supervise cfg cap l ws s = Some (r, s1)" "\<And>s. R s s" "\<And>a b c. R a b \<Longrightarrow> R b c \<Longrightarrow> R a c"
    and "\<And>w l' s x s2. w \<in> set ws \<Longrightarrow> l_id l' = l_id l \<Longrightarrow> lease_job l' = lease_job l \<Longrightarrow>
      sup_extend cfg (beat w) l' s = (x, s2) \<Longrightarrow> R s s2"
  shows "R s s1 \<and> watched l r"
  using assms(1,4)
proof (induction cfg cap l ws s rule: supervise.induct)
  case (2 cfg cap l w ws s)
  obtain x s2 where x: "sup_extend cfg (beat w) l s = (x, s2)" by fastforce
  have first: "R s s2" by (rule 2(4) [OF _ refl refl x]) simp
  have rest: "R s s1 \<and> watched l r"
    if "R s2 s1 \<and> watched l' r" "l_id l' = l_id l" "lease_job l' = lease_job l" for l'
    using that first assms(3) by (auto simp: watched_def)
  have beats: "R s s2" if "w' \<in> set ws" "l_id l'' = l_id l'" "lease_job l'' = lease_job l'"
    "sup_extend cfg (beat w') l'' s = (y, s2)" "l_id l' = l_id l" "lease_job l' = lease_job l" for w' l' l'' s y s2
    using 2(4) [of w' l''] that by simp
  show ?case
  proof (cases "child_report w \<noteq> None \<or> asked_to_stop w \<or> cap \<le> woke_at w")
    case True
    with 2(3) have "s1 = s \<and> watched l r"
      by (auto simp: watched_def split: option.splits if_splits dest: kill_sel)
    with assms(2) show ?thesis by simp
  next
    case False
    then have go: "child_report w = None" "\<not> asked_to_stop w" "\<not> cap \<le> woke_at w" by simp_all
    have beat: "(case x of Taken \<Rightarrow> Some (kill l w STALE s2)
        | Unreachable \<Rightarrow> if \<not> expired l (wall_clock w) then supervise cfg cap l ws s2
            else Some (kill l w UNDEFENDABLE s2)
        | Renewed l' \<Rightarrow> if cancel_requested (l_job l') then Some (kill l' w CANCELLED_WHILE_RUNNING s2)
            else supervise cfg cap l' ws s2) = Some (r, s1)"
      using 2(3) x go by (cases x) simp_all
    have killed: "R s s1 \<and> watched l r" if "kill k w e s2 = (r, s1)" "l_id k = l_id l" "lease_job k = lease_job l" for k e
      using first kill_sel(1) [OF that(1)] watched_kill [OF that] by simp
    show ?thesis
    proof (cases x)
      case (Renewed l')
      note lease = sup_extend_lease [OF x [unfolded Renewed]]
      show ?thesis
      proof (cases "cancel_requested (l_job l')")
        case no: False
        then have v: "supervise cfg cap l' ws s2 = Some (r, s1)" using beat Renewed by simp
        show ?thesis
          by (rule rest [OF 2(1) [OF go x [symmetric] Renewed no v]]) (use lease in \<open>auto intro: beats\<close>)
      qed (use beat Renewed lease killed in simp)
    next
      case Unreachable
      show ?thesis
      proof (cases "expired l (wall_clock w)")
        case no: False
        then have v: "supervise cfg cap l ws s2 = Some (r, s1)" using beat Unreachable by simp
        show ?thesis
          by (rule rest [OF 2(2) [OF go x [symmetric] Unreachable no v] refl refl]) (rule beats; simp)
      qed (use beat Unreachable killed in simp)
    qed (use beat killed in simp)
  qed
qed simp

text \<open>The watch touches neither the deliveries nor the artifacts.\<close>

lemma supervise_frame:
  assumes "supervise cfg cap l ws s = Some (r, s1)"
  shows "artifacts s1 = artifacts s \<and> incoming (sup_world s1) = incoming (sup_world s) \<and>
     held (sup_world s1) = held (sup_world s) \<and> unacked (sup_world s1) = unacked (sup_world s) \<and>
     sent (sup_world s1) = sent (sup_world s) \<and>
     (\<forall>h. r = Inr h \<longrightarrow> l_id (h_lease h) = l_id l \<and> lease_job (h_lease h) = lease_job l)"
proof -
  define R where "R a b \<longleftrightarrow> artifacts b = artifacts a \<and> incoming (sup_world b) = incoming (sup_world a) \<and>
     held (sup_world b) = held (sup_world a) \<and> unacked (sup_world b) = unacked (sup_world a) \<and>
     sent (sup_world b) = sent (sup_world a)" for a b :: supervised
  have "R g g2" if "sup_extend cfg e l' g = (x, g2)" for e l' g x g2
  proof -
    obtain q w2 where q: "rmq_extend e l' (lease_for cfg) (sup_world g) = (q, w2)" by fastforce
    from store_call_frame [OF q [unfolded rmq_extend_def]] sup_extend_sel [OF that] q
    show ?thesis by (simp add: R_def)
  qed
  then have "R s s1 \<and> watched l r"
    by (intro supervise_chain [OF assms]) (auto simp: R_def)
  then show ?thesis by (simp add: R_def watched_def)
qed

subsection \<open>The watch ends\<close>

text \<open>
  What \<open>asyncio.wait\<close> documents of its timeout: a wake-up at which neither task is done comes no
  earlier than the timeout, the shorter of the heartbeat and what is left of the cap.
\<close>

fun paced :: "worker_config \<Rightarrow> time \<Rightarrow> time \<Rightarrow> wakeup list \<Rightarrow> bool" where
  "paced cfg cap t [] = True"
| "paced cfg cap t (w # ws) \<longleftrightarrow>
     (child_report w \<noteq> None \<or> asked_to_stop w \<or> t + min (extend_every cfg) (max (cap - t) 0) \<le> woke_at w) \<and>
     paced cfg cap (woke_at w) ws"

lemma supervise_ends:
  assumes "paced cfg cap t ws" "0 < extend_every cfg" "cap - t \<le> int n * extend_every cfg"
    "n \<le> length ws" "0 < n"
  shows "supervise cfg cap l ws s \<noteq> None"
  using assms
proof (induction ws arbitrary: t n l s)
  case Nil
  then show ?case by simp
next
  case (Cons w ws)
  show ?case
  proof (cases "child_report w \<noteq> None \<or> asked_to_stop w \<or> cap \<le> woke_at w")
    case True
    then show ?thesis by (auto split: option.splits)
  next
    case False
    then have t: "t + min (extend_every cfg) (max (cap - t) 0) \<le> woke_at w" "paced cfg cap (woke_at w) ws"
      "woke_at w < cap"
      using Cons.prems(1) by auto
    then have later: "t + extend_every cfg \<le> woke_at w" by (auto simp: min_def max_def split: if_splits)
    obtain m where n: "n = Suc m" using Cons.prems(5) by (cases n) auto
    have "cap - woke_at w \<le> int m * extend_every cfg"
      using Cons.prems(3) later by (simp add: n algebra_simps)
    moreover from this t(3) have "0 < m" by (cases m) auto
    ultimately have "supervise cfg cap l' ws s' \<noteq> None" for l' s'
      using Cons.IH [OF t(2) Cons.prems(2)] Cons.prems(4) by (simp add: n)
    with False show ?thesis by (auto split: prod.splits renewal.splits)
  qed
qed

text \<open>C31: A job is not watched for ever. However the heartbeats go, with a database that never answers or
  one that always does, the watch has ended by the wake-up number \<open>solve_timeout / extend_every\<close>,
  rounded up: the wall-clock cap stops it where the lease cannot.\<close>

theorem watch_terminates:
  assumes "paced cfg (t0 + solve_timeout cfg) t0 ws" "0 < extend_every cfg" "0 < solve_timeout cfg"
    and "(solve_timeout cfg + extend_every cfg - 1) div extend_every cfg \<le> int (length ws)"
  shows "\<exists>r s'. supervise cfg (t0 + solve_timeout cfg) l ws s = Some (r, s')"
proof -
  let ?k = "(solve_timeout cfg + extend_every cfg - 1) div extend_every cfg"
  have pos: "0 < ?k" using assms(2,3) by (simp add: pos_imp_zdiv_pos_iff)
  have "solve_timeout cfg + extend_every cfg - 1 < (?k + 1) * extend_every cfg"
    using assms(2) by (metis mult.commute mult_less_cancel_left_pos add.commute
        div_mult_mod_eq pos_mod_bound distrib_right mult_1 add_strict_left_mono)
  then have "solve_timeout cfg \<le> int (nat ?k) * extend_every cfg" using pos by (simp add: algebra_simps)
  with supervise_ends [OF assms(1,2), of "nat ?k" l s] pos assms(4) show ?thesis
    by (cases "supervise cfg (t0 + solve_timeout cfg) l ws s") (auto simp: nat_le_iff)
qed

subsection \<open>A worker to look at\<close>

definition silent_env :: env where
  "silent_env = demo_env\<lparr>link_of := \<lambda>_. Fails\<rparr>"

definition quiet_beat :: "time \<Rightarrow> env \<Rightarrow> wakeup" where
  "quiet_beat t e = \<lparr>woke_at = t, child_report = None, asked_to_stop = False, beat = e, wall_clock = 0,
     when_stopped = Inr (Died (-15))\<rparr>"

definition demo_supervised :: supervised where
  "demo_supervised = \<lparr>sup_world = demo_holding, artifacts = (\<lambda>_. None)\<rparr>"

theorem watch_terminates_witness:
  "\<exists>r s'. supervise default_config 600000000 demo_lease
     (map (\<lambda>i. quiet_beat (20000000 * (int i + 1)) silent_env) [0..<30]) demo_supervised = Some (r, s')"
proof -
  have c: "extend_every default_config = 20000000" "solve_timeout default_config = 600000000"
    by (simp_all add: default_config_def)
  have p: "paced default_config 600000000 (20000000 * int k)
      (map (\<lambda>i. quiet_beat (20000000 * (int i + 1)) silent_env) [k..<k + n])" if "k + n \<le> 30" for k n
    using that
  proof (induction n arbitrary: k)
    case (Suc n)
    have "[k..<k + Suc n] = k # [Suc k..<Suc k + n]" by (simp add: upt_conv_Cons)
    with Suc.IH [of "Suc k"] Suc.prems show ?case
      by (simp add: quiet_beat_def c algebra_simps min_def max_def)
  qed simp
  show ?thesis
    using watch_terminates [of default_config 0 "map (\<lambda>i. quiet_beat (20000000 * (int i + 1)) silent_env) [0..<30]"
        demo_lease demo_supervised] p [of 0 30] c by simp
qed

subsection \<open>Handing the job back\<close>

lemma sup_nack_world:
  assumes "sup_nack env l err rt s = (r, s1)"
  shows "sup_world s1 = snd (rmq_nack env l err rt (sup_world s))" "artifacts s1 = artifacts s"
proof -
  obtain q s2 where q: "on_queue (rmq_nack env l err rt) s = (q, s2)" by fastforce
  with assms have "s1 = s2"
    by (auto simp: sup_nack_def split: sum.splits sup_error.splits queue_error.splits db_error.splits)
  with on_queue_sel [OF q] show "sup_world s1 = snd (rmq_nack env l err rt (sup_world s))"
    "artifacts s1 = artifacts s" by simp_all
qed

abbreviation key_of :: "lease \<Rightarrow> string" where
  "key_of l \<equiv> artifact_key (lease_job l) (l_id l)"

text \<open>What ends a shift is one of the queue's three ways to end a lease.\<close>

lemma install_cases:
  assumes "sup_install cfg env ans l b t s = (r, s1)"
  obtains (failed) e rt where "artifacts s1 = artifacts s \<or> artifacts s1 = (artifacts s)(key_of l \<mapsto> (b, t))"
      "sup_world s1 = snd (rmq_nack env l e rt (sup_world s))"
  | (stored) "artifacts s1 = (artifacts s)(key_of l \<mapsto> (b, t))"
      "sup_world s1 = snd (rmq_ack env l (Some (key_of l)) (sup_world s))"
proof -
  obtain p objs where p: "s3_put ans (key_of l) b t (artifacts s) = (p, objs)" by fastforce
  show thesis
  proof (cases p)
    case (Inl e)
    then have "sup_nack env l (''writing the artifact failed: '' @ e) (Some (retry_backoff cfg)) (s\<lparr>artifacts := objs\<rparr>) = (r, s1)"
      using assms p by (simp add: sup_install_def Let_def)
    from sup_nack_world [OF this] failed p show thesis
      by (auto simp: s3_put_def split: put_answer.splits)
  next
    case (Inr u)
    obtain q s2 where q: "on_queue (rmq_ack env l (Some (key_of l))) (s\<lparr>artifacts := objs\<rparr>) = (q, s2)" by fastforce
    with assms p Inr have "s1 = s2"
      by (auto simp: sup_install_def Let_def split: sum.splits sup_error.splits queue_error.splits db_error.splits)
    with on_queue_sel [OF q] stored p Inr show thesis
      by (auto simp: s3_put_def split: put_answer.splits)
  qed
qed

lemma finish_cases:
  assumes "sup_finish cfg env ans h s = (r, s1)"
  obtains (discarded) "s1 = s\<lparr>sup_world := rmq_discard (h_lease h) (sup_world s)\<rparr>"
  | (nacked) e rt r' where "sup_nack env (h_lease h) e rt s = (r', s1)"
  | (installed) b t where "h_ending h = COMPLETED" "h_outcome h = Solved b t"
      "sup_install cfg env ans (h_lease h) b t s = (r, s1)"
proof -
  have released: "\<exists>r'. sup_nack env l e None s = (r', s1)" if "sup_release env l e s = (r, s1)" for l e
    using that by (cases "sup_nack env l e None s") (simp add: sup_release_def)
  note fin = assms [unfolded sup_finish_def Let_def]
  show thesis
    using fin discarded nacked installed released
    by (cases "h_ending h"; cases "h_outcome h") (simp_all add: sup_report_def, (blast dest: released)+)
qed

lemma finish_world:
  assumes "sup_finish cfg env ans h s = (r, s1)"
  shows "sup_world s1 = rmq_discard (h_lease h) (sup_world s) \<or>
     (\<exists>err rt. sup_world s1 = snd (rmq_nack env (h_lease h) err rt (sup_world s))) \<or>
     (sup_world s1 = snd (rmq_ack env (h_lease h) (Some (key_of (h_lease h))) (sup_world s)) \<and>
      artifacts s1 (key_of (h_lease h)) \<noteq> None)"
proof (rule finish_cases [OF assms])
  fix b t
  assume "sup_install cfg env ans (h_lease h) b t s = (r, s1)"
  then show ?thesis by (rule install_cases) auto
next
  fix e rt r'
  assume "sup_nack env (h_lease h) e rt s = (r', s1)"
  from sup_nack_world [OF this] show ?thesis by blast
qed simp

text \<open>Objects are only ever added, and only under the attempt's own key.\<close>

lemma finish_artifacts:
  assumes "sup_finish cfg env ans h s = (r, s1)"
  shows "artifacts s1 = artifacts s \<or>
    (h_ending h = COMPLETED \<and> (\<exists>b t. h_outcome h = Solved b t \<and> artifacts s1 = (artifacts s)(key_of (h_lease h) \<mapsto> (b, t))))"
proof (rule finish_cases [OF assms])
  fix b t
  assume "h_ending h = COMPLETED" "h_outcome h = Solved b t"
    and i: "sup_install cfg env ans (h_lease h) b t s = (r, s1)"
  with i show ?thesis by (auto elim: install_cases)
next
  fix e rt r'
  assume "sup_nack env (h_lease h) e rt s = (r', s1)"
  from sup_nack_world [OF this] show ?thesis by simp
qed simp

lemma finish_frees:
  assumes "slots_ok (sup_world s)" "held (sup_world s) (lease_job (h_lease h)) = Some (l_id (h_lease h), m)"
    and "sup_finish cfg env ans h s = (r, s1)"
  shows "freed (h_lease h) m (sup_world s1)"
  using finish_world [OF assms(3)] freed_endings [OF assms(1,2)] by auto

lemma release_held: "j \<noteq> jid \<Longrightarrow> held (release jid token w) j = held w j"
  by (rule release_cases [of jid token w]) simp_all

lemma endings_held:
  assumes "j \<noteq> lease_job l"
  shows "held (rmq_discard l w) j = held w j" "held (snd (rmq_ack env l ref w)) j = held w j"
    "held (snd (rmq_nack env l err rt w)) j = held w j"
proof -
  have call: "held (snd (finallyA (store_call env c t) (release (lease_job l) (Some (l_id l))) w)) j = held w j"
    for c and t :: "time \<Rightarrow> 'b txn"
    using store_call_frame [of env c t w] release_held [OF assms]
    by (cases "store_call env c t w") (simp add: finallyA_def)
  show "held (rmq_discard l w) j = held w j" by (simp add: rmq_discard_def release_held [OF assms])
  show "held (snd (rmq_ack env l ref w)) j = held w j" unfolding rmq_ack_def by (rule call)
  let ?a = "finallyA (store_call env CNack (\<lambda>now. nack now l err rt)) (release (lease_job l) (Some (l_id l)))"
  obtain r w1 where a: "?a w = (r, w1)" by fastforce
  have h: "held w1 j = held w j" using call [of CNack "\<lambda>now. nack now l err rt"] a by simp
  have again: "held (snd (thenA (publish env y i d) (\<lambda>_. mark env y i) w1)) j = held w1 j" for y i d
  proof -
    obtain p w2 where p: "publish env y i d w1 = (p, w2)" by fastforce
    note fr = publish_frame [OF p]
    show ?thesis
    proof (cases p)
      case (Inr u)
      obtain q w3 where m: "mark env y i w2 = (q, w3)" by fastforce
      from store_call_frame [OF m [unfolded mark_def]] fr p Inr m show ?thesis by (simp add: thenA_def)
    qed (use fr p in \<open>simp add: thenA_def\<close>)
  qed
  show "held (snd (rmq_nack env l err rt w)) j = held w j"
    using again h a by (cases r) (simp_all add: rmq_nack_def thenA_def [of ?a] returnA_def)
qed

lemma watch_held:
  assumes w: "watch_and_finish cfg sh l s = Some (r, s')" and j: "j \<noteq> lease_job l"
  shows "held (sup_world s') j = held (sup_world s) j"
proof -
  obtain q s1 where q: "supervise cfg (began_at sh + solve_timeout cfg) l (wakeups sh) s = Some (q, s1)"
    using w by (auto simp: watch_and_finish_def split: option.splits)
  note fr = supervise_frame [OF q]
  show ?thesis
  proof (cases q)
    case (Inl e)
    with w q fr show ?thesis by (simp add: watch_and_finish_def)
  next
    case (Inr h)
    obtain p s2 where p: "sup_finish cfg (finishing sh) (putting sh) h s1 = (p, s2)" by fastforce
    have "lease_job (h_lease h) = lease_job l" using fr Inr by simp
    with j have "held (sup_world s2) j = held (sup_world s1) j"
      using finish_world [OF p] by (auto simp: endings_held)
    moreover have "s' = s2" using w q Inr p by (cases p) (simp_all add: watch_and_finish_def)
    ultimately show ?thesis using fr by simp
  qed
qed

text \<open>Only \<open>run_once\<close> starts a child.\<close>

lemma finish_never_spawns: "sup_finish cfg env ans h s = (r, s1) \<Longrightarrow> r \<noteq> Inl SpawnError"
  by (auto simp: sup_finish_def sup_report_def sup_install_def sup_release_def sup_nack_def on_queue_def Let_def
      split: ending.splits outcome.splits sum.splits prod.splits sup_error.splits queue_error.splits db_error.splits)

lemma watch_never_spawns:
  assumes "watch_and_finish cfg sh l s = Some (r, s')"
  shows "r \<noteq> Inl SpawnError"
proof -
  obtain q s1 where q: "supervise cfg (began_at sh + solve_timeout cfg) l (wakeups sh) s = Some (q, s1)"
    using assms by (auto simp: watch_and_finish_def split: option.splits)
  have "watched l q" using supervise_chain [OF q, of "\<lambda>_ _. True"] by simp
  with assms q show ?thesis
    by (auto simp: watch_and_finish_def aclose_def watched_def split: sum.splits prod.splits
        dest: finish_never_spawns)
qed

text \<open>A slot that is not given back: one delivery, the one behind the lease, is held and outstanding.\<close>

definition keeps_slot :: "world \<Rightarrow> lease \<Rightarrow> bool" where
  "keeps_slot w l \<longleftrightarrow> (\<exists>m. held w = (\<lambda>_. None)(lease_job l \<mapsto> (l_id l, m)) \<and>
     m \<in> set (unacked w) \<and> set (unacked w) = insert m (set (incoming w)))"

definition idle :: "world \<Rightarrow> bool" where
  "idle w \<longleftrightarrow> held w = (\<lambda>_. None) \<and> set (unacked w) = set (incoming w)"

lemma idle_slots: "slots_ok w \<Longrightarrow> held w = (\<lambda>_. None) \<Longrightarrow> idle w"
  by (simp add: idle_def slots_ok_def in_hand_def)

lemma keeps_slot_slots: "slots_ok w \<Longrightarrow> held w = (\<lambda>_. None)(lease_job l \<mapsto> (l_id l, m)) \<Longrightarrow> keeps_slot w l"
  by (auto simp: keeps_slot_def slots_ok_def in_hand_def)

text \<open>A watch that ends in what the collector raised, from a worker that held this one lease.\<close>

lemma watch_slots:
  assumes ok: "slots_ok (sup_world s)" and h: "held (sup_world s) = (\<lambda>_. None)(lease_job l \<mapsto> (l_id l, m))"
    and w: "watch_and_finish cfg sh l s = Some (r, s')"
  shows "slots_ok (sup_world s') \<and>
    (if \<exists>e. r = Inl (CollectorError e) then idle (sup_world s') \<or> keeps_slot (sup_world s') l
     else idle (sup_world s'))"
proof -
  obtain q s1 where q: "supervise cfg (began_at sh + solve_timeout cfg) l (wakeups sh) s = Some (q, s1)"
    using w by (auto simp: watch_and_finish_def split: option.splits)
  note fr = supervise_frame [OF q]
  have "slots_ok (sup_world s1) = slots_ok (sup_world s)" by (rule slots_frame) (simp_all add: fr)
  with ok have ok1: "slots_ok (sup_world s1)" by simp
  show ?thesis
  proof (cases q)
    case (Inl e)
    have "watched l q" using supervise_chain [OF q, of "\<lambda>_ _. True"] by simp
    with Inl obtain err where "e = CollectorError err" by (auto simp: watched_def)
    with w q Inl have "\<exists>e. r = Inl (CollectorError e)" "s' = s1"
      by (auto simp: watch_and_finish_def aclose_def split: sum.splits)
    with ok1 keeps_slot_slots [OF ok1, of l m] fr h show ?thesis by simp
  next
    case (Inr h')
    obtain p s2 where p: "sup_finish cfg (finishing sh) (putting sh) h' s1 = (p, s2)" by fastforce
    have s': "s' = s2" using w q Inr p by (cases p) (simp_all add: watch_and_finish_def)
    have lease: "l_id (h_lease h') = l_id l" "lease_job (h_lease h') = lease_job l" using fr Inr by simp_all
    have "freed (h_lease h') m (sup_world s2)"
      by (rule finish_frees [OF ok1 _ p]) (use fr lease h in simp)
    then have "slots_ok (sup_world s')" "held (sup_world s') (lease_job l) = None"
      using lease s' by (simp_all add: freed_def)
    moreover have "held (sup_world s') j = None" if "j \<noteq> lease_job l" for j
      using watch_held [OF w that] h that by simp
    ultimately show ?thesis using idle_slots by (metis ext)
  qed
qed

text \<open>C32: What becomes of the worker's slot, over every way a turn can go once its reserve has returned.
  From an idle consumer, a turn that ends without an exception, or with one the queue raised, for
  each of the six endings and through every failure of the database, the broker and the object
  store, leaves the consumer idle: no delivery held, every outstanding one still in the buffer. Two
  exceptions can do otherwise. A child that cannot be started always keeps the slot: its delivery
  stays held under the lease. A child whose report cannot be read may. (A reserve that raises is
  \<open>failed_claim_wedges_consumer\<close>.)\<close>

theorem turn_leaves_the_consumer_idle:
  assumes "slots_ok (sup_world s)" "held (sup_world s) = (\<lambda>_. None)"
    and reserve: "rmq_reserve (reserving sh) owner (lease_for cfg) (sup_world s) = (Inr x, w1)"
    and turn: "run_once cfg owner sh s = Some (r, s')"
  shows "slots_ok (sup_world s') \<and>
     (case r of
        Inl SpawnError \<Rightarrow> \<exists>l. x = Some l \<and> sup_world s' = w1 \<and> keeps_slot (sup_world s') l
      | Inl (CollectorError e) \<Rightarrow> idle (sup_world s') \<or> (\<exists>l. x = Some l \<and> keeps_slot (sup_world s') l)
      | _ \<Rightarrow> idle (sup_world s'))"
proof -
  have rs: "slots_ok w1 \<and> (x = None \<longrightarrow> incoming w1 = [] \<and> held w1 = held (sup_world s)) \<and>
    (\<forall>l. x = Some l \<longrightarrow> (\<exists>m \<in> set (incoming (sup_world s)). held w1 = (held (sup_world s))(lease_job l \<mapsto> (l_id l, m))))"
    by (rule reserve_from_slots [OF assms(1) refl reserve [unfolded rmq_reserve_def]]) (simp add: assms(2))
  show ?thesis
  proof (cases x)
    case None
    then have "s' = s\<lparr>sup_world := w1\<rparr>" "r = Inr None" using turn reserve by (simp_all add: run_once_def on_queue_def)
    with rs assms(2) idle_slots [of w1] None show ?thesis by simp
  next
    case (Some l)
    then obtain m where m: "held w1 = (\<lambda>_. None)(lease_job l \<mapsto> (l_id l, m))" using rs assms(2) by auto
    let ?s1 = "s\<lparr>sup_world := w1\<rparr>"
    show ?thesis
    proof (cases "link_of (reserving sh) CSpawn = Works")
      case False
      with turn reserve Some have "r = Inl SpawnError" "s' = ?s1" by (simp_all add: run_once_def on_queue_def)
      with Some rs keeps_slot_slots m show ?thesis by auto
    next
      case True
      then obtain q where q: "watch_and_finish cfg sh l ?s1 = Some (q, s')"
          "r = (case q of Inl e \<Rightarrow> Inl e | Inr h \<Rightarrow> Inr (Some h))"
        using turn reserve Some by (auto simp: run_once_def on_queue_def split: option.splits sum.splits)
      have "q \<noteq> Inl SpawnError"
        using watch_never_spawns [OF q(1)] .
      with watch_slots [of ?s1 l m cfg sh q s'] rs m q Some show ?thesis
        by (auto split: sum.splits sup_error.splits)
    qed
  qed
qed

definition offered :: supervised where
  "offered = \<lparr>sup_world = on_delivery demo_delivery (idle_world demo_queued), artifacts = (\<lambda>_. None)\<rparr>"

definition demo_shift :: "env \<Rightarrow> shift" where
  "demo_shift e = \<lparr>reserving = demo_env, began_at = 0,
     wakeups = [(quiet_beat 20000000 demo_env)\<lparr>child_report := Some (Inr (Solved [1, 2] ''text/plain''))\<rparr>],
     finishing = e, putting = Stored, closing_child = Inr (Solved [1, 2] ''text/plain'')\<rparr>"

lemma offered_slots: "slots_ok (sup_world offered)" "held (sup_world offered) = (\<lambda>_. None)"
  by (simp_all add: offered_def slots_ok_def on_delivery_def idle_world_def in_hand_def held_once_def)

lemma offered_reserve:
  "\<exists>l w. rmq_reserve demo_env owner dur (sup_world offered) = (Inr (Some l), w)"
  by (simp add: rmq_reserve_def offered_def on_delivery_def idle_world_def demo_delivery_def uuid_parse_str
      Let_def thenA_def store_call_def call_txn_def demo_env_def demo_eval)

text \<open>A turn whose child cannot be started: out of processes, or of file descriptors.\<close>

definition unspawned :: shift where
  "unspawned = (demo_shift demo_env)\<lparr>reserving := demo_env\<lparr>link_of := \<lambda>c. if c = CSpawn then Fails else Works\<rparr>\<rparr>"

lemma unspawned_reserve:
  "\<exists>l w. rmq_reserve (reserving unspawned) owner dur (sup_world offered) = (Inr (Some l), w)"
  by (simp add: rmq_reserve_def offered_def on_delivery_def idle_world_def demo_delivery_def uuid_parse_str
      Let_def thenA_def store_call_def call_txn_def unspawned_def demo_env_def demo_eval)

lemma offered_turn:
  assumes "sup_world s = sup_world offered"
  shows "\<exists>r s'. run_once default_config ''w1'' (demo_shift env) s = Some (r, s') \<and>
    (\<forall>e. r \<noteq> Inl (CollectorError e)) \<and> r \<noteq> Inl SpawnError"
proof -
  let ?sh = "demo_shift env" and ?out = "Solved [1, 2] ''text/plain''"
  obtain l w where l: "rmq_reserve (reserving ?sh) ''w1'' (lease_for default_config) (sup_world s) = (Inr (Some l), w)"
    using offered_reserve unfolding demo_shift_def assms by fastforce
  let ?s1 = "s\<lparr>sup_world := w\<rparr>"
  let ?h = "\<lparr>h_lease = l, h_outcome = ?out, h_ending = COMPLETED\<rparr>"
  have sup: "supervise default_config cap l (wakeups ?sh) ?s1 = Some (Inr ?h, ?s1)" for cap
    by (simp add: demo_shift_def reported_def)
  obtain p s2 where p: "sup_finish default_config (finishing ?sh) (putting ?sh) ?h ?s1 = (p, s2)" by fastforce
  have "\<forall>e. p \<noteq> Inl (CollectorError e)"
    using p by (auto simp: sup_finish_def sup_report_def sup_install_def s3_put_def demo_shift_def on_queue_def
        Let_def split: sum.splits prod.splits sup_error.splits queue_error.splits db_error.splits)
  moreover note finish_never_spawns [OF p]
  moreover have "link_of (reserving ?sh) CSpawn = Works" by (simp add: demo_shift_def demo_env_def)
  ultimately show ?thesis
    using l sup p by (cases p) (simp_all add: run_once_def on_queue_def watch_and_finish_def aclose_def demo_shift_def)
qed

lemma demo_turn:
  obtains r s' where "run_once default_config ''w1'' (demo_shift env) offered = Some (r, s')"
    "\<forall>e. r \<noteq> Inl (CollectorError e)" "r \<noteq> Inl SpawnError"
  using offered_turn [OF refl] by blast

theorem turn_leaves_the_consumer_idle_witness:
  "(\<exists>r s'. run_once default_config ''w1'' (demo_shift silent_env) offered = Some (r, s') \<and> idle (sup_world s')) \<and>
   (\<exists>s' l. run_once default_config ''w1'' unspawned offered = Some (Inl SpawnError, s') \<and> keeps_slot (sup_world s') l)"
proof
  obtain l w1 where res: "rmq_reserve demo_env ''w1'' (lease_for default_config) (sup_world offered) = (Inr (Some l), w1)"
    using offered_reserve by blast
  then have res': "rmq_reserve (reserving (demo_shift silent_env)) ''w1'' (lease_for default_config) (sup_world offered) =
      (Inr (Some l), w1)" by (simp add: demo_shift_def)
  obtain r s' where r: "run_once default_config ''w1'' (demo_shift silent_env) offered = Some (r, s')"
    "\<forall>e. r \<noteq> Inl (CollectorError e)" "r \<noteq> Inl SpawnError"
    using demo_turn by blast
  from turn_leaves_the_consumer_idle [OF offered_slots res' r(1)] r
  show "\<exists>r s'. run_once default_config ''w1'' (demo_shift silent_env) offered = Some (r, s') \<and> idle (sup_world s')"
    by (auto split: sum.splits sup_error.splits)
next
  obtain l w1 where res: "rmq_reserve (reserving unspawned) ''w1'' (lease_for default_config) (sup_world offered) = (Inr (Some l), w1)"
    using unspawned_reserve by blast
  then have run: "run_once default_config ''w1'' unspawned offered = Some (Inl SpawnError, offered\<lparr>sup_world := w1\<rparr>)"
    by (simp add: run_once_def on_queue_def) (simp add: unspawned_def)
  from turn_leaves_the_consumer_idle [OF offered_slots res run] run
  show "\<exists>s' l. run_once default_config ''w1'' unspawned offered = Some (Inl SpawnError, s') \<and> keeps_slot (sup_world s') l"
    by auto
qed

end
