(* ===== verification/Supervisor_Outcomes.thy ===== *)
theory Supervisor_Outcomes
  imports Supervisor_Properties
begin

text \<open>
  What a turn of the worker leaves in the database and in the object store. Its writes are a run of
  transactions that present its own token; from there follow, over every environment: an artifact
  exists before a row names it, a worker whose token is gone changes nothing, and attempts never
  share an object. Then the ends of a job, one by one.
\<close>

subsection \<open>The transactions of a turn\<close>

text \<open>What a worker with the token \<open>t\<close> on the job \<open>j\<close> may commit, naming only objects under \<open>keys\<close>.\<close>

definition token_ops :: "uuid \<Rightarrow> uuid \<Rightarrow> string set \<Rightarrow> operation set" where
  "token_ops t j keys =
     {op. \<exists>now l. l_id l = t \<and> lease_job l = j \<and>
        ((\<exists>d. op = Extend now l d) \<or> (\<exists>e rt. op = Nack now l e rt) \<or> (\<exists>k \<in> keys. op = Ack now l (Some k)))}"

definition beats_of :: "wakeup list \<Rightarrow> operation set" where
  "beats_of ws = (\<Union>w \<in> set ws. env_ops (beat w))"

definition shift_ops :: "shift \<Rightarrow> operation set" where
  "shift_ops sh = env_ops (reserving sh) \<union> beats_of (wakeups sh) \<union> env_ops (finishing sh)"

lemma beats_of_Cons: "beats_of (w # ws) = env_ops (beat w) \<union> beats_of ws"
  by (simp add: beats_of_def)

lemma runs_trans:
  assumes "set ops \<subseteq> A" "d1 = run ops d0" "\<exists>more. set more \<subseteq> B \<and> d2 = run more d1" "A \<subseteq> C" "B \<subseteq> C"
  shows "\<exists>more. set more \<subseteq> C \<and> d2 = run more d0"
  using assms by (metis run_append le_supI set_append subset_trans)

lemma supervise_transacts:
  assumes "supervise cfg cap l ws s = Some (r, s1)"
  shows "\<exists>ops. set ops \<subseteq> beats_of ws \<union> token_ops (l_id l) (lease_job l) {} \<and>
     w_db (sup_world s1) = run ops (w_db (sup_world s))"
proof -
  let ?A = "beats_of ws \<union> token_ops (l_id l) (lease_job l) {}"
  define R where "R a b \<longleftrightarrow> (\<exists>ops. set ops \<subseteq> ?A \<and> w_db (sup_world b) = run ops (w_db (sup_world a)))"
    for a b :: supervised
  have "R a a" for a by (auto simp: R_def intro: exI [of _ "[]"])
  moreover have "R a b \<Longrightarrow> R b c \<Longrightarrow> R a c" for a b c
    unfolding R_def using runs_trans [where C = ?A] by blast
  moreover have "R g g2" if "w \<in> set ws" "l_id l' = l_id l" "lease_job l' = lease_job l"
    "sup_extend cfg (beat w) l' g = (x, g2)" for w l' g x g2
  proof -
    have "transacts ?A (rmq_extend (beat w) l' (lease_for cfg))"
      by (rule transacts_mono [OF transacts_extend]) (use that in \<open>auto simp: token_ops_def beats_of_def\<close>)
    from transactsD [OF this] sup_extend_sel(2) [OF that(4)] show ?thesis by (simp add: R_def)
  qed
  ultimately have "R s s1 \<and> watched l r" by (rule supervise_chain [OF assms])
  then show ?thesis by (simp add: R_def)
qed

text \<open>The database of a finish: nothing, a nack, or an ack that names an object that is there.\<close>

lemma finish_transacts:
  assumes "sup_finish cfg env ans h s = (r, s1)"
  shows "\<exists>ops. set ops \<subseteq> env_ops env \<union> marks \<union>
       token_ops (l_id (h_lease h)) (lease_job (h_lease h)) ({key_of (h_lease h)} \<inter> dom (artifacts s1)) \<and>
     w_db (sup_world s1) = run ops (w_db (sup_world s))"
proof -
  let ?l = "h_lease h"
  let ?T = "token_ops (l_id ?l) (lease_job ?l) ({key_of ?l} \<inter> dom (artifacts s1))"
  note via = transactsD [where w = "sup_world s" and A = "env_ops env \<union> marks \<union> ?T"]
  consider (discard) "sup_world s1 = rmq_discard ?l (sup_world s)"
    | (nack) err rt where "sup_world s1 = snd (rmq_nack env ?l err rt (sup_world s))"
    | (ack) "sup_world s1 = snd (rmq_ack env ?l (Some (key_of ?l)) (sup_world s))"
        "artifacts s1 (key_of ?l) \<noteq> None"
    using finish_world [OF assms] by auto
  then show ?thesis
  proof cases
    case discard
    then show ?thesis by (intro exI [of _ "[]"]) (simp add: rmq_discard_def release_frame)
  next
    case nack
    have "transacts (env_ops env \<union> marks \<union> ?T) (rmq_nack env ?l err rt)"
      by (rule transacts_mono [OF transacts_nack]) (auto simp: token_ops_def)
    from via [OF this] nack show ?thesis by simp
  next
    case ack
    have "transacts (env_ops env \<union> marks \<union> ?T) (rmq_ack env ?l (Some (key_of ?l)))"
      by (rule transacts_mono [OF transacts_ack]) (use ack(2) in \<open>auto simp: token_ops_def\<close>)
    from via [OF this] ack(1) show ?thesis by simp
  qed
qed

text \<open>A whole watch, from the lease to the end of its report.\<close>

lemma watch_cases:
  assumes "watch_and_finish cfg sh l s = Some (r, s')"
  obtains e where "supervise cfg (began_at sh + solve_timeout cfg) l (wakeups sh) s = Some (Inl e, s')"
  | h s1 p where "supervise cfg (began_at sh + solve_timeout cfg) l (wakeups sh) s = Some (Inr h, s1)"
      "sup_finish cfg (finishing sh) (putting sh) h s1 = (p, s')"
      "l_id (h_lease h) = l_id l" "lease_job (h_lease h) = lease_job l" "artifacts s1 = artifacts s"
proof -
  obtain q s1 where q: "supervise cfg (began_at sh + solve_timeout cfg) l (wakeups sh) s = Some (q, s1)"
    using assms by (auto simp: watch_and_finish_def split: option.splits)
  note fr = supervise_frame [OF q]
  show thesis
  proof (cases q)
    case (Inl e)
    with assms q have "s' = s1" by (simp add: watch_and_finish_def)
    with that(1) q Inl show thesis by simp
  next
    case (Inr h)
    obtain p s2 where p: "sup_finish cfg (finishing sh) (putting sh) h s1 = (p, s2)" by fastforce
    have "s' = s2" using assms q Inr p by (cases p) (simp_all add: watch_and_finish_def)
    with that(2) q Inr p fr show thesis by simp
  qed
qed

lemma watch_artifacts:
  assumes "watch_and_finish cfg sh l s = Some (r, s')"
  shows "artifacts s' = artifacts s \<or> (\<exists>x. artifacts s' = (artifacts s)(key_of l \<mapsto> x))"
proof (rule watch_cases [OF assms])
  fix e
  assume "supervise cfg (began_at sh + solve_timeout cfg) l (wakeups sh) s = Some (Inl e, s')"
  from supervise_frame [OF this] show ?thesis by simp
next
  fix h s1 p
  assume "sup_finish cfg (finishing sh) (putting sh) h s1 = (p, s')" "l_id (h_lease h) = l_id l"
    "lease_job (h_lease h) = lease_job l" "artifacts s1 = artifacts s"
  with finish_artifacts [OF this(1)] show ?thesis by auto
qed

lemma watch_transacts:
  assumes "watch_and_finish cfg sh l s = Some (r, s')"
  shows "\<exists>ops. set ops \<subseteq> shift_ops sh \<union> marks \<union> token_ops (l_id l) (lease_job l) ({key_of l} \<inter> dom (artifacts s')) \<and>
     w_db (sup_world s') = run ops (w_db (sup_world s))"
proof -
  let ?T = "\<lambda>K. token_ops (l_id l) (lease_job l) K"
  have T: "?T {} \<subseteq> ?T K" for K by (auto simp: token_ops_def)
  have sup: "\<exists>ops. set ops \<subseteq> beats_of (wakeups sh) \<union> ?T {} \<and> w_db (sup_world s1) = run ops (w_db (sup_world s))"
    if "supervise cfg (began_at sh + solve_timeout cfg) l (wakeups sh) s = Some (q, s1)" for q s1
    by (rule supervise_transacts [OF that])
  show ?thesis
  proof (rule watch_cases [OF assms])
    fix e
    assume "supervise cfg (began_at sh + solve_timeout cfg) l (wakeups sh) s = Some (Inl e, s')"
    from sup [OF this] T show ?thesis by (fastforce simp: shift_ops_def)
  next
    fix h s1 p
    assume s: "supervise cfg (began_at sh + solve_timeout cfg) l (wakeups sh) s = Some (Inr h, s1)"
      and f: "sup_finish cfg (finishing sh) (putting sh) h s1 = (p, s')"
      and h: "l_id (h_lease h) = l_id l" "lease_job (h_lease h) = lease_job l"
    obtain ops where ops: "set ops \<subseteq> beats_of (wakeups sh) \<union> ?T {}" "w_db (sup_world s1) = run ops (w_db (sup_world s))"
      using sup [OF s] by blast
    show ?thesis
      by (rule runs_trans [OF ops finish_transacts [OF f, unfolded h]])
         (use T in \<open>auto simp: shift_ops_def\<close>)
  qed
qed

subsection \<open>An artifact exists before a row names it\<close>

definition refs_in :: "string set \<Rightarrow> db \<Rightarrow> bool" where
  "refs_in K db \<longleftrightarrow> (\<forall>r \<in> set (jobs db). \<forall>k. result_ref r = Some k \<longrightarrow> k \<in> K)"

definition acks_in :: "string set \<Rightarrow> operation set \<Rightarrow> bool" where
  "acks_in K A \<longleftrightarrow> (\<forall>now l k. Ack now l (Some k) \<in> A \<longrightarrow> k \<in> K)"

definition refs_exist :: "supervised \<Rightarrow> bool" where
  "refs_exist s \<longleftrightarrow> refs_in (dom (artifacts s)) (w_db (sup_world s))"

lemma acks_in_mono: "acks_in K A \<Longrightarrow> B \<subseteq> A \<Longrightarrow> K \<subseteq> K' \<Longrightarrow> acks_in K' B"
  by (fastforce simp: acks_in_def)

lemma acks_in_Un: "acks_in K (A \<union> B) \<longleftrightarrow> acks_in K A \<and> acks_in K B"
  by (auto simp: acks_in_def)

lemma writes_refs:
  assumes "writes_rows op P f" "result_ref (f r) = Some k"
  shows "result_ref r = Some k \<or> (\<exists>now l. op = Ack now l (Some k))"
  using assms
  by (cases rule: writes_rows.cases)
     (auto simp: published_row_def cancelled_row_def claimed_row_def retired_row_def released_def
        extended_row_def acked_row_def nacked_row_def)

lemma run_refs: "refs_in K db \<Longrightarrow> acks_in K (set ops) \<Longrightarrow> refs_in K (run ops db)"
proof (induction ops arbitrary: db)
  case (Cons op ops)
  have acks: "acks_in K (set ops)" "acks_in K {op}"
    using Cons.prems(2) by (auto simp: acks_in_def)
  show ?case
  proof (cases "exec op db")
    case (Inr db')
    have "refs_in K db'"
      using exec_jobs [OF Inr] Cons.prems(1) acks(2)
      by (cases rule: jobs_step.cases)
         (auto simp: refs_in_def acks_in_def new_row_def elim!: in_update_whereE dest: writes_refs)
    with Cons.IH acks(1) Inr show ?thesis by simp
  qed (use Cons acks in simp)
qed simp

lemma run_once_cases:
  assumes "run_once cfg owner sh s = Some (r, s')"
  obtains "sup_world s' = snd (rmq_reserve (reserving sh) owner (lease_for cfg) (sup_world s))"
      "artifacts s' = artifacts s"
  | l s1 q where "rmq_reserve (reserving sh) owner (lease_for cfg) (sup_world s) = (Inr (Some l), sup_world s1)"
      "artifacts s1 = artifacts s" "watch_and_finish cfg sh l s1 = Some (q, s')"
proof -
  obtain x s1 where x: "on_queue (rmq_reserve (reserving sh) owner (lease_for cfg)) s = (x, s1)" by fastforce
  note sel = on_queue_sel [OF x]
  show thesis
  proof (cases "(\<exists>l. x = Inr (Some l)) \<and> link_of (reserving sh) CSpawn = Works")
    case True
    then obtain l where l: "x = Inr (Some l)" by blast
    with True obtain q where "watch_and_finish cfg sh l s1 = Some (q, s')"
      using assms x by (auto simp: run_once_def split: option.splits sum.splits)
    moreover have "rmq_reserve (reserving sh) owner (lease_for cfg) (sup_world s) = (Inr (Some l), sup_world s1)"
      using x l by (auto simp: on_queue_Inr)
    ultimately show thesis using that(2) sel by blast
  next
    case False
    then have "s' = s1" using assms x by (auto simp: run_once_def split: option.splits sum.splits if_splits)
    with that(1) sel show thesis by blast
  qed
qed

lemma turn_refs:
  assumes "run_once cfg owner sh s = Some (r, s')" "reachable (w_db (sup_world s))" "refs_exist s"
    and acks: "acks_in (dom (artifacts s)) (shift_ops sh)"
  shows "reachable (w_db (sup_world s')) \<and> refs_exist s' \<and> dom (artifacts s) \<subseteq> dom (artifacts s')"
proof -
  let ?w = "snd (rmq_reserve (reserving sh) owner (lease_for cfg) (sup_world s))"
  obtain ops where ops: "set ops \<subseteq> env_ops (reserving sh) \<union> claims (reserving sh) owner (lease_for cfg)"
      "w_db ?w = run ops (w_db (sup_world s))"
    using transactsD [OF transacts_reserve] by blast
  have "acks_in (dom (artifacts s)) (claims (reserving sh) owner (lease_for cfg))"
    by (auto simp: acks_in_def claims_def)
  with acks have "acks_in (dom (artifacts s)) (set ops)"
    by (intro acks_in_mono [OF _ ops(1) subset_refl]) (simp add: acks_in_Un shift_ops_def)
  with ops(2) assms(2,3) have w: "reachable (w_db ?w)" "refs_in (dom (artifacts s)) (w_db ?w)"
    by (simp_all add: reachable_run run_refs refs_exist_def)
  show ?thesis
  proof (rule run_once_cases [OF assms(1)])
    assume "sup_world s' = ?w" "artifacts s' = artifacts s"
    with w show ?thesis by (simp add: refs_exist_def)
  next
    fix l s1 q
    assume rs: "rmq_reserve (reserving sh) owner (lease_for cfg) (sup_world s) = (Inr (Some l), sup_world s1)"
      and arts: "artifacts s1 = artifacts s" and q: "watch_and_finish cfg sh l s1 = Some (q, s')"
    let ?K = "dom (artifacts s')"
    have s1: "sup_world s1 = ?w" "artifacts s1 = artifacts s" using rs arts by simp_all
    have grow: "dom (artifacts s) \<subseteq> ?K" using watch_artifacts [OF q] s1(2) by auto
    obtain more where more: "set more \<subseteq> shift_ops sh \<union> marks \<union> token_ops (l_id l) (lease_job l) ({key_of l} \<inter> ?K)"
        "w_db (sup_world s') = run more (w_db (sup_world s1))"
      using watch_transacts [OF q] by blast
    have "acks_in ?K (shift_ops sh)" by (rule acks_in_mono [OF acks subset_refl grow])
    then have "acks_in ?K (set more)"
      by (intro acks_in_mono [OF _ more(1) subset_refl]) (auto simp: acks_in_def marks_def token_ops_def)
    moreover have "refs_in ?K (w_db (sup_world s1))" using w(2) grow s1(1) unfolding refs_in_def by (metis subsetD)
    ultimately show ?thesis
      using w(1) more(2) s1(1) grow by (simp add: reachable_run run_refs refs_exist_def)
  qed
qed

text \<open>C33: No row ever names an artifact that is not there. However a worker's life goes, with failing
  uploads, lost replies, leases taken in mid-flight and other processes committing at every call,
  the database it leaves is a reachable one and each \<open>result_ref\<close> in it has its object, provided
  what other processes acknowledge does: the object is written before the row points at it.\<close>

theorem every_reference_has_an_object:
  assumes "reachable (w_db (sup_world s))" "refs_exist s"
    and "\<forall>p \<in> set shs. acks_in (dom (artifacts s)) (shift_ops (snd p))"
    and "sup_run cfg owner shs s = Some s'"
  shows "reachable (w_db (sup_world s')) \<and> refs_exist s'"
  using assms
proof (induction cfg owner shs s rule: sup_run.induct)
  case (2 cfg owner stopping sh shs s)
  show ?case
  proof (cases stopping)
    case False
    then obtain r s1 where s1: "run_once cfg owner sh s = Some (r, s1)" "sup_run cfg owner shs s1 = Some s'"
      using 2(5) by (auto split: option.splits)
    have ok: "reachable (w_db (sup_world s1)) \<and> refs_exist s1 \<and> dom (artifacts s) \<subseteq> dom (artifacts s1)"
      by (rule turn_refs [OF s1(1) 2(2,3)]) (use 2(4) in simp)
    then have "\<forall>p \<in> set shs. acks_in (dom (artifacts s1)) (shift_ops (snd p))"
      using 2(4) by (auto intro: acks_in_mono)
    with 2(1) [OF False s1(1) refl] ok s1(2) show ?thesis by blast
  qed (use 2 in simp)
qed simp

theorem every_reference_has_an_object_witness:
  "\<exists>s'. sup_run default_config ''w1'' [(False, demo_shift demo_env)] offered = Some s' \<and> refs_exist s'"
proof -
  obtain r s1 where "run_once default_config ''w1'' (demo_shift demo_env) offered = Some (r, s1)"
    using demo_turn by blast
  then have run: "sup_run default_config ''w1'' [(False, demo_shift demo_env)] offered = Some s1" by simp
  have db: "w_db (sup_world offered) = demo_queued" by (simp add: offered_def on_delivery_def idle_world_def)
  have "shift_ops (demo_shift demo_env) = {}"
    by (simp add: shift_ops_def demo_shift_def env_ops_def demo_env_def beats_of_def quiet_beat_def)
  then have "\<forall>p \<in> set [(False, demo_shift demo_env)]. acks_in (dom (artifacts offered)) (shift_ops (snd p))"
    by (simp add: acks_in_def)
  moreover have "refs_exist offered"
    by (simp add: refs_exist_def refs_in_def db demo_queued_jobs new_row_def)
  ultimately show ?thesis
    using every_reference_has_an_object [OF _ _ _ run] run demo_queued_reachable db by auto
qed

subsection \<open>A worker whose token is gone\<close>

definition token_gone :: "uuid \<Rightarrow> db \<Rightarrow> bool" where
  "token_gone t db \<longleftrightarrow> (\<forall>r \<in> set (jobs db). lease_id r \<noteq> Some t)"

definition mints :: "uuid \<Rightarrow> operation set \<Rightarrow> bool" where
  "mints t A \<longleftrightarrow> (\<exists>op \<in> A. minted op = Some t)"

lemma run_gone: "token_gone t db \<Longrightarrow> \<not> mints t (set ops) \<Longrightarrow> token_gone t (run ops db)"
  using run_token_gone by (simp add: token_gone_def mints_def)

lemma gone_refused:
  assumes "token_gone (l_id l) db"
  shows "ack now l ref db = Inl (stale_lease l)" "nack now l err rt db = Inl (stale_lease l)"
    "Job_Store.extend now l dur db = Inl (stale_lease l)"
proof -
  have "\<forall>r \<in> set (jobs db). \<not> fencing l r" using assms fencing_needs_token by (auto simp: token_gone_def)
  from stale_refused [OF this] show "ack now l ref db = Inl (stale_lease l)"
    "nack now l err rt db = Inl (stale_lease l)" "Job_Store.extend now l dur db = Inl (stale_lease l)" by simp_all
qed

text \<open>Its transactions can be struck from the run.\<close>

lemma run_strikes_stale:
  assumes "token_gone t db" "\<not> mints t (set ops)"
  shows "\<exists>rest. set rest \<subseteq> set ops - token_ops t j keys \<and> run ops db = run rest db"
  using assms
proof (induction ops arbitrary: db)
  case Nil
  then show ?case by simp
next
  case (Cons op ops)
  let ?db = "case exec op db of Inl _ \<Rightarrow> db | Inr db' \<Rightarrow> db'"
  have no: "minted op \<noteq> Some t" "\<not> mints t (set ops)" using Cons.prems(2) by (auto simp: mints_def)
  have "token_gone t (run [op] db)" by (rule run_gone) (use Cons.prems(1) no in \<open>auto simp: mints_def\<close>)
  then have "token_gone t ?db" by simp
  from Cons.IH [OF this no(2)] obtain rest
    where rest: "set rest \<subseteq> set ops - token_ops t j keys" "run ops ?db = run rest ?db" by blast
  show ?case
  proof (cases "op \<in> token_ops t j keys")
    case True
    then have "?db = db" using gone_refused Cons.prems(1) by (auto simp: token_ops_def commit_def)
    with rest show ?thesis by (intro exI [of _ rest]) auto
  next
    case False
    with rest show ?thesis by (intro exI [of _ "op # rest"]) auto
  qed
qed

lemma stale_call:
  assumes "\<And>now. t now (run (others env c) (w_db w)) = Inl e"
  shows "\<exists>q. store_call env c t w = (Inl q, w\<lparr>w_db := run (others env c) (w_db w)\<rparr>)"
  using assms by (simp add: store_call_def call_txn_def Let_def split: link.splits)

lemma gone_endings:
  assumes "token_gone (l_id l) (w_db w)" "\<not> mints (l_id l) (env_ops env)"
    and w': "w' = rmq_discard l w \<or> w' = snd (rmq_ack env l ref w) \<or> w' = snd (rmq_nack env l err rt w)"
  shows "\<exists>ops. set ops \<subseteq> env_ops env \<and> w_db w' = run ops (w_db w) \<and> on_the_wire w' = on_the_wire w"
proof -
  let ?rel = "release (lease_job l) (Some (l_id l))" and ?run = "\<lambda>c. run (others env c) (w_db w)"
  have "token_gone (l_id l) (?run c)" for c
    by (rule run_gone [OF assms(1)]) (use assms(2) in \<open>auto simp: mints_def env_ops_def\<close>)
  note stale = this [THEN gone_refused(1)] this [THEN gone_refused(2)]
  obtain q where a: "store_call env CAck (\<lambda>now. ack now l ref) w = (Inl q, w\<lparr>w_db := ?run CAck\<rparr>)"
    using stale_call [where t = "\<lambda>now. ack now l ref", OF stale(1)] by blast
  obtain q' where n: "store_call env CNack (\<lambda>now. nack now l err rt) w = (Inl q', w\<lparr>w_db := ?run CNack\<rparr>)"
    using stale_call [where t = "\<lambda>now. nack now l err rt", OF stale(2)] by blast
  have "w' = ?rel w \<or> (\<exists>c. w' = ?rel (w\<lparr>w_db := ?run c\<rparr>))"
    using w' a n by (auto simp: rmq_discard_def rmq_ack_def rmq_nack_def finallyA_def thenA_def)
  then show ?thesis
  proof (elim disjE exE)
    assume "w' = ?rel w"
    then show ?thesis by (intro exI [of _ "[]"]) (simp add: release_frame on_the_wire_release)
  next
    fix c
    assume "w' = ?rel (w\<lparr>w_db := ?run c\<rparr>)"
    then show ?thesis
      using on_the_wire_frame [of "w\<lparr>w_db := ?run c\<rparr>" w]
      by (intro exI [of _ "others env c"]) (auto simp: env_ops_def release_frame on_the_wire_release)
  qed
qed

text \<open>The watch of a worker whose token is gone: what others commit between its heartbeats, and nothing else.\<close>

lemma fenced_watch:
  assumes gone: "token_gone (l_id l) (w_db (sup_world s))"
    and beats: "\<not> mints (l_id l) (beats_of ws \<union> token_ops (l_id l) (lease_job l) {})"
    and q: "supervise cfg cap l ws s = Some (q, s1)"
  shows "\<exists>ops. set ops \<subseteq> beats_of ws \<and> w_db (sup_world s1) = run ops (w_db (sup_world s)) \<and>
     on_the_wire (sup_world s1) = on_the_wire (sup_world s)"
proof -
  obtain ops where ops: "set ops \<subseteq> beats_of ws \<union> token_ops (l_id l) (lease_job l) {}"
      "w_db (sup_world s1) = run ops (w_db (sup_world s))"
    using supervise_transacts [OF q] by blast
  have "\<not> mints (l_id l) (set ops)" using beats ops(1) by (auto simp: mints_def)
  from run_strikes_stale [OF gone this] obtain rest
    where "set rest \<subseteq> set ops - token_ops (l_id l) (lease_job l) {}"
      "run ops (w_db (sup_world s)) = run rest (w_db (sup_world s))" by blast
  moreover have "on_the_wire (sup_world s1) = on_the_wire (sup_world s)"
    by (rule on_the_wire_frame) (simp add: supervise_frame [OF q])
  ultimately show ?thesis using ops by (intro exI [of _ rest]) auto
qed

text \<open>C34: A worker whose claim was taken changes nothing. Once its token is on no row, whatever it does
  with the lease it still believes in (renew it, be cancelled, time out, upload and acknowledge a
  finished solve) leaves the database what the other processes made of it and offers no job to the
  broker; all that can remain is an object under the attempt's own key, which no row names.\<close>

theorem fenced_worker_writes_nothing:
  assumes "token_gone (l_id l) (w_db (sup_world s))" "\<not> mints (l_id l) (shift_ops sh)"
    and "watch_and_finish cfg sh l s = Some (r, s')"
  shows "\<exists>ops. set ops \<subseteq> shift_ops sh \<and> w_db (sup_world s') = run ops (w_db (sup_world s)) \<and>
     on_the_wire (sup_world s') = on_the_wire (sup_world s) \<and>
     (\<forall>k. k \<noteq> key_of l \<longrightarrow> artifacts s' k = artifacts s k)"
proof -
  have arts: "\<forall>k. k \<noteq> key_of l \<longrightarrow> artifacts s' k = artifacts s k"
    using watch_artifacts [OF assms(3)] by auto
  have beats: "\<not> mints (l_id l) (beats_of (wakeups sh) \<union> token_ops (l_id l) (lease_job l) {})"
    and fin: "\<not> mints (l_id l) (env_ops (finishing sh))"
    using assms(2) by (auto simp: mints_def shift_ops_def token_ops_def)
  note sup = fenced_watch [OF assms(1) beats]
  show ?thesis
  proof (rule watch_cases [OF assms(3)])
    fix e
    assume "supervise cfg (began_at sh + solve_timeout cfg) l (wakeups sh) s = Some (Inl e, s')"
    from sup [OF this] arts show ?thesis by (auto simp: shift_ops_def)
  next
    fix h s1 p
    assume q: "supervise cfg (began_at sh + solve_timeout cfg) l (wakeups sh) s = Some (Inr h, s1)"
      and f: "sup_finish cfg (finishing sh) (putting sh) h s1 = (p, s')"
      and h: "l_id (h_lease h) = l_id l"
    obtain ops where ops: "set ops \<subseteq> beats_of (wakeups sh)" "w_db (sup_world s1) = run ops (w_db (sup_world s))"
        "on_the_wire (sup_world s1) = on_the_wire (sup_world s)"
      using sup [OF q] by blast
    have "token_gone (l_id (h_lease h)) (w_db (sup_world s1))"
      unfolding ops(2) h by (rule run_gone [OF assms(1)]) (use beats ops(1) in \<open>auto simp: mints_def\<close>)
    from gone_endings [OF this fin [folded h]] finish_world [OF f] obtain more
      where more: "set more \<subseteq> env_ops (finishing sh)" "w_db (sup_world s') = run more (w_db (sup_world s1))"
        "on_the_wire (sup_world s') = on_the_wire (sup_world s1)" by metis
    show ?thesis
      using ops more arts by (intro exI [of _ "ops @ more"]) (auto simp: run_append shift_ops_def)
  qed
qed

definition taken_over :: supervised where
  "taken_over = \<lparr>sup_world = demo_holding\<lparr>w_db := run [Claim 80 101 1 ''w2'' 60] demo_running\<rparr>,
     artifacts = (\<lambda>_. None)\<rparr>"

theorem fenced_worker_writes_nothing_witness:
  "\<exists>r s'. watch_and_finish default_config (demo_shift demo_env) demo_lease taken_over = Some (r, s') \<and>
     w_db (sup_world s') = run [Claim 80 101 1 ''w2'' 60] demo_running"
proof -
  let ?out = "Solved [1, 2] ''text/plain''" and ?db = "run [Claim 80 101 1 ''w2'' 60] demo_running"
  let ?h = "\<lparr>h_lease = demo_lease, h_outcome = ?out, h_ending = COMPLETED\<rparr>"
  have sup: "supervise default_config cap demo_lease (wakeups (demo_shift demo_env)) taken_over =
      Some (Inr ?h, taken_over)" for cap
    by (simp add: demo_shift_def reported_def)
  obtain p s' where p: "sup_finish default_config (finishing (demo_shift demo_env)) (putting (demo_shift demo_env)) ?h
      taken_over = (p, s')" by fastforce
  obtain r where w: "watch_and_finish default_config (demo_shift demo_env) demo_lease taken_over = Some (r, s')"
    using sup p by (cases p) (simp_all add: watch_and_finish_def)
  have db: "w_db (sup_world taken_over) = ?db" by (simp add: taken_over_def)
  have "jobs ?db = [claimed_row 80 101 ''w2'' 60 (claimed_row 10 100 ''w1'' 60 (new_row 5 1 demo_request))]"
    by (simp add: demo_eval lease_before_def)
  then have gone: "token_gone (l_id demo_lease) (w_db (sup_world taken_over))"
    unfolding token_gone_def db by (simp add: demo_lease_job) (simp add: claimed_row_def)
  have empty: "shift_ops (demo_shift demo_env) = {}"
    by (simp add: shift_ops_def demo_shift_def env_ops_def demo_env_def beats_of_def quiet_beat_def)
  from fenced_worker_writes_nothing [OF gone _ w] w db show ?thesis
    unfolding empty by (auto simp: mints_def)
qed

subsection \<open>Holding the lease while the child works\<close>

text \<open>A heartbeat that renews: the child still works, nobody asked the worker to stop, the cap is ahead, and
  the store answers with nobody else writing.\<close>

definition renews :: "worker_config \<Rightarrow> shift \<Rightarrow> wakeup \<Rightarrow> bool" where
  "renews cfg sh w \<longleftrightarrow> child_report w = None \<and> \<not> asked_to_stop w \<and>
     woke_at w < began_at sh + solve_timeout cfg \<and> undisturbed (beat w)"

lemma beat_renews:
  assumes ok: "db_ok (w_db (sup_world s))" and r: "r \<in> set (jobs (w_db (sup_world s)))" "fencing l r"
    and env: "undisturbed (beat w)"
  shows "\<exists>l' r' db. sup_extend cfg (beat w) l s = (Renewed l', s\<lparr>sup_world := (sup_world s)\<lparr>w_db := db\<rparr>\<rparr>) \<and>
     db_ok db \<and> r' \<in> set (jobs db) \<and> fencing l' r' \<and> to_job r' = to_job r \<and>
     l_id l' = l_id l \<and> l_job l' = to_job r"
proof -
  let ?now = "clock (beat w) CExtend" and ?d = "lease_for cfg" and ?w = "sup_world s"
  let ?row = "extended_row ?now ?d r"
  let ?l = "\<lparr>l_id = l_id l, l_job = to_job ?row, l_owner = l_owner l, l_expires_at = ?now + ?d\<rparr>"
  let ?db = "w_db ?w\<lparr>jobs := update_where (fencing l) (extended_row ?now ?d) (jobs (w_db ?w))\<rparr>"
  note ext = extend_live [OF ok r, of ?now ?d]
  have "sup_extend cfg (beat w) l s = (Renewed ?l, s\<lparr>sup_world := ?w\<lparr>w_db := ?db\<rparr>\<rparr>)"
    using undisturbed_call [OF env, of "\<lambda>now. Job_Store.extend now l ?d" CExtend ?w] ext(1)
    by (simp add: sup_extend_def on_queue_def rmq_extend_def)
  moreover have "?row \<in> set (jobs ?db)" "fencing ?l ?row"
    using r by (auto simp: set_update_where fencing_def extended_row_def)
  moreover have "to_job ?row = to_job r"
    by (simp add: extended_row_def to_job_def job.truncate_def)
  ultimately show ?thesis using ext(2) by (intro exI [of _ ?l] exI [of _ ?row] exI [of _ ?db]) simp
qed

text \<open>Any number of them: the watch goes on with the lease renewed, the same job on the row, and
  everything else as it was.\<close>

lemma supervise_renews:
  assumes "db_ok (w_db (sup_world s))" "r \<in> set (jobs (w_db (sup_world s)))" "fencing l r"
    and "\<forall>b \<in> set beats. renews cfg sh b" "beats \<noteq> [] \<longrightarrow> \<not> cancel_requested r"
  shows "\<exists>l' r' s'. supervise cfg (began_at sh + solve_timeout cfg) l (beats @ ws) s =
       supervise cfg (began_at sh + solve_timeout cfg) l' ws s' \<and>
     db_ok (w_db (sup_world s')) \<and> r' \<in> set (jobs (w_db (sup_world s'))) \<and> fencing l' r' \<and>
     to_job r' = to_job r \<and> l_id l' = l_id l \<and> artifacts s' = artifacts s"
  using assms
proof (induction beats arbitrary: l r s)
  case Nil
  then show ?case by auto
next
  case (Cons b beats)
  let ?cap = "began_at sh + solve_timeout cfg"
  have b: "child_report b = None" "\<not> asked_to_stop b" "woke_at b < ?cap" "undisturbed (beat b)"
    using Cons.prems(4) by (simp_all add: renews_def)
  obtain l1 r1 db where l1: "sup_extend cfg (beat b) l s = (Renewed l1, s\<lparr>sup_world := (sup_world s)\<lparr>w_db := db\<rparr>\<rparr>)"
      "db_ok db" "r1 \<in> set (jobs db)" "fencing l1 r1" "to_job r1 = to_job r" "l_id l1 = l_id l" "l_job l1 = to_job r"
    using beat_renews [OF Cons.prems(1-3) b(4), of cfg] by blast
  let ?s1 = "s\<lparr>sup_world := (sup_world s)\<lparr>w_db := db\<rparr>\<rparr>"
  have "\<not> cancel_requested (to_job r)" using Cons.prems(5) by simp
  moreover from this l1(5) have "\<not> cancel_requested r1" by (metis to_job_sel(11))
  ultimately have "supervise cfg ?cap l ((b # beats) @ ws) s = supervise cfg ?cap l1 (beats @ ws) ?s1"
      and cr: "\<not> cancel_requested r1"
    using b l1(1,7) by simp_all
  moreover obtain l' r' s' where "supervise cfg ?cap l1 (beats @ ws) ?s1 = supervise cfg ?cap l' ws s'"
      "db_ok (w_db (sup_world s'))" "r' \<in> set (jobs (w_db (sup_world s')))" "fencing l' r'"
      "to_job r' = to_job r1" "l_id l' = l_id l1" "artifacts s' = artifacts s"
    using Cons.IH [of ?s1 r1 l1] l1(2-4) Cons.prems(4) cr by auto
  ultimately show ?case using l1(5,6) by auto
qed

subsection \<open>A job ends as its solver does\<close>

lemma get_after_mark:
  assumes "db_ok db"
  shows "get j (db\<lparr>jobs := update_where (\<lambda>r. job_id r = i) (published_row now) (jobs db)\<rparr>) = get j db"
proof -
  let ?db = "db\<lparr>jobs := update_where (\<lambda>r. job_id r = i) (published_row now) (jobs db)\<rparr>"
  have ok: "db_ok ?db" by (rule mark_published_ok [OF assms])
  have same: "to_job (published_row now r) = to_job r" for r
    by (simp add: published_row_def to_job_def job.truncate_def)
  show ?thesis
  proof (cases "j \<in> job_id ` set (jobs db)")
    case True
    then obtain r where r: "r \<in> set (jobs db)" "job_id r = j" by blast
    let ?r = "if job_id r = i then published_row now r else r"
    have "?r \<in> set (jobs ?db)" using r by (auto simp: set_update_where)
    from get_known [OF ok this] get_known [OF assms r(1)] r(2) same show ?thesis
      by (auto simp: writes_keep_identity split: if_splits)
  next
    case False
    then have "j \<notin> job_id ` set (jobs ?db)"
      by (auto simp: set_update_where writes_keep_identity)
    with False show ?thesis by (simp add: get_unknown)
  qed
qed

lemma nack_state_to_job [simp]: "nack_state (to_job r) = nack_state r"
  by (simp add: nack_state_def)

lemma nack_lands:
  assumes env: "undisturbed env" and ok: "db_ok (w_db w)" and r: "r \<in> set (jobs (w_db w))" "fencing l r"
  shows "\<exists>w'. rmq_nack env l err rt w = (Inr (), w') \<and> get (job_id r) (w_db w') = Some (nacked_job err (to_job r))"
proof -
  let ?now = "clock env CNack" and ?rel = "release (lease_job l) (Some (l_id l))"
  let ?row = "nacked_row ?now err rt r"
  obtain db' where n: "nack ?now l err rt (w_db w) = Inr (to_job ?row, db')" "db_ok db'"
      "jobs db' = update_where (fencing l) (nacked_row ?now err rt) (jobs (w_db w))"
    using nack_live [OF ok r, of ?now err rt] by blast
  have "?row \<in> set (jobs db')" using r n(3) by (auto simp: set_update_where)
  from get_known [OF n(2) this] have got: "get (job_id r) db' = Some (nacked_job err (to_job r))"
    by (simp add: writes_keep_identity nacked_job_def nack_state_def nacked_row_def released_def to_job_def job.truncate_def)
  let ?w1 = "?rel (w\<lparr>w_db := db'\<rparr>)" and ?j = "to_job ?row"
  have head: "finallyA (store_call env CNack (\<lambda>now. nack now l err rt)) ?rel w = (Inr ?j, ?w1)"
    using undisturbed_call [OF env, of "\<lambda>now. nack now l err rt" CNack] n(1) by (simp add: finallyA_def)
  show ?thesis
  proof (cases "state ?j = FAILED")
    case True
    let ?w2 = "?w1\<lparr>sent := sent ?w1 @ [Published (uuid_str (job_id ?j)) (route_of rt)]\<rparr>"
    let ?db2 = "db'\<lparr>jobs := update_where (\<lambda>x. job_id x = job_id ?j) (published_row (clock env (CMark Retry (job_id ?j)))) (jobs db')\<rparr>"
    have "mark env Retry (job_id ?j) ?w2 = (Inr (), ?w2\<lparr>w_db := ?db2\<rparr>)"
      using undisturbed_call [OF env, of "\<lambda>now. mark_published now (job_id ?j)" "CMark Retry (job_id ?j)" ?w2]
      by (simp add: mark_def mark_published_def release_frame)
    then have "rmq_nack env l err rt w = (Inr (), ?w2\<lparr>w_db := ?db2\<rparr>)"
      using head True undisturbed_publish [OF env] by (simp add: rmq_nack_def thenA_def)
    with got get_after_mark [OF n(2)] show ?thesis by simp
  next
    case False
    then have "rmq_nack env l err rt w = (Inr (), ?w1)" using head by (simp add: rmq_nack_def thenA_def returnA_def)
    with got show ?thesis by (simp add: release_frame)
  qed
qed

lemma ack_lands:
  assumes env: "undisturbed env" and ok: "db_ok (w_db w)" and r: "r \<in> set (jobs (w_db w))" "fencing l r"
  shows "\<exists>w'. rmq_ack env l ref w = (Inr (), w') \<and> db_ok (w_db w') \<and>
     get (job_id r) (w_db w') = Some (to_job r\<lparr>state := DONE, result_ref := ref\<rparr>)"
proof -
  let ?now = "clock env CAck"
  obtain db' where a: "ack ?now l ref (w_db w) = Inr ((), db')" "db_ok db'"
      "jobs db' = update_where (fencing l) (acked_row ?now ref) (jobs (w_db w))"
    using ack_live [OF ok r, of ?now ref] by blast
  have "acked_row ?now ref r \<in> set (jobs db')" using r a(3) by (auto simp: set_update_where)
  from get_known [OF a(2) this] have "get (job_id r) db' = Some (to_job r\<lparr>state := DONE, result_ref := ref\<rparr>)"
    by (simp add: writes_keep_identity acked_row_def released_def to_job_def job.truncate_def)
  with undisturbed_call [OF env, of "\<lambda>now. ack now l ref" CAck] a(1,2) show ?thesis
    by (simp add: rmq_ack_def finallyA_def release_frame)
qed

lemma report_lands:
  assumes env: "undisturbed env" and ok: "db_ok (w_db (sup_world s))"
    and r: "r \<in> set (jobs (w_db (sup_world s)))" "fencing l r"
  shows "\<exists>s'. sup_report cfg env Stored l out s = (Inr (), s') \<and>
    (case out of
       Solved b t \<Rightarrow> get (job_id r) (w_db (sup_world s')) = Some (to_job r\<lparr>state := DONE, result_ref := Some (key_of l)\<rparr>) \<and>
         artifacts s' (key_of l) = Some (b, t)
     | Failed e tb permanent \<Rightarrow> get (job_id r) (w_db (sup_world s')) = Some (nacked_job e (to_job r))
     | Died c \<Rightarrow> get (job_id r) (w_db (sup_world s')) = Some (nacked_job (died_error c) (to_job r))) \<and>
    ((\<exists>b t. out = Solved b t) \<longrightarrow> db_ok (w_db (sup_world s')))"
proof -
  have nack: "\<exists>s'. sup_nack env l e rt s = (Inr (), s') \<and>
      get (job_id r) (w_db (sup_world s')) = Some (nacked_job e (to_job r))" for e rt
    using nack_lands [OF env ok r, of e rt] by (auto simp: sup_nack_def on_queue_def)
  show ?thesis
  proof (cases out)
    case (Solved b t)
    with ack_lands [OF env ok r, of "Some (key_of l)"] show ?thesis
      by (auto simp: sup_report_def sup_install_def s3_put_def on_queue_def Let_def)
  next
    case (Failed e tb permanent)
    with nack show ?thesis by (simp add: sup_report_def)
  next
    case (Died c)
    with nack show ?thesis by (simp add: sup_report_def)
  qed
qed

lemma report_fails_to_store:
  assumes env: "undisturbed env" and ok: "db_ok (w_db (sup_world s))"
    and r: "r \<in> set (jobs (w_db (sup_world s)))" "fencing l r"
    and put: "ans = Refused e \<or> ans = StoredThenFailed e"
  shows "\<exists>s'. sup_report cfg env ans l (Solved b t) s = (Inr (), s') \<and>
    get (job_id r) (w_db (sup_world s')) = Some (nacked_job (''writing the artifact failed: '' @ e) (to_job r))"
proof -
  define msg where "msg = ''writing the artifact failed: '' @ e"
  obtain w' where w': "rmq_nack env l msg (Some (retry_backoff cfg)) (sup_world s) = (Inr (), w')"
      "get (job_id r) (w_db w') = Some (nacked_job msg (to_job r))"
    using nack_lands [OF env ok r] by blast
  have "sup_nack env l msg (Some (retry_backoff cfg)) (s\<lparr>artifacts := objs\<rparr>) =
      (Inr (), s\<lparr>sup_world := w', artifacts := objs\<rparr>)" for objs
    using w'(1) by (simp add: sup_nack_def on_queue_def)
  moreover have "\<exists>objs. sup_report cfg env ans l (Solved b t) s =
      sup_nack env l msg (Some (retry_backoff cfg)) (s\<lparr>artifacts := objs\<rparr>)"
    using put by (intro exI [of _ "snd (s3_put ans (key_of l) b t (artifacts s))"])
      (auto simp: sup_report_def sup_install_def s3_put_def Let_def msg_def)
  ultimately show ?thesis using w'(2) unfolding msg_def [symmetric] by auto
qed

lemma failure_ignores_the_store:
  "\<nexists>b t. out = Solved b t \<Longrightarrow> sup_report cfg env ans l out s = sup_report cfg env ans' l out s"
  by (cases out) (simp_all add: sup_report_def)

text \<open>C35: End to end, a job's row tells what its solver did, when nothing else goes wrong: the worker's lease
  is live on the row, no heartbeat before the report fails or finds the job cancelled or the cap
  passed, the store and the broker answer the report and nobody else writes meanwhile. The worker
  spawns a child on the job's kind and payload and renews any number of times. Then: if the solver
  returned, the row is \<open>done\<close> and names an object holding exactly its bytes when the object store
  took them, and carries the object store's error when it did not; if it raised, the row carries the
  exception; if the process ended under it, the signal or the status; a kind nobody registered is
  named in the error. Every failure leaves the state to the attempts and the cancellation:
  \<open>nack_state\<close>.\<close>

theorem job_ends_as_its_solver_does:
  assumes "undisturbed (finishing sh)" "closing_child sh = Inr c"
    and "db_ok (w_db (sup_world s))" "r \<in> set (jobs (w_db (sup_world s)))" "fencing l r"
    and "\<forall>b \<in> set beats. renews cfg sh b" "beats \<noteq> [] \<longrightarrow> \<not> cancel_requested r"
    and "wakeups sh = beats @ w # ws"
    and "child_report w = Some (read_and_reap (run_child solvers (solve_request_of (l_job l))) exits)"
  shows "\<exists>h s'. watch_and_finish cfg sh l s = Some (Inr h, s') \<and>
    (case solvers (kind (l_job l)) of
       None \<Rightarrow> get (job_id r) (w_db (sup_world s')) =
         Some (nacked_job (''no solver registered for kind '' @ py_repr (kind (l_job l))) (to_job r))
     | Some f \<Rightarrow> (case f (payload (l_job l)) of
           Returns_bytes b t \<Rightarrow>
             (case putting sh of
                Stored \<Rightarrow>
                  get (job_id r) (w_db (sup_world s')) = Some (to_job r\<lparr>state := DONE, result_ref := Some (key_of l)\<rparr>) \<and>
                  artifacts s' (key_of l) = Some (b, t)
              | Refused e \<Rightarrow> get (job_id r) (w_db (sup_world s')) =
                  Some (nacked_job (''writing the artifact failed: '' @ e) (to_job r))
              | StoredThenFailed e \<Rightarrow> get (job_id r) (w_db (sup_world s')) =
                  Some (nacked_job (''writing the artifact failed: '' @ e) (to_job r)))
         | Raises_error ty msg tb \<Rightarrow>
             get (job_id r) (w_db (sup_world s')) = Some (nacked_job (ty @ '': '' @ msg) (to_job r))
         | Ends_process \<Rightarrow>
             get (job_id r) (w_db (sup_world s')) =
               Some (nacked_job (died_error (case exits of Some code \<Rightarrow> code | None \<Rightarrow> SIGKILL_CODE)) (to_job r))))"
proof -
  let ?out = "reported (read_and_reap (run_child solvers (solve_request_of (l_job l))) exits)"
  obtain l' r' s1 where l': "supervise cfg (began_at sh + solve_timeout cfg) l (wakeups sh) s =
       supervise cfg (began_at sh + solve_timeout cfg) l' (w # ws) s1"
      "db_ok (w_db (sup_world s1))" "r' \<in> set (jobs (w_db (sup_world s1)))" "fencing l' r'"
      "to_job r' = to_job r" "l_id l' = l_id l"
    using supervise_renews [OF assms(3-7), of "w # ws"] assms(8) by auto
  have id: "job_id r' = job_id r" "lease_job l' = lease_job l"
    using l'(4,5) assms(5) by (metis to_job_sel(1), metis fencing_def to_job_sel(1))
  let ?h = "\<lparr>h_lease = l', h_outcome = ?out, h_ending = COMPLETED\<rparr>"
  have sup: "supervise cfg (began_at sh + solve_timeout cfg) l (wakeups sh) s = Some (Inr ?h, s1)"
    by (simp add: l'(1) assms(9))
  have whole: "watch_and_finish cfg sh l s = Some (Inr ?h, s')"
    if "sup_report cfg (finishing sh) (putting sh) l' ?out s1 = (Inr (), s')" for s'
    using sup that assms(2) by (simp add: watch_and_finish_def sup_finish_def aclose_def)
  note lands = report_lands [OF assms(1) l'(2-4), of cfg ?out, unfolded id l'(5,6)]
  note lost = report_fails_to_store [OF assms(1) l'(2-4), where cfg = cfg, unfolded id l'(5)]
  note same = failure_ignores_the_store [of ?out cfg "finishing sh" "putting sh" l' s1 Stored]
  have out: "?out = (case solvers (kind (l_job l)) of
       None \<Rightarrow> Failed (''no solver registered for kind '' @ py_repr (kind (l_job l))) [] True
     | Some f \<Rightarrow> (case f (payload (l_job l)) of
           Returns_bytes b t \<Rightarrow> Solved b t
         | Raises_error ty msg tb \<Rightarrow> Failed (ty @ '': '' @ msg) tb False
         | Ends_process \<Rightarrow> Died (case exits of Some code \<Rightarrow> code | None \<Rightarrow> SIGKILL_CODE)))"
    by (simp add: reported_def read_and_reap_def run_child_def solve_child_def resolve_def solve_request_of_def
        split: option.splits solver_end.splits)
  show ?thesis
  proof (cases "\<exists>b t. ?out = Solved b t")
    case False
    then have "sup_report cfg (finishing sh) (putting sh) l' ?out s1 = sup_report cfg (finishing sh) Stored l' ?out s1"
      using same by blast
    with lands whole False show ?thesis unfolding out
      by (cases "solvers (kind (l_job l))"; cases "the (solvers (kind (l_job l))) (payload (l_job l))") auto
  next
    case True
    then obtain b t where bt: "?out = Solved b t" by blast
    then obtain f where f: "solvers (kind (l_job l)) = Some f" "f (payload (l_job l)) = Returns_bytes b t"
      unfolding out by (auto split: option.splits solver_end.splits)
    show ?thesis
    proof (cases "putting sh")
      case Stored
      with lands whole bt f show ?thesis by auto
    next
      case (Refused e)
      with lost [of "putting sh" e b t] whole bt f show ?thesis by auto
    next
      case (StoredThenFailed e)
      with lost [of "putting sh" e b t] whole bt f show ?thesis by auto
    qed
  qed
qed

text \<open>A child that reports after one heartbeat, its artifact stored or refused.\<close>

definition beating_shift :: "put_answer \<Rightarrow> shift" where
  "beating_shift ans = (demo_shift demo_env)\<lparr>putting := ans, wakeups := [quiet_beat 20000000 demo_env,
     (quiet_beat 40000000 demo_env)\<lparr>child_report := Some (Inr (Solved [1, 2] ''text/plain''))\<rparr>]\<rparr>"

theorem job_ends_as_its_solver_does_witness:
  "(\<exists>h s'. watch_and_finish default_config (beating_shift Stored) demo_lease demo_supervised = Some (Inr h, s') \<and>
      artifacts s' (key_of demo_lease) = Some ([1, 2], ''text/plain'')) \<and>
   (\<exists>h s'. watch_and_finish default_config (beating_shift (Refused ''full'')) demo_lease demo_supervised = Some (Inr h, s') \<and>
      get 1 (w_db (sup_world s')) = Some (nacked_job (''writing the artifact failed: '' @ ''full'')
        (to_job (claimed_row 10 100 ''w1'' 60 (new_row 5 1 demo_request)))))"
proof -
  let ?f = "\<lambda>_. Returns_bytes [1, 2] ''text/plain''"
  let ?b = "quiet_beat 20000000 demo_env"
  let ?w = "(quiet_beat 40000000 demo_env)\<lparr>child_report := Some (Inr (Solved [1, 2] ''text/plain''))\<rparr>"
  let ?row = "claimed_row 10 100 ''w1'' 60 (new_row 5 1 demo_request)"
  have db: "w_db (sup_world demo_supervised) = demo_running"
    by (simp add: demo_supervised_def demo_holding_def idle_world_def)
  have sh: "undisturbed (finishing (beating_shift ans))" "putting (beating_shift ans) = ans"
    "closing_child (beating_shift ans) = Inr (Solved [1, 2] ''text/plain'')" "wakeups (beating_shift ans) = [?b] @ ?w # []"
    "\<forall>b \<in> set [?b]. renews default_config (beating_shift ans) b" for ans
    by (simp_all add: beating_shift_def demo_shift_def undisturbed_def demo_env_def renews_def quiet_beat_def default_config_def)
  have row: "?row \<in> set (jobs (w_db (sup_world demo_supervised)))" "db_ok (w_db (sup_world demo_supervised))"
    "job_id ?row = 1" "[?b] \<noteq> [] \<longrightarrow> \<not> cancel_requested ?row"
    using demo_running_ok by (simp_all add: db demo_running_jobs sys_ok_def) (simp_all add: claimed_row_def new_row_def)
  have rep: "child_report ?w =
      Some (read_and_reap (run_child (\<lambda>_. Some ?f) (solve_request_of (l_job demo_lease))) (Some 0))"
    by (simp add: read_and_reap_def run_child_def solve_child_def resolve_def)
  note ends = job_ends_as_its_solver_does [OF sh(1,3) row(2,1) demo_running_fenced sh(5) row(4) sh(4) rep,
      unfolded sh(2) row(3)]
  show ?thesis using ends [of Stored] ends [of "Refused ''full''"] by auto
qed

text \<open>A nack of a cancelled job republishes nothing.\<close>

lemma cancelled_nack_quiet:
  assumes env: "undisturbed env" and row: "db_ok (w_db w)" "r \<in> set (jobs (w_db w))" "fencing l r"
    and cr: "cancel_requested r" and n: "rmq_nack env l err None w = (Inr (), w')"
  shows "on_the_wire w' = on_the_wire w"
proof -
  obtain db' where db': "nack (clock env CNack) l err None (w_db w) =
      Inr (to_job (nacked_row (clock env CNack) err None r), db')"
    using nack_live [OF row, of "clock env CNack" err None] by blast
  let ?w1 = "w\<lparr>w_db := db'\<rparr>"
  have "store_call env CNack (\<lambda>now. nack now l err None) w =
      (Inr (to_job (nacked_row (clock env CNack) err None r)), ?w1)"
    by (rule undisturbed_call [OF env]) (use db' in simp)
  then have "w' = release (lease_job l) (Some (l_id l)) ?w1"
    using n cr by (simp add: rmq_nack_def thenA_def finallyA_def nacked_row_def released_def nack_state_def returnA_def)
  then show ?thesis using on_the_wire_frame [of ?w1 w] by (simp add: on_the_wire_release)
qed

text \<open>C36: A cancelled job ends cancelled, whatever its child does. The first heartbeat that reads the
  request stops the child, and even if the child turns out to have finished its solve the row
  becomes \<open>cancelled\<close> and the outcome handed on is the one the stop returned, nothing is uploaded and nothing is offered to the broker again.\<close>

theorem cancelled_job_ends_cancelled:
  assumes "db_ok (w_db (sup_world s))" "r \<in> set (jobs (w_db (sup_world s)))" "fencing l r" "cancel_requested r"
    and "wakeups sh = w # ws" "child_report w = None" "\<not> asked_to_stop w" "woke_at w < began_at sh + solve_timeout cfg"
    and "undisturbed (beat w)" "undisturbed (finishing sh)" "when_stopped w = Inr out" "closing_child sh = Inr out"
  shows "\<exists>h s' j. watch_and_finish cfg sh l s = Some (Inr h, s') \<and> h_ending h = CANCELLED_WHILE_RUNNING \<and>
    h_outcome h = out \<and> get (job_id r) (w_db (sup_world s')) = Some j \<and> state j = CANCELLED \<and>
    artifacts s' = artifacts s \<and> on_the_wire (sup_world s') = on_the_wire (sup_world s)"
proof -
  let ?now = "clock (beat w) CExtend" and ?d = "lease_for cfg" and ?w = "sup_world s"
  let ?row = "extended_row ?now ?d r"
  let ?l = "\<lparr>l_id = l_id l, l_job = to_job ?row, l_owner = l_owner l, l_expires_at = ?now + ?d\<rparr>"
  let ?db = "w_db ?w\<lparr>jobs := update_where (fencing l) (extended_row ?now ?d) (jobs (w_db ?w))\<rparr>"
  let ?s1 = "s\<lparr>sup_world := ?w\<lparr>w_db := ?db\<rparr>\<rparr>"
  note ext = extend_live [OF assms(1-3), of ?now ?d]
  have beat: "sup_extend cfg (beat w) l s = (Renewed ?l, ?s1)"
    using undisturbed_call [OF assms(9), of "\<lambda>now. Job_Store.extend now l ?d" CExtend ?w] ext(1)
    by (simp add: sup_extend_def on_queue_def rmq_extend_def)
  have cr: "cancel_requested ?row" using assms(4) by (simp add: extended_row_def)
  let ?h = "\<lparr>h_lease = ?l, h_outcome = out, h_ending = CANCELLED_WHILE_RUNNING\<rparr>"
  have sup: "supervise cfg (began_at sh + solve_timeout cfg) l (wakeups sh) s = Some (Inr ?h, ?s1)"
    using assms(5-8,11) beat cr by (simp add: kill_def)
  have row: "?row \<in> set (jobs ?db)" "fencing ?l ?row"
    using assms(2,3) by (auto simp: set_update_where fencing_def extended_row_def)
  let ?n = "rmq_nack (finishing sh) ?l ''cancelled while running'' None"
  obtain w' where n: "?n (sup_world ?s1) = (Inr (), w')"
    and got: "get (job_id ?row) (w_db w') = Some (nacked_job ''cancelled while running'' (to_job ?row))"
    using nack_lands [OF assms(10), of "sup_world ?s1" ?row ?l "''cancelled while running''" None] ext(2) row by auto
  have quiet: "on_the_wire w' = on_the_wire ?w"
    using cancelled_nack_quiet [OF assms(10), of "sup_world ?s1" ?row ?l] ext(2) row cr n
      on_the_wire_frame [of "sup_world ?s1" ?w] by simp
  have "watch_and_finish cfg sh l s = Some (Inr ?h, ?s1\<lparr>sup_world := w'\<rparr>)"
    using sup n assms(12) by (simp add: watch_and_finish_def sup_finish_def sup_nack_def on_queue_def aclose_def)
  moreover have "state (nacked_job ''cancelled while running'' (to_job ?row)) = CANCELLED"
    using cr by (simp add: nacked_job_def nack_state_def)
  ultimately show ?thesis
    using got quiet by (intro exI [of _ ?h] exI [of _ "?s1\<lparr>sup_world := w'\<rparr>"]) (auto simp: writes_keep_identity)
qed

definition demo_cancelled :: supervised where
  "demo_cancelled = \<lparr>sup_world = demo_holding\<lparr>w_db := run [Cancel 12 1] demo_running\<rparr>,
     artifacts = (\<lambda>_. None)\<rparr>"

theorem cancelled_job_ends_cancelled_witness:
  "\<exists>h s'. watch_and_finish default_config
     ((demo_shift demo_env)\<lparr>wakeups := [quiet_beat 20000000 demo_env], closing_child := Inr (Died (-15))\<rparr>)
     demo_lease demo_cancelled = Some (Inr h, s') \<and> h_ending h = CANCELLED_WHILE_RUNNING"
proof -
  let ?sh = "(demo_shift demo_env)\<lparr>wakeups := [quiet_beat 20000000 demo_env], closing_child := Inr (Died (-15))\<rparr>"
  let ?db = "run [Cancel 12 1] demo_running" and ?w = "quiet_beat 20000000 demo_env"
  let ?row = "cancelled_row 12 (claimed_row 10 100 ''w1'' 60 (new_row 5 1 demo_request))"
  have db: "w_db (sup_world demo_cancelled) = ?db" by (simp add: demo_cancelled_def)
  have "sys_ok ?db" by (rule run_sys_ok [OF demo_running_ok])
  then have ok: "db_ok (w_db (sup_world demo_cancelled))" unfolding db by (simp add: sys_ok_def)
  have "jobs ?db = [?row]"
    by (simp add: cancel_def Let_def demo_running_jobs commit_def) (simp add: cancelled_row_def claimed_row_def new_row_def)
  then have row: "?row \<in> set (jobs (w_db (sup_world demo_cancelled)))" unfolding db by simp
  have fen: "fencing demo_lease ?row" "cancel_requested ?row"
    using demo_running_fenced by (simp_all add: fencing_def cancelled_row_def)
  have env: "undisturbed (beat ?w)" "undisturbed (finishing ?sh)"
    by (simp_all add: quiet_beat_def demo_shift_def undisturbed_def demo_env_def)
  have w: "wakeups ?sh = [?w]" "child_report ?w = None" "\<not> asked_to_stop ?w"
    "woke_at ?w < began_at ?sh + solve_timeout default_config"
    "when_stopped ?w = Inr (Died (-15))" "closing_child ?sh = Inr (Died (-15))"
    by (simp_all add: quiet_beat_def demo_shift_def default_config_def)
  from cancelled_job_ends_cancelled [OF ok row fen w(1-4) env w(5,6)] show ?thesis by blast
qed

subsection \<open>An artifact is never overwritten\<close>

text \<open>A turn puts at most one object, under its own attempt's key.\<close>

lemma watch_puts:
  assumes "watch_and_finish cfg sh l s = Some (r, s')"
  shows "\<exists>ops. (\<forall>op \<in> set ops. op_key op = key_of l) \<and>
     artifacts s' = fold (object_step (s3_put Stored) s3_delete) ops (artifacts s)"
  using watch_artifacts [OF assms]
proof (elim disjE exE)
  fix x
  assume "artifacts s' = (artifacts s)(key_of l \<mapsto> x)"
  then show ?thesis
    by (intro exI [of _ "[Put (key_of l) (fst x) (snd x)]"]) (simp add: s3_put_def)
qed (auto intro: exI [of _ "[]"])

lemma claim_token: "claim now t j owner dur db = Inr (Some l, db') \<Longrightarrow> l_id l = t"
  by (auto simp: claim_def Let_def result_simps split: list.splits)

lemma reserved_token: "reserve_from env owner dur ms w = (Inr (Some l), w') \<Longrightarrow> \<exists>n. l_id l = mint env n"
proof (induction env owner dur ms w rule: reserve_from.induct)
  case (2 env owner dur m ms w)
  obtain jid where jid: "Option.bind (d_body m) uuid_parse = Some jid"
    using 2(2) by (auto simp: Let_def split: option.splits)
  let ?call = "store_call env (CClaim (d_tag m)) (\<lambda>now. claim now (mint env (d_tag m)) jid owner dur)"
  obtain c w2 where c: "?call (w\<lparr>incoming := ms\<rparr>) = (Inr c, w2)"
    using 2(2) jid by (auto simp: Let_def thenA_def split: prod.splits sum.splits)
  show ?case
  proof (cases c)
    case None
    with 2 jid c show ?thesis by (simp add: Let_def thenA_def)
  next
    case (Some k)
    then have "k = l" using 2(2) jid c by (simp add: Let_def thenA_def)
    moreover have "\<exists>now db db'. claim now (mint env (d_tag m)) jid owner dur db = Inr (Some k, db')"
      using c Some by (auto simp: store_call_def call_txn_def Let_def split: link.splits sum.splits option.splits prod.splits)
    ultimately show ?thesis using claim_token by blast
  qed
qed simp

lemma turn_reads:
  assumes "run_once cfg owner sh s = Some (r, s')" "\<forall>n. mint (reserving sh) n \<noteq> t"
  shows "s3_read (artifact_key j t) (artifacts s') = s3_read (artifact_key j t) (artifacts s)"
proof (rule run_once_cases [OF assms(1)])
  fix l s1 q
  assume rs: "rmq_reserve (reserving sh) owner (lease_for cfg) (sup_world s) = (Inr (Some l), sup_world s1)"
    and arts: "artifacts s1 = artifacts s" and q: "watch_and_finish cfg sh l s1 = Some (q, s')"
  have "l_id l \<noteq> t" using reserved_token [OF rs [unfolded rmq_reserve_def]] assms(2) by auto
  then have "key_of l \<noteq> artifact_key j t" by (simp add: artifact_key_inj)
  with watch_puts [OF q] arts show ?thesis by (auto intro!: s3store.steps_apart)
qed simp

text \<open>C38: An artifact is written once and never again. After the attempt with the token \<open>t\<close> has stored its
  bytes, whatever the worker does next, over any number of jobs and of further attempts at the same
  job, with uploads that fail before or after they took effect, reading the key returns exactly
  those bytes: tokens are fresh, and the key holds the token.\<close>

theorem artifacts_are_immutable:
  assumes "sup_run cfg owner shs s = Some s'" "\<forall>p \<in> set shs. \<forall>n. mint (reserving (snd p)) n \<noteq> t"
    and "s3_put Stored (artifact_key j t) b ty objs = (Inr (), artifacts s)"
  shows "s3_read (artifact_key j t) (artifacts s') = Inr b"
proof -
  have "s3_read (artifact_key j t) (artifacts s') = s3_read (artifact_key j t) (artifacts s)"
    using assms(1,2)
  proof (induction cfg owner shs s rule: sup_run.induct)
    case (2 cfg owner stopping sh shs s)
    show ?case
    proof (cases stopping)
      case False
      then obtain r s1 where s1: "run_once cfg owner sh s = Some (r, s1)" "sup_run cfg owner shs s1 = Some s'"
        using 2(2) by (auto split: option.splits)
      have "s3_read (artifact_key j t) (artifacts s1) = s3_read (artifact_key j t) (artifacts s)"
        by (rule turn_reads [OF s1(1)]) (use 2(3) in simp)
      with 2(1) [OF False s1(1) refl s1(2)] 2(3) show ?thesis by simp
    qed (use 2 in simp)
  qed simp
  with s3store.put_read [OF assms(3)] show ?thesis by simp
qed

theorem artifacts_are_immutable_witness:
  "\<exists>s'. sup_run default_config ''w1'' [(False, demo_shift demo_env)]
       (offered\<lparr>artifacts := [artifact_key 1 99 \<mapsto> ([7], ''text/plain'')]\<rparr>) = Some s' \<and>
     s3_read (artifact_key 1 99) (artifacts s') = Inr [7]"
proof -
  let ?objs = "[artifact_key 1 99 \<mapsto> ([7 :: 8 word], ''text/plain'')]"
  let ?s = "offered\<lparr>artifacts := ?objs\<rparr>"
  have "\<exists>r s'. run_once default_config ''w1'' (demo_shift demo_env) ?s = Some (r, s')"
    using offered_turn [of ?s demo_env] by auto
  then obtain s' where run: "sup_run default_config ''w1'' [(False, demo_shift demo_env)] ?s = Some s'" by auto
  have fresh: "\<forall>p \<in> set [(False, demo_shift demo_env)]. \<forall>n. mint (reserving (snd p)) n \<noteq> 99"
    by (simp add: demo_shift_def demo_env_def)
  have "s3_put Stored (artifact_key 1 99) [7] ''text/plain'' (\<lambda>_. None) = (Inr (), artifacts ?s)"
    by (simp add: s3_put_def)
  from artifacts_are_immutable [OF run fresh this] run show ?thesis by blast
qed

subsection \<open>Where it does not hold\<close>

lemma torn_watch:
  assumes "wakeups sh = w # ws" "child_report w = None"
    and "asked_to_stop w \<or> began_at sh + solve_timeout cfg \<le> woke_at w"
    and "when_stopped w = Inl e" "closing_child sh = Inl e"
  shows "watch_and_finish cfg sh l s = Some (Inl (CollectorError e), s)"
proof -
  have "supervise cfg (began_at sh + solve_timeout cfg) l (wakeups sh) s = Some (Inl (CollectorError e), s)"
    using assms(1-4) by (auto simp: kill_def)
  with assms(5) show ?thesis by (simp add: watch_and_finish_def aclose_def)
qed

text \<open>C37: A report torn by the kill loses the turn. A child stopped while it is writing its outcome leaves
  the pipe closed in the middle of a message; the parent's read raises an exception it does not
  expect, which escapes \<open>stop\<close>, the watch and the turn. From an idle consumer, the turn then ends
  exactly where its reserve left it: the job claimed under the worker's token, nothing reported, its
  delivery held and outstanding, so that at prefetch one the worker is offered nothing until the
  lease lapses and a sweep releases it. (A child that never started ends the turn at the same place.)\<close>

theorem torn_report_keeps_the_slot:
  assumes "slots_ok (sup_world s)" "held (sup_world s) = (\<lambda>_. None)"
    and reserve: "rmq_reserve (reserving sh) owner (lease_for cfg) (sup_world s) = (Inr (Some l), w1)"
    and watch: "wakeups sh = w # ws" "child_report w = None"
      "asked_to_stop w \<or> began_at sh + solve_timeout cfg \<le> woke_at w"
    and torn: "when_stopped w = snd (stop_child True within_grace after_kill)" "closing_child sh = when_stopped w"
      "(case within_grace of Some p \<Rightarrow> fst p | None \<Rightarrow> fst after_kill) = Torn e"
  shows "run_once cfg owner sh s = Some (Inl (if link_of (reserving sh) CSpawn = Works then CollectorError e
      else SpawnError), s\<lparr>sup_world := w1\<rparr>) \<and>
    (\<exists>m \<in> set (incoming (sup_world s)). held w1 (lease_job l) = Some (l_id l, m) \<and> m \<in> set (unacked w1))"
proof -
  have "when_stopped w = Inl e" "closing_child sh = Inl e"
    using torn by (auto simp: stop_child_def read_and_reap_def split: option.splits)
  from torn_watch [OF watch this] reserve
  have "run_once cfg owner sh s = Some (Inl (if link_of (reserving sh) CSpawn = Works then CollectorError e
      else SpawnError), s\<lparr>sup_world := w1\<rparr>)"
    by (simp add: run_once_def on_queue_def)
  moreover have "slots_ok w1 \<and> (\<exists>m \<in> set (incoming (sup_world s)).
      held w1 = (held (sup_world s))(lease_job l \<mapsto> (l_id l, m)))"
    using reserve_from_slots [OF assms(1) refl reserve [unfolded rmq_reserve_def]] assms(2) by simp
  ultimately show ?thesis by (fastforce simp: slots_ok_def in_hand_def)
qed

theorem torn_report_keeps_the_slot_witness:
  "\<exists>s'. run_once default_config ''w1'' ((demo_shift demo_env)
       \<lparr>wakeups := [(quiet_beat 600000000 demo_env)\<lparr>when_stopped := Inl ''got end of file during message''\<rparr>],
        closing_child := Inl ''got end of file during message''\<rparr>) offered =
     Some (Inl (CollectorError ''got end of file during message''), s') \<and> unacked (sup_world s') \<noteq> []"
proof -
  let ?e = "''got end of file during message''"
  let ?w = "(quiet_beat 600000000 demo_env)\<lparr>when_stopped := Inl ?e\<rparr>"
  let ?sh = "(demo_shift demo_env)\<lparr>wakeups := [?w], closing_child := Inl ?e\<rparr>"
  obtain l w1 where r: "rmq_reserve (reserving ?sh) ''w1'' (lease_for default_config) (sup_world offered) = (Inr (Some l), w1)"
    using offered_reserve unfolding demo_shift_def by fastforce
  have w: "wakeups ?sh = [?w]" "child_report ?w = None"
    "asked_to_stop ?w \<or> began_at ?sh + solve_timeout default_config \<le> woke_at ?w"
    "when_stopped ?w = snd (stop_child True (Some (Torn ?e, None)) (Closed, None))" "closing_child ?sh = when_stopped ?w"
    "(case Some (Torn ?e, None :: int option) of Some p \<Rightarrow> fst p | None \<Rightarrow> Closed) = Torn ?e"
    by (simp_all add: demo_shift_def quiet_beat_def default_config_def stop_child_def read_and_reap_def)
  have "link_of (reserving ?sh) CSpawn = Works" by (simp add: demo_shift_def demo_env_def)
  with torn_report_keeps_the_slot [OF offered_slots r w(1-5), of ?e] show ?thesis by (auto simp: w)
qed

text \<open>The third heartbeat comes too late. With the settings the code ships, whatever the first two beats
  cost, the third does not start before the lease taken with the job has run out: two failures in a
  row do not leave an attempt before the deadline.\<close>

theorem third_heartbeat_is_at_the_deadline:
  assumes "from_settings default_settings = Inr cfg"
    and "paced cfg (t0 + solve_timeout cfg) t0 (w1 # w2 # w3 # ws)"
    and "\<forall>w \<in> {w1, w2, w3}. child_report w = None \<and> \<not> asked_to_stop w"
  shows "t0 + lease_for cfg \<le> woke_at w3"
proof -
  have cfg: "lease_for cfg = 60000000" "extend_every cfg = 20000000" "solve_timeout cfg = 600000000"
    using assms(1) by (auto simp: from_settings_def default_settings_def post_init_def)
  have "t0 + 20000000 \<le> woke_at w1" using assms(2,3) by (simp add: cfg)
  moreover have "woke_at w1 + min 20000000 (max (t0 + 600000000 - woke_at w1) 0) \<le> woke_at w2"
    "woke_at w2 + min 20000000 (max (t0 + 600000000 - woke_at w2) 0) \<le> woke_at w3"
    using assms(2,3) by (simp_all add: cfg)
  ultimately show ?thesis unfolding cfg by (auto simp: min_def max_def split: if_splits)
qed

theorem third_heartbeat_is_at_the_deadline_witness:
  "lease_for default_config \<le> woke_at (quiet_beat 60000000 silent_env)"
proof -
  have "from_settings default_settings = Inr default_config"
    by (simp add: from_settings_def default_settings_def post_init_def default_config_def)
  from third_heartbeat_is_at_the_deadline [OF this, of 0 "quiet_beat 20000000 silent_env"
      "quiet_beat 40000000 silent_env" "quiet_beat 60000000 silent_env" "[]"]
  show ?thesis by (simp add: quiet_beat_def default_config_def)
qed

end
