(* ===== verification/Solvers.thy ===== *)
theory Solvers
  imports Solve
begin

text \<open>
  \<open>worker/solvers.py\<close>: the registry of one and its synthetic solver. The machine it runs on is a
  record: the readings of \<open>time.monotonic\<close> in the order they are taken, what \<open>touch\<close> and \<open>time.sleep\<close>
  raise, the process id, and the library functions whose text or rounding the source does not fix
  (\<open>json.dumps\<close>, \<open>repr\<close> of a float, reading one from a text or an integer, \<open>traceback.format_exc\<close>). A
  float is the rational it denotes. Exceptions carry the name of their class and their text.

  A burn that never reaches its deadline does not return, which is the value \<open>None\<close>.
\<close>

type_synonym exn = "string \<times> string"

record machine =
  getpid :: int
  monotonic :: "nat \<Rightarrow> rat"
  touch :: "json \<Rightarrow> exn option"
  time_sleep :: "rat \<Rightarrow> exn option"
  float_of_int :: "int \<Rightarrow> exn + rat"
  float_of_text :: "string \<Rightarrow> exn + rat"
  float_repr :: "rat \<Rightarrow> string"
  dumps :: "(string \<times> json) list \<Rightarrow> string"
  format_exc :: string

subsection \<open>Conversions\<close>

definition conversion_error :: "string \<Rightarrow> json \<Rightarrow> exn" where
  "conversion_error what j = (''TypeError'', what @ '', not '' @ py_repr (json_type j))"

fun py_float :: "machine \<Rightarrow> json \<Rightarrow> exn + rat" where
  "py_float m (JReal q) = Inr q"
| "py_float m (JInt n) = float_of_int m n"
| "py_float m (JBool b) = Inr (if b then 1 else 0)"
| "py_float m (JStr s) = float_of_text m s"
| "py_float m j = Inl (conversion_error ''float() argument must be a string or a real number'' j)"

definition int_text_error :: "string \<Rightarrow> exn" where
  "int_text_error s = (''ValueError'', ''invalid literal for int() with base 10: '' @ py_repr s)"

fun py_int :: "json \<Rightarrow> exn + int" where
  "py_int (JReal q) = Inr (if q < 0 then \<lceil>q\<rceil> else \<lfloor>q\<rfloor>)"
| "py_int (JInt n) = Inr n"
| "py_int (JBool b) = Inr (if b then 1 else 0)"
| "py_int (JStr s) = (case int_base10 s of Some n \<Rightarrow> Inr n | None \<Rightarrow> Inl (int_text_error s))"
| "py_int j = Inl (conversion_error ''int() argument must be a string, a bytes-like object or a real number'' j)"

definition lookup_or :: "payload \<Rightarrow> string \<Rightarrow> json \<Rightarrow> json" where
  "lookup_or p k d = (case map_of p k of Some j \<Rightarrow> j | None \<Rightarrow> d)"

text \<open>\<open>payload.get(k)\<close> where only its truth is used.\<close>

definition asked_for :: "payload \<Rightarrow> string \<Rightarrow> bool" where
  "asked_for p k \<longleftrightarrow> truthy (lookup_or p k JNull)"

definition round4 :: "rat \<Rightarrow> rat" where
  "round4 q = of_int (round_half_even (q * 10000)) / 10000"

subsection \<open>Holding a processor\<close>

definition BURN_BATCH :: nat where
  "BURN_BATCH = 10000"

definition burn_mix :: "int \<Rightarrow> int" where
  "burn_mix x = (x * 31 + 7) mod 1000003"

partial_function (option) burn_loop :: "(nat \<Rightarrow> rat) \<Rightarrow> rat \<Rightarrow> nat \<Rightarrow> int \<Rightarrow> (nat \<times> int) option" where
  "burn_loop clock deadline i x =
     (if clock i < deadline then burn_loop clock deadline (Suc i) ((burn_mix ^^ BURN_BATCH) x)
      else Some (Suc i, x))"

declare burn_loop.simps [code]

text \<open>\<open>_burn\<close> from the reading \<open>i\<close> on: the readings used up and the number it ends with.\<close>

definition burn :: "(nat \<Rightarrow> rat) \<Rightarrow> nat \<Rightarrow> rat \<Rightarrow> (nat \<times> int) option" where
  "burn clock i secs = burn_loop clock (clock i + secs) (Suc i) 0"

subsection \<open>The solver\<close>

datatype syn_effect = Ignores_sigterm | Touches json | Sleeps rat | Burns rat

definition body_of :: "machine \<Rightarrow> rat \<Rightarrow> rat \<Rightarrow> rat \<Rightarrow> int \<Rightarrow> (string \<times> json) list" where
  "body_of m elapsed slept burned padding =
     [(''solver'', JStr ''synthetic''),
      (''pid'', JInt (getpid m)),
      (''elapsed_seconds'', JReal (round4 elapsed)),
      (''slept_seconds'', JReal slept),
      (''burned_seconds'', JReal burned),
      (''padding'', JStr (replicate (nat padding) (CHR ''x'')))]"

text \<open>\<open>.encode()\<close> of a text of ASCII characters, which \<open>dumps\<close> gives by default.\<close>

definition encode_ascii :: "string \<Rightarrow> bytes" where
  "encode_ascii s = map of_char s"

definition raised :: "machine \<Rightarrow> exn \<Rightarrow> solver_end" where
  "raised m e = Raises_error (fst e) (snd e) (format_exc m)"

definition syn_finish :: "machine \<Rightarrow> payload \<Rightarrow> rat \<Rightarrow> rat \<Rightarrow> rat \<Rightarrow> solver_end" where
  "syn_finish m p elapsed slept burned =
     (if asked_for p ''raise_error''
      then raised m (''RuntimeError'', json_str (float_repr m) (lookup_or p ''raise_error'' JNull))
      else case py_int (lookup_or p ''padding_bytes'' (JInt 0)) of
        Inl e \<Rightarrow> raised m e
      | Inr n \<Rightarrow> Returns_bytes (encode_ascii (dumps m (body_of m elapsed slept burned n))) ''application/json'')"

definition syn_burns :: "machine \<Rightarrow> payload \<Rightarrow> rat \<Rightarrow> (syn_effect list \<times> solver_end) option" where
  "syn_burns m p slept =
     (case py_float m (lookup_or p ''burn_seconds'' (JReal 0)) of
        Inl e \<Rightarrow> Some ([], raised m e)
      | Inr q \<Rightarrow>
          if q = 0 then Some ([], syn_finish m p (monotonic m 1 - monotonic m 0) slept q)
          else case burn (monotonic m) 1 q of
            None \<Rightarrow> None
          | Some (j, x) \<Rightarrow> Some ([Burns q], syn_finish m p (monotonic m j - monotonic m 0) slept q))"

definition syn_sleeps :: "machine \<Rightarrow> payload \<Rightarrow> (syn_effect list \<times> solver_end) option" where
  "syn_sleeps m p =
     (case py_float m (lookup_or p ''sleep_seconds'' (JReal 0)) of
        Inl e \<Rightarrow> Some ([], raised m e)
      | Inr q \<Rightarrow>
          if q = 0 then syn_burns m p q
          else case time_sleep m q of
            Some e \<Rightarrow> Some ([], raised m e)
          | None \<Rightarrow> map_option (\<lambda>(effs, r). (Sleeps q # effs, r)) (syn_burns m p q))"

definition synthetic :: "machine \<Rightarrow> payload \<Rightarrow> (syn_effect list \<times> solver_end) option" where
  "synthetic m p =
     (let ignores = (if asked_for p ''ignore_sigterm'' then [Ignores_sigterm] else []);
          ready = lookup_or p ''ready_file'' JNull;
          go_on = (\<lambda>effs. if asked_for p ''crash'' then Some (effs, Ends_process)
                          else map_option (\<lambda>(effs', r). (effs @ effs', r)) (syn_sleeps m p))
      in if truthy ready then
           case touch m ready of
             Some e \<Rightarrow> Some (ignores, raised m e)
           | None \<Rightarrow> go_on (ignores @ [Touches ready])
         else go_on ignores)"

text \<open>A solver that never returns ends with its process.\<close>

definition synthetic_end :: "machine \<Rightarrow> payload \<Rightarrow> solver_end" where
  "synthetic_end m p = (case synthetic m p of Some (effs, r) \<Rightarrow> r | None \<Rightarrow> Ends_process)"

definition SOLVERS :: "machine \<Rightarrow> registry'" where
  "SOLVERS m = [''synthetic'' \<mapsto> synthetic_end m]"

subsection \<open>The burn ends\<close>

lemma burn_mix_range: "0 \<le> burn_mix x \<and> burn_mix x < 1000003"
  by (simp add: burn_mix_def)

lemma burn_batch_range: "0 \<le> x \<and> x < 1000003 \<Longrightarrow> 0 \<le> (burn_mix ^^ n) x \<and> (burn_mix ^^ n) x < 1000003"
  by (induction n) (auto simp: burn_mix_range)

lemma burn_loop_ends:
  assumes "\<not> clock (i + k) < deadline" "\<forall>j < k. clock (i + j) < deadline"
  shows "burn_loop clock deadline i x = Some (Suc (i + k), ((burn_mix ^^ BURN_BATCH) ^^ k) x)"
  using assms
proof (induction k arbitrary: i x)
  case 0
  then show ?case by (simp add: burn_loop.simps)
next
  case (Suc k)
  from Suc.prems(2) have "clock i < deadline" by force
  moreover have "\<forall>j < k. clock (Suc i + j) < deadline"
    using Suc.prems(2) by (metis Suc_less_eq add_Suc_right add_Suc_shift)
  moreover have "\<not> clock (Suc i + k) < deadline" using Suc.prems(1) by simp
  ultimately have "burn_loop clock deadline i x =
      Some (Suc (Suc i + k), ((burn_mix ^^ BURN_BATCH) ^^ k) ((burn_mix ^^ BURN_BATCH) x))"
    using Suc.IH [of "Suc i"] by (simp add: burn_loop.simps [of _ _ i])
  then show ?case by (simp only: funpow_Suc_right o_apply add_Suc_right add_Suc)
qed

text \<open>A clock on which every batch, and every other step between two readings, takes at least \<open>d\<close>.\<close>

definition ticks :: "rat \<Rightarrow> (nat \<Rightarrow> rat) \<Rightarrow> bool" where
  "ticks d clock \<longleftrightarrow> 0 < d \<and> (\<forall>k. clock k + d \<le> clock (Suc k))"

lemma ticks_apart: "ticks d clock \<Longrightarrow> clock i + of_nat k * d \<le> clock (i + k)"
proof (induction k)
  case 0
  then show ?case by simp
next
  case (Suc k)
  then have "clock (i + k) + d \<le> clock (i + Suc k)" by (simp add: ticks_def)
  with Suc show ?case by (simp add: algebra_simps)
qed

lemma ticks_mono:
  assumes "ticks d clock" "i \<le> j"
  shows "clock i \<le> clock j"
proof -
  have "0 \<le> of_nat (j - i) * d" using assms(1) by (simp add: ticks_def)
  with ticks_apart [OF assms(1), of i "j - i"] assms(2) show ?thesis by simp
qed

lemma ticks_reach:
  assumes "ticks d clock"
  shows "clock i + q \<le> clock (Suc i + nat \<lceil>q / d\<rceil>)"
proof -
  have d: "0 < d" using assms by (simp add: ticks_def)
  have "q / d \<le> of_int \<lceil>q / d\<rceil>" by simp
  also have "\<dots> \<le> of_nat (Suc (nat \<lceil>q / d\<rceil>))" by (cases "0 \<le> \<lceil>q / d\<rceil>") auto
  finally have "q \<le> of_nat (Suc (nat \<lceil>q / d\<rceil>)) * d" using d by (simp add: pos_divide_le_eq)
  moreover have "clock i + of_nat (Suc (nat \<lceil>q / d\<rceil>)) * d \<le> clock (i + Suc (nat \<lceil>q / d\<rceil>))"
    by (rule ticks_apart [OF assms])
  ultimately show ?thesis by simp
qed

lemma burn_ends:
  assumes "ticks d clock"
  obtains k x where "burn clock i q = Some (Suc (Suc i + k), x)" "0 \<le> x" "x < 1000003"
    and "clock i + q \<le> clock (Suc i + k)" "\<forall>j < k. clock (Suc i + j) < clock i + q"
    and "k \<le> nat \<lceil>q / d\<rceil>"
proof -
  let ?late = "\<lambda>k. \<not> clock (Suc i + k) < clock i + q"
  define k where "k = (LEAST k. ?late k)"
  have K: "?late (nat \<lceil>q / d\<rceil>)" using ticks_reach [OF assms, of i q] by simp
  have late: "?late k" unfolding k_def by (rule LeastI [of ?late, OF K])
  have early: "\<forall>j < k. clock (Suc i + j) < clock i + q"
    using not_less_Least [of _ ?late] unfolding k_def by blast
  have "k \<le> nat \<lceil>q / d\<rceil>" unfolding k_def by (rule Least_le [of ?late, OF K])
  moreover have "0 \<le> (((burn_mix ^^ BURN_BATCH) ^^ k) 0) \<and> (((burn_mix ^^ BURN_BATCH) ^^ k) 0) < 1000003"
    using burn_batch_range [of 0 "BURN_BATCH * k"] by (simp add: funpow_mult mult.commute)
  moreover have "burn clock i q = Some (Suc (Suc i + k), ((burn_mix ^^ BURN_BATCH) ^^ k) 0)"
    unfolding burn_def by (rule burn_loop_ends [OF late early])
  ultimately show ?thesis using that late early by (meson not_less)
qed

text \<open>A burn ends, and holds the processor for as long as it was asked: on a clock that advances by
  at least \<open>d\<close> between two readings it returns after at most \<open>secs / d\<close> batches, its last reading is
  at or past the deadline and every earlier one before it, and its number stays in range.\<close>

theorem burn_holds_the_cpu:
  assumes "ticks d clock"
  shows "\<exists>k x. burn clock i secs = Some (Suc (Suc i + k), x) \<and> int k \<le> max 0 \<lceil>secs / d\<rceil> \<and>
     clock i + secs \<le> clock (Suc i + k) \<and> (\<forall>j < k. clock (Suc i + j) < clock i + secs) \<and>
     0 \<le> x \<and> x < 1000003"
proof -
  obtain k x where "burn clock i secs = Some (Suc (Suc i + k), x)" "0 \<le> x" "x < 1000003"
    and "clock i + secs \<le> clock (Suc i + k)" "\<forall>j < k. clock (Suc i + j) < clock i + secs"
    and k: "k \<le> nat \<lceil>secs / d\<rceil>"
    by (rule burn_ends [OF assms])
  moreover have "int k \<le> max 0 \<lceil>secs / d\<rceil>" using k by linarith
  ultimately show ?thesis by blast
qed

definition demo_clock :: "nat \<Rightarrow> rat" where
  "demo_clock k = of_nat k / 2"

lemma demo_clock_ticks: "ticks (1/2) demo_clock"
  by (simp add: ticks_def demo_clock_def field_simps)

theorem burn_holds_the_cpu_witness:
  "\<exists>k x. burn demo_clock 1 2 = Some (Suc (Suc 1 + k), x) \<and> int k \<le> max 0 \<lceil>2 / (1/2 :: rat)\<rceil> \<and>
     demo_clock 1 + 2 \<le> demo_clock (Suc 1 + k) \<and> (\<forall>j < k. demo_clock (Suc 1 + j) < demo_clock 1 + 2) \<and>
     0 \<le> x \<and> x < 1000003"
  by (rule burn_holds_the_cpu [OF demo_clock_ticks])

subsection \<open>What the solver reports\<close>

lemma syn_burns_ends:
  assumes "ticks d (monotonic m)" "py_float m (lookup_or p ''burn_seconds'' (JReal 0)) = Inr b"
  shows "\<exists>effs e. b \<le> e \<and> 0 \<le> e \<and> syn_burns m p a = Some (effs, syn_finish m p e a b)"
proof (cases "b = 0")
  case True
  with assms(2) have "syn_burns m p a = Some ([], syn_finish m p (monotonic m 1 - monotonic m 0) a b)"
    by (simp add: syn_burns_def)
  moreover have "0 \<le> monotonic m 1 - monotonic m 0" using ticks_mono [OF assms(1), of 0 1] by simp
  ultimately show ?thesis using True by blast
next
  case False
  obtain k x where k: "burn (monotonic m) 1 b = Some (Suc (Suc 1 + k), x)"
      "monotonic m 1 + b \<le> monotonic m (Suc 1 + k)"
    by (rule burn_ends [OF assms(1)])
  let ?e = "monotonic m (Suc (Suc 1 + k)) - monotonic m 0"
  have "monotonic m 0 \<le> monotonic m 1" "monotonic m (Suc 1 + k) \<le> monotonic m (Suc (Suc 1 + k))"
      "monotonic m 0 \<le> monotonic m (Suc (Suc 1 + k))"
    by (simp_all add: ticks_mono [OF assms(1)])
  with k(2) have "b \<le> ?e" "0 \<le> ?e" by linarith+
  moreover have "syn_burns m p a = Some ([Burns b], syn_finish m p ?e a b)"
    using False assms(2) k(1) by (simp add: syn_burns_def)
  ultimately show ?thesis by blast
qed

lemma syn_sleeps_ends:
  assumes "ticks d (monotonic m)" "py_float m (lookup_or p ''sleep_seconds'' (JReal 0)) = Inr a"
    and "py_float m (lookup_or p ''burn_seconds'' (JReal 0)) = Inr b" "time_sleep m a = None"
  shows "\<exists>effs e. b \<le> e \<and> 0 \<le> e \<and> syn_sleeps m p = Some (effs, syn_finish m p e a b)"
proof -
  obtain effs e where "b \<le> e" "0 \<le> e" "syn_burns m p a = Some (effs, syn_finish m p e a b)"
    using syn_burns_ends [OF assms(1,3)] by blast
  with assms(2,4) show ?thesis by (auto simp: syn_sleeps_def)
qed

text \<open>The synthetic solver ends the way its payload asks, through the child and onto the pipe. A
  crash puts nothing on it, whatever else was asked; a \<open>raise_error\<close> is reported as the failure of
  that text; and otherwise the artifact is the JSON body with the seconds that were asked for, an
  elapsed time that covers the burn, and a padding of exactly the stated length.\<close>

theorem synthetic_ends_as_asked:
  assumes "sr_kind r = ''synthetic''" "sr_payload r = p" "ticks d (monotonic m)"
    and "py_float m (lookup_or p ''sleep_seconds'' (JReal 0)) = Inr a" "time_sleep m a = None"
    and "py_float m (lookup_or p ''burn_seconds'' (JReal 0)) = Inr b"
    and "py_int (lookup_or p ''padding_bytes'' (JInt 0)) = Inr n"
    and "touch m (lookup_or p ''ready_file'' JNull) = None"
  shows "\<exists>e. b \<le> e \<and> 0 \<le> e \<and> run_child (SOLVERS m) r =
     (if asked_for p ''crash'' then Closed
      else if asked_for p ''raise_error''
      then Message (Failed (''RuntimeError: '' @ json_str (float_repr m) (lookup_or p ''raise_error'' JNull))
             (format_exc m) False)
      else Message (Solved (encode_ascii (dumps m (body_of m e a b n))) ''application/json''))"
proof -
  obtain effs e where e: "b \<le> e" "0 \<le> e" "syn_sleeps m p = Some (effs, syn_finish m p e a b)"
    using syn_sleeps_ends [OF assms(3,4,6,5)] by blast
  have "synthetic_end m p = (if asked_for p ''crash'' then Ends_process else syn_finish m p e a b)"
    using assms(8) e(3) by (simp add: synthetic_end_def synthetic_def Let_def)
  with assms(1,2,7) e(1,2) show ?thesis
    by (auto simp: run_child_def solve_child_def resolve_def SOLVERS_def syn_finish_def raised_def)
qed

definition demo_machine :: machine where
  "demo_machine =
     \<lparr>getpid = 42, monotonic = demo_clock, touch = (\<lambda>_. None), time_sleep = (\<lambda>_. None),
      float_of_int = (\<lambda>n. Inr (of_int n)), float_of_text = (\<lambda>s. Inl (''ValueError'', s)),
      float_repr = (\<lambda>q. ''0.5''), dumps = (\<lambda>fs. ''{}''), format_exc = ''Traceback''\<rparr>"

theorem synthetic_ends_as_asked_witness:
  "run_child (SOLVERS demo_machine) \<lparr>sr_kind = ''synthetic'', sr_payload = [(''raise_error'', JStr ''boom'')], sr_job_id = 1\<rparr>
     = Message (Failed ''RuntimeError: boom'' ''Traceback'' False)"
  using synthetic_ends_as_asked
    [of "\<lparr>sr_kind = ''synthetic'', sr_payload = [(''raise_error'', JStr ''boom'')], sr_job_id = 1\<rparr>"
        "[(''raise_error'', JStr ''boom'')]" "1/2" demo_machine 0 0 0] demo_clock_ticks
  by (simp add: demo_machine_def lookup_or_def asked_for_def json_str_def)

end
