(* ===== verification/Job_Journey.thy ===== *)
theory Job_Journey
  imports Supervisor_Outcomes Solvers
begin

text \<open>
  One job from its request to its artifact, through every component it meets: the row and the message
  of \<open>enqueue\<close>, the delivery, the claim of \<open>reserve\<close>, the child and its solver, the upload and the
  acknowledgement. When nothing fails and nobody interferes, this is what the system is for.
\<close>

lemma enqueue_lands:
  assumes env: "undisturbed env" and ok: "sys_ok (w_db w)"
    and req: "int4 (req_max_attempts req)" "0 < req_max_attempts req"
    and key: "\<forall>r \<in> set (jobs (w_db w)). dedup_key r \<noteq> (req_session_id req, req_idempotency_key req)"
    and fresh: "i \<notin> job_id ` set (jobs (w_db w))"
    and sess: "\<And>s. req_session_id req = Some s \<Longrightarrow> chat_sessions (w_db w) s \<noteq> None"
  shows "\<exists>w'. rmq_enqueue env i req w = (Inr (to_job (new_row (clock env CInsert) i req)), w') \<and>
     sent w' = sent w @ [Published (uuid_str i) (route_of (Some (req_delay req)))] \<and> db_ok (w_db w') \<and>
     incoming w' = incoming w \<and> held w' = held w \<and>
     published_row (clock env (CMark Fresh i)) (new_row (clock env CInsert) i req) \<in> set (jobs (w_db w'))"
proof -
  let ?row = "new_row (clock env CInsert) i req" and ?now = "clock env (CMark Fresh i)"
  have "db_ok (w_db w)" using ok by (simp add: sys_ok_def)
  from insert_new [OF this req key fresh sess, of "clock env CInsert"] obtain db where
    db: "insert_or_get (clock env CInsert) i req (w_db w) = Inr ((to_job ?row, True), db)" "db_ok db"
      "jobs db = jobs (w_db w) @ [?row]" by blast
  let ?w1 = "w\<lparr>w_db := db\<rparr>"
  have ins: "store_call env CInsert (\<lambda>now. insert_or_get now i req) w = (Inr (to_job ?row, True), ?w1)"
    by (rule undisturbed_call [OF env]) (rule db(1))
  let ?db2 = "db\<lparr>jobs := update_where (\<lambda>r. job_id r = i) (published_row ?now) (jobs db)\<rparr>"
  let ?w2 = "?w1\<lparr>sent := sent w @ [Published (uuid_str i) (route_of (Some (req_delay req)))]\<rparr>"
  have id: "job_id (to_job ?row) = i" by (simp add: new_row_def)
  have pub: "publish env Fresh i (Some (req_delay req)) ?w1 = (Inr (), ?w2)"
    using undisturbed_publish [OF env, of Fresh i "Some (req_delay req)" ?w1] by simp
  have mark: "mark env Fresh i ?w2 = (Inr (), ?w2\<lparr>w_db := ?db2\<rparr>)"
    unfolding mark_def by (rule undisturbed_call [OF env]) (simp add: mark_published_def)
  have "rmq_enqueue env i req w = (Inr (to_job ?row), ?w2\<lparr>w_db := ?db2\<rparr>)"
    using ins pub mark id by (simp add: rmq_enqueue_def thenA_def returnA_def)
  moreover have "published_row ?now ?row \<in> set (jobs ?db2)"
    by (auto simp: set_update_where db(3) new_row_def)
  ultimately show ?thesis using mark_published_ok [OF db(2)] by auto
qed

lemma reserve_lands:
  assumes env: "undisturbed env" and ok: "db_ok (w_db w)" and m: "incoming w = [m]" "d_body m = Some (uuid_str (job_id r))"
    and r: "r \<in> set (jobs (w_db w))" "waiting (clock env (CClaim (d_tag m))) r \<or> lapsed (clock env (CClaim (d_tag m))) r"
  shows "\<exists>w' l. rmq_reserve env owner dur w = (Inr (Some l), w') \<and> db_ok (w_db w') \<and>
     l_id l = mint env (d_tag m) \<and>
     l_job l = to_job (claimed_row (clock env (CClaim (d_tag m))) (mint env (d_tag m)) owner dur r) \<and>
     claimed_row (clock env (CClaim (d_tag m))) (mint env (d_tag m)) owner dur r \<in> set (jobs (w_db w'))"
proof -
  let ?c = "CClaim (d_tag m)"
  let ?row = "claimed_row (clock env ?c) (mint env (d_tag m)) owner dur r"
  let ?l = "\<lparr>l_id = mint env (d_tag m), l_job = to_job ?row, l_owner = owner, l_expires_at = clock env ?c + dur\<rparr>"
  obtain db where db: "claim (clock env ?c) (mint env (d_tag m)) (job_id r) owner dur (w_db w) = Inr (Some ?l, db)"
      "db_ok db" "jobs db = update_where (\<lambda>x. job_id x = job_id r \<and> (waiting (clock env ?c) x \<or> lapsed (clock env ?c) x))
         (claimed_row (clock env ?c) (mint env (d_tag m)) owner dur) (jobs (w_db w))"
    using claim_granted [OF ok r(1), of "clock env ?c" "mint env (d_tag m)" owner dur] r(2) by blast
  have "store_call env ?c (\<lambda>now. claim now (mint env (d_tag m)) (job_id r) owner dur) (w\<lparr>incoming := []\<rparr>) =
      (Inr (Some ?l), w\<lparr>incoming := [], w_db := db\<rparr>)"
    using undisturbed_call [OF env, of "\<lambda>now. claim now (mint env (d_tag m)) (job_id r) owner dur" ?c "w\<lparr>incoming := []\<rparr>"]
      db(1) by simp
  then have "rmq_reserve env owner dur w =
      (Inr (Some ?l), w\<lparr>incoming := [], w_db := db, held := (held w)(job_id r \<mapsto> (mint env (d_tag m), m))\<rparr>)"
    by (simp add: rmq_reserve_def m Let_def thenA_def uuid_parse_str)
  moreover have "?row \<in> set (jobs db)" using r by (auto simp: db(3) set_update_where)
  ultimately show ?thesis using db(2) by auto
qed

text \<open>From a delivery to the artifact, of a job that waits or whose lease has lapsed: what the two journeys
  below have in common.\<close>

lemma delivery_completes:
  assumes ok: "db_ok (w_db w)" and idle: "incoming w = []"
    and r: "r \<in> set (jobs (w_db w))"
      "waiting (clock (reserving sh) (CClaim (d_tag m))) r \<or> lapsed (clock (reserving sh) (CClaim (d_tag m))) r"
    and m: "d_body m = Some (uuid_str (job_id r))"
    and env: "undisturbed (reserving sh)" "undisturbed (finishing sh)" "putting sh = Stored" "closing_child sh = Inr c"
    and solve: "run_child solvers \<lparr>sr_kind = kind r, sr_payload = payload r, sr_job_id = job_id r\<rparr> = Message (Solved b t)"
    and wakes: "wakeups sh = beats @ wk # wks" "\<forall>b \<in> set beats. renews cfg sh b" "\<not> cancel_requested r"
      "child_report wk = Some (read_and_reap (run_child solvers
         \<lparr>sr_kind = kind r, sr_payload = payload r, sr_job_id = job_id r\<rparr>) exits)"
    and key: "key = artifact_key (job_id r) (mint (reserving sh) (d_tag m))"
  shows "\<exists>h s'. run_once cfg owner sh \<lparr>sup_world = on_delivery m w, artifacts = objs\<rparr> = Some (Inr (Some h), s') \<and>
     h_ending h = COMPLETED \<and> db_ok (w_db (sup_world s')) \<and>
     get (job_id r) (w_db (sup_world s')) =
       Some (to_job r\<lparr>state := DONE, attempts := attempts r + 1, result_ref := Some key\<rparr>) \<and>
     artifacts s' key = Some (b, t)"
proof -
  let ?env = "reserving sh" and ?tok = "mint (reserving sh) (d_tag m)"
  let ?row = "claimed_row (clock ?env (CClaim (d_tag m))) ?tok owner (lease_for cfg) r"
  let ?w = "on_delivery m w"
  have w: "incoming ?w = [m]" "w_db ?w = w_db w" by (simp_all add: on_delivery_def idle)
  obtain w1 l where w1: "rmq_reserve ?env owner (lease_for cfg) ?w = (Inr (Some l), w1)" "db_ok (w_db w1)"
      "l_id l = ?tok" "l_job l = to_job ?row" "?row \<in> set (jobs (w_db w1))"
    using reserve_lands [OF env(1), of ?w m r owner "lease_for cfg"] ok r w m by auto
  have row: "job_id ?row = job_id r" "lease_id ?row = Some ?tok" by (simp_all add: claimed_row_def)
  then have fen: "fencing l ?row" by (simp add: fencing_def w1(3,4))
  have key_l: "key_of l = key" by (simp add: key w1(3,4) row)
  let ?s = "\<lparr>sup_world = w1, artifacts = objs\<rparr>" and ?cap = "began_at sh + solve_timeout cfg"
  have "\<not> cancel_requested ?row" using wakes(3) by (simp add: claimed_row_def)
  then obtain l' r' s1 where l': "supervise cfg ?cap l (wakeups sh) ?s = supervise cfg ?cap l' (wk # wks) s1"
      "db_ok (w_db (sup_world s1))" "r' \<in> set (jobs (w_db (sup_world s1)))" "fencing l' r'"
      "to_job r' = to_job ?row" "l_id l' = l_id l"
    using supervise_renews [of ?s ?row l beats cfg sh "wk # wks"] w1(2,5) fen wakes(1,2) by auto
  have id': "job_id r' = job_id r" using l'(5) row(1) by (metis to_job_sel(1))
  then have "key_of l' = key" using key_l l'(4,6) w1(4) row(1) by (simp add: fencing_def)
  let ?h = "\<lparr>h_lease = l', h_outcome = Solved b t, h_ending = COMPLETED\<rparr>"
  obtain s' where s': "sup_report cfg (finishing sh) Stored l' (Solved b t) s1 = (Inr (), s')"
      "get (job_id r) (w_db (sup_world s')) = Some (to_job ?row\<lparr>state := DONE, result_ref := Some key\<rparr>)"
      "artifacts s' key = Some (b, t)" "db_ok (w_db (sup_world s'))"
    using report_lands [OF env(2) l'(2-4), of cfg "Solved b t"] id' l'(5) \<open>key_of l' = key\<close> by auto
  have "supervise cfg ?cap l (wakeups sh) ?s = Some (Inr ?h, s1)"
    using solve wakes(4) by (simp add: l'(1) read_and_reap_def reported_def)
  then have "watch_and_finish cfg sh l ?s = Some (Inr ?h, s')"
    using s'(1) env(3,4) by (simp add: watch_and_finish_def sup_finish_def aclose_def)
  then have "run_once cfg owner sh \<lparr>sup_world = ?w, artifacts = objs\<rparr> = Some (Inr (Some ?h), s')"
    using w1(1) env(1) by (simp add: run_once_def on_queue_def undisturbed_def)
  moreover have "to_job ?row\<lparr>state := DONE, result_ref := Some key\<rparr> =
      to_job r\<lparr>state := DONE, attempts := attempts r + 1, result_ref := Some key\<rparr>"
    by (simp add: to_job_def job.truncate_def claimed_row_def)
  ultimately show ?thesis using s'(2,3,4) by auto
qed

text \<open>C6: From the request to the artifact. A new job is enqueued; the broker delivers the body that was
  published for it, not before its delay is over; a worker takes the delivery, runs the job's solver on
  the job's payload in a child, renews its lease at any number of heartbeats while the child works, and
  the child returns. Then the row of that job is \<open>done\<close> after one
  attempt, it names an object under the attempt's own key, and that object holds exactly the bytes the
  solver returned.\<close>

theorem job_travels_to_its_artifact:
  assumes "sys_ok (w_db w0)" "incoming w0 = []" "undisturbed e0"
    and "int4 (req_max_attempts req)" "0 < req_max_attempts req"
    and "\<forall>r \<in> set (jobs (w_db w0)). dedup_key r \<noteq> (req_session_id req, req_idempotency_key req)"
    and "i \<notin> job_id ` set (jobs (w_db w0))"
    and "\<forall>s. req_session_id req = Some s \<longrightarrow> chat_sessions (w_db w0) s \<noteq> None"
    and enq: "rmq_enqueue e0 i req w0 = (Inr j, w1)"
    and deliv: "sent w1 = sent w0 @ [Published body rt]" "d_body m = Some body"
    and env: "undisturbed (reserving sh)" "undisturbed (finishing sh)" "putting sh = Stored" "closing_child sh = Inr c"
    and due: "clock e0 CInsert + req_delay req \<le> clock (reserving sh) (CClaim (d_tag m))"
    and solve: "run_child solvers \<lparr>sr_kind = req_kind req, sr_payload = req_payload req, sr_job_id = i\<rparr> =
        Message (Solved b t)"
    and wakes: "wakeups sh = beats @ wk # wks" "\<forall>b \<in> set beats. renews cfg sh b"
      "child_report wk = Some (read_and_reap (run_child solvers
         \<lparr>sr_kind = req_kind req, sr_payload = req_payload req, sr_job_id = i\<rparr>) exits)"
    and key: "key = artifact_key i (mint (reserving sh) (d_tag m))"
  shows "\<exists>h s'. run_once cfg owner sh \<lparr>sup_world = on_delivery m w1, artifacts = objs\<rparr> = Some (Inr (Some h), s') \<and>
     h_ending h = COMPLETED \<and>
     get i (w_db (sup_world s')) = Some (j\<lparr>state := DONE, attempts := 1, result_ref := Some key\<rparr>) \<and>
     artifacts s' key = Some (b, t)"
proof -
  let ?r0 = "new_row (clock e0 CInsert) i req"
  let ?r1 = "published_row (clock e0 (CMark Fresh i)) ?r0"
  have w1: "j = to_job ?r0" "sent w1 = sent w0 @ [Published (uuid_str i) (route_of (Some (req_delay req)))]"
      "db_ok (w_db w1)" "incoming w1 = []" "?r1 \<in> set (jobs (w_db w1))"
    using enqueue_lands [OF assms(3,1,4-7)] assms(2,8) enq by auto
  have same: "job_id ?r1 = i" "kind ?r1 = req_kind req" "payload ?r1 = req_payload req"
    by (simp_all add: published_row_def new_row_def)
  have body: "d_body m = Some (uuid_str (job_id ?r1))" using deliv w1(2) same(1) by simp
  have wait: "waiting (clock (reserving sh) (CClaim (d_tag m))) ?r1"
    using due by (simp add: waiting_def published_row_def new_row_def)
  have "to_job ?r1\<lparr>state := DONE, attempts := attempts ?r1 + 1, result_ref := Some key\<rparr> =
      j\<lparr>state := DONE, attempts := 1, result_ref := Some key\<rparr>"
    by (simp add: w1(1) to_job_def job.truncate_def published_row_def new_row_def)
  moreover have "\<not> cancel_requested ?r1" by (simp add: published_row_def new_row_def)
  ultimately show ?thesis
    using delivery_completes [OF w1(3,4,5) _ body env _ wakes(1,2), of solvers b t exits key owner objs]
      wait solve wakes(3) key same by auto
qed

subsection \<open>The synthetic solver on an empty payload\<close>

definition bare_request :: job_request where
  "bare_request = request ''synthetic'' [] None ''k1''"

definition bare_shift :: shift where
  "bare_shift = (demo_shift demo_env)\<lparr>wakeups := [quiet_beat 20000000 demo_env, (quiet_beat 40000000 demo_env)
     \<lparr>child_report := Some (read_and_reap (run_child (SOLVERS demo_machine)
        \<lparr>sr_kind = ''synthetic'', sr_payload = [], sr_job_id = 1\<rparr>) (Some 0))\<rparr>]\<rparr>"

lemma bare_solve:
  "\<exists>e. run_child (SOLVERS demo_machine) \<lparr>sr_kind = ''synthetic'', sr_payload = [], sr_job_id = 1\<rparr> =
     Message (Solved (encode_ascii (dumps demo_machine (body_of demo_machine e 0 0 0))) ''application/json'')"
proof -
  have "synthetic_end demo_machine [] = syn_finish demo_machine [] (demo_clock 1 - demo_clock 0) 0 0"
    by (simp add: synthetic_end_def synthetic_def Let_def asked_for_def lookup_or_def syn_sleeps_def syn_burns_def
        demo_machine_def)
  then show ?thesis
    by (auto simp: run_child_def solve_child_def resolve_def SOLVERS_def syn_finish_def asked_for_def lookup_or_def)
qed

theorem job_travels_to_its_artifact_witness:
  "\<exists>h s'. run_once default_config ''w1'' bare_shift
     \<lparr>sup_world = on_delivery demo_delivery (snd (rmq_enqueue demo_env 1 bare_request (idle_world empty_db))),
      artifacts = (\<lambda>_. None)\<rparr> = Some (Inr (Some h), s') \<and>
     (\<exists>j. get 1 (w_db (sup_world s')) = Some j \<and> state j = DONE)"
proof -
  have quiet: "undisturbed demo_env" by (simp add: undisturbed_def demo_env_def)
  have req: "req_session_id bare_request = None" "req_idempotency_key bare_request = ''k1''" "int4 (req_max_attempts bare_request)"
      "0 < req_max_attempts bare_request" "req_kind bare_request = ''synthetic''" "req_payload bare_request = []" "req_delay bare_request = 0"
    by (simp_all add: bare_request_def request_def int4_def int4_max_def)
  have ok: "sys_ok (w_db (idle_world empty_db))" by (simp add: idle_world_def sys_ok_empty)
  have none: "jobs (w_db (idle_world empty_db)) = []" "incoming (idle_world empty_db) = []" "sent (idle_world empty_db) = []"
    by (simp_all add: idle_world_def empty_db_def)
  obtain w1 where w1: "rmq_enqueue demo_env 1 bare_request (idle_world empty_db) =
        (Inr (to_job (new_row (clock demo_env CInsert) 1 bare_request)), w1)"
      "sent w1 = sent (idle_world empty_db) @ [Published (uuid_str 1) (route_of (Some 0))]"
    using enqueue_lands [OF quiet ok req(3,4), of 1] none req by auto
  obtain e where e: "run_child (SOLVERS demo_machine) \<lparr>sr_kind = ''synthetic'', sr_payload = [], sr_job_id = 1\<rparr> =
     Message (Solved (encode_ascii (dumps demo_machine (body_of demo_machine e 0 0 0))) ''application/json'')"
    using bare_solve by blast
  let ?wk = "(quiet_beat 40000000 demo_env)\<lparr>child_report := Some (read_and_reap (run_child (SOLVERS demo_machine)
        \<lparr>sr_kind = ''synthetic'', sr_payload = [], sr_job_id = 1\<rparr>) (Some 0))\<rparr>"
  have sh: "undisturbed (reserving bare_shift)" "undisturbed (finishing bare_shift)" "putting bare_shift = Stored"
      "closing_child bare_shift = Inr (Solved [1, 2] ''text/plain'')" "wakeups bare_shift = [quiet_beat 20000000 demo_env] @ ?wk # []"
      "\<forall>b \<in> set [quiet_beat 20000000 demo_env]. renews default_config bare_shift b"
      "clock demo_env CInsert + req_delay bare_request \<le> clock (reserving bare_shift) (CClaim (d_tag demo_delivery))"
    using quiet req(7)
    by (simp_all add: bare_shift_def demo_shift_def demo_env_def renews_def quiet_beat_def default_config_def)
  have d: "d_body demo_delivery = Some (uuid_str 1)" by (simp add: demo_delivery_def)
  have "\<exists>h s'. run_once default_config ''w1'' bare_shift
      \<lparr>sup_world = on_delivery demo_delivery w1, artifacts = (\<lambda>_. None)\<rparr> = Some (Inr (Some h), s') \<and>
    h_ending h = COMPLETED \<and>
    get 1 (w_db (sup_world s')) = Some ((to_job (new_row (clock demo_env CInsert) 1 bare_request))\<lparr>state := DONE,
      attempts := 1, result_ref := Some (artifact_key 1 (mint (reserving bare_shift) (d_tag demo_delivery)))\<rparr>) \<and>
    artifacts s' (artifact_key 1 (mint (reserving bare_shift) (d_tag demo_delivery))) =
      Some (encode_ascii (dumps demo_machine (body_of demo_machine e 0 0 0)), ''application/json'')"
    by (rule job_travels_to_its_artifact [where solvers = "SOLVERS demo_machine" and exits = "Some 0", OF ok none(2) quiet req(3,4) _ _ _ w1 d sh(1-4) sh(7) _ sh(5,6) _ refl])
       (simp_all add: none req e)
  then show ?thesis using w1(1) by auto
qed

end
