(* ===== verification/Job_Recovery.thy ===== *)
theory Job_Recovery
  imports Job_Journey
begin

text \<open>
  A worker dies with a job in its hands. Nothing it leaves behind is repaired by itself: its lease runs
  out, the maintenance of any other process offers the job again, and whoever is delivered that
  message takes it over, does the work and records it. The dead worker, should it only have been
  paused, is refused.
\<close>

lemma ended_refuses:
  assumes ok: "db_ok db" and j: "get jid db = Some j" "state j \<noteq> RUNNING" and l: "job_id (l_job l) = jid"
  shows "ack now l ref db = Inl (stale_lease l) \<and> nack now l err rt db = Inl (stale_lease l) \<and>
         Job_Store.extend now l dur db = Inl (stale_lease l)"
proof (rule stale_refused, intro ballI notI)
  fix x
  assume x: "x \<in> set (jobs db)" "fencing l x"
  have "job_id x = jid" using x(2) l by (simp add: fencing_def)
  with get_known [OF ok x(1)] j have "state x \<noteq> RUNNING" by auto
  moreover have "row_ok x" using db_okD(3) [OF ok [unfolded db_ok_def] x(1)] .
  ultimately show False using fencing_running [OF _ x(2)] by blast
qed

lemma sweep_offers_lapsed:
  assumes env: "undisturbed env" and ok: "db_ok (w_db w)" and sweep: "rmq_sweep env w = (res, w')"
    and r: "r \<in> set (jobs (w_db w))" "lapsed (clock env CLapsed) r" "\<not> too_soon env w (job_id r)"
  shows "res = Inr () \<and> (uuid_str (job_id r), Work) \<in> set (on_the_wire w') \<and>
     db_ok (w_db w') \<and> r \<in> set (jobs (w_db w'))"
proof -
  obtain w4 where w4: "rmq_sweep env w = (Inr (), prune env w4)" "db_ok (w_db w4)"
      "\<forall>jid \<in> set (lapsed_reservable (clock env CLapsed) (w_db w)).
         \<not> too_soon env w jid \<longrightarrow> (uuid_str jid, Work) \<in> set (on_the_wire w4)"
      "\<forall>x \<in> set (jobs (w_db w)). state x = RUNNING \<and> \<not> lapsed_for_good (clock env CRetire) x \<longrightarrow> x \<in> set (jobs (w_db w4))"
    using swept [OF env ok] by metis
  have "job_id r \<in> set (lapsed_reservable (clock env CLapsed) (w_db w))"
    using r by (auto simp: lapsed_reservable_def)
  moreover have "state r = RUNNING" "\<not> lapsed_for_good (clock env CRetire) r"
    using r(2) by (auto simp: lapsed_def lapsed_for_good_def)
  ultimately show ?thesis
    using w4 r(1,3) sweep by (auto simp: prune_def on_the_wire_def)
qed

text \<open>C7: A crashed job is recovered. A job is running under a lease that has run out, with attempts left and
  nobody having asked to cancel it: its worker crashed, or is paused. The next maintenance pass of
  any other process puts its message on the work queue, and a worker that is delivered it takes the
  job over, runs its solver, renewing at any number of heartbeats, and stores the bytes under the key of the new attempt, while everything
  the former worker may still say under its own lease, an acknowledgement, a failure or a heartbeat,
  is refused.\<close>

theorem crashed_job_is_recovered:
  assumes "sys_ok (w_db wm)" "undisturbed em" "rmq_sweep em wm = (res, wm')"
    and r: "r \<in> set (jobs (w_db wm))" "state r = RUNNING" "lease_expires_at r = Some e"
      "attempts r < max_attempts r" "\<not> cancel_requested r"
    and over: "e < clock em CLapsed" "\<not> too_soon em wm (job_id r)"
    and worker: "w_db w = w_db wm'" "incoming w = []" "d_body m = Some (uuid_str (job_id r))"
      "e < clock (reserving sh) (CClaim (d_tag m))"
    and env: "undisturbed (reserving sh)" "undisturbed (finishing sh)" "putting sh = Stored" "closing_child sh = Inr c"
    and solve: "run_child solvers \<lparr>sr_kind = kind r, sr_payload = payload r, sr_job_id = job_id r\<rparr> = Message (Solved b t)"
    and wakes: "wakeups sh = beats @ wk # wks" "\<forall>b \<in> set beats. renews cfg sh b"
      "child_report wk = Some (read_and_reap (run_child solvers
         \<lparr>sr_kind = kind r, sr_payload = payload r, sr_job_id = job_id r\<rparr>) exits)"
    and key: "key = artifact_key (job_id r) (mint (reserving sh) (d_tag m))"
  shows "res = Inr () \<and> (uuid_str (job_id r), Work) \<in> set (on_the_wire wm') \<and>
     (\<exists>h s'. run_once cfg owner sh \<lparr>sup_world = on_delivery m w, artifacts = objs\<rparr> = Some (Inr (Some h), s') \<and>
        h_ending h = COMPLETED \<and>
        get (job_id r) (w_db (sup_world s')) =
          Some (to_job r\<lparr>state := DONE, attempts := attempts r + 1, result_ref := Some key\<rparr>) \<and>
        artifacts s' key = Some (b, t) \<and>
        (\<forall>now l ref err rt dur. job_id (l_job l) = job_id r \<longrightarrow>
           ack now l ref (w_db (sup_world s')) = Inl (stale_lease l) \<and>
           nack now l err rt (w_db (sup_world s')) = Inl (stale_lease l) \<and>
           Job_Store.extend now l dur (w_db (sup_world s')) = Inl (stale_lease l)))"
proof -
  have ok: "db_ok (w_db wm)" using assms(1) by (simp add: sys_ok_def)
  have lapsed: "lapsed now r" if "e < now" for now
    using r that by (simp add: lapsed_def lease_before_def)
  have sw: "res = Inr ()" "(uuid_str (job_id r), Work) \<in> set (on_the_wire wm')" "db_ok (w_db wm')" "r \<in> set (jobs (w_db wm'))"
    using sweep_offers_lapsed [OF assms(2) ok assms(3) r(1) lapsed [OF over(1)] over(2)] by simp_all
  from delivery_completes [OF _ worker(2) _ _ worker(3) env solve wakes(1,2) r(5) wakes(3) key, of owner objs] obtain h s' where
    s': "run_once cfg owner sh \<lparr>sup_world = on_delivery m w, artifacts = objs\<rparr> = Some (Inr (Some h), s')"
      "h_ending h = COMPLETED" "db_ok (w_db (sup_world s'))"
      "get (job_id r) (w_db (sup_world s')) =
         Some (to_job r\<lparr>state := DONE, attempts := attempts r + 1, result_ref := Some key\<rparr>)"
      "artifacts s' key = Some (b, t)"
    using sw(3,4) worker(1) lapsed [OF worker(4)] by auto
  note refused = ended_refuses [OF s'(3,4)]
  show ?thesis using sw(1,2) s' refused by simp
qed

subsection \<open>A worker that died on the synthetic solver\<close>

definition bare_abandoned :: db where
  "bare_abandoned = run [Enqueue 2 1 bare_request, Claim 3 90 1 ''w0'' 4] empty_db"

definition bare_row :: job_row where
  "bare_row = claimed_row 3 90 ''w0'' 4 (new_row 2 1 bare_request)"

lemma bare_abandoned_jobs: "jobs bare_abandoned = [bare_row]"
  by (simp add: bare_abandoned_def bare_row_def demo_eval bare_request_def)

theorem crashed_job_is_recovered_witness:
  "\<exists>h s'. run_once default_config ''w1'' bare_shift
     \<lparr>sup_world = on_delivery demo_delivery (idle_world (w_db (snd (rmq_sweep demo_env (idle_world bare_abandoned))))),
      artifacts = (\<lambda>_. None)\<rparr> = Some (Inr (Some h), s') \<and>
     (\<exists>j. get 1 (w_db (sup_world s')) = Some j \<and> state j = DONE \<and> attempts j = 2)"
proof -
  have quiet: "undisturbed demo_env" by (simp add: undisturbed_def demo_env_def)
  have "sys_ok bare_abandoned" unfolding bare_abandoned_def by (rule run_sys_ok [OF sys_ok_empty])
  then have ok: "sys_ok (w_db (idle_world bare_abandoned))" by (simp add: idle_world_def)
  obtain res wm' where sweep: "rmq_sweep demo_env (idle_world bare_abandoned) = (res, wm')" by fastforce
  have row: "bare_row \<in> set (jobs (w_db (idle_world bare_abandoned)))" "state bare_row = RUNNING"
      "lease_expires_at bare_row = Some 7" "attempts bare_row < max_attempts bare_row" "\<not> cancel_requested bare_row"
    by (simp_all add: idle_world_def bare_abandoned_jobs)
       (simp_all add: bare_row_def claimed_row_def new_row_def bare_request_def request_def)
  have what: "kind bare_row = ''synthetic''" "payload bare_row = []" "job_id bare_row = 1" "attempts bare_row = 1"
    by (simp_all add: bare_row_def claimed_row_def new_row_def bare_request_def request_def)
  have times: "7 < clock demo_env CLapsed" "\<not> too_soon demo_env (idle_world bare_abandoned) (job_id bare_row)"
      "7 < clock (reserving bare_shift) (CClaim (d_tag demo_delivery))"
    by (simp_all add: demo_env_def too_soon_def idle_world_def bare_shift_def demo_shift_def)
  obtain e where e: "run_child (SOLVERS demo_machine) \<lparr>sr_kind = kind bare_row, sr_payload = payload bare_row, sr_job_id = job_id bare_row\<rparr> =
     Message (Solved (encode_ascii (dumps demo_machine (body_of demo_machine e 0 0 0))) ''application/json'')"
    using bare_solve what by auto
  let ?wk = "(quiet_beat 40000000 demo_env)\<lparr>child_report := Some (read_and_reap (run_child (SOLVERS demo_machine)
        \<lparr>sr_kind = kind bare_row, sr_payload = payload bare_row, sr_job_id = job_id bare_row\<rparr>) (Some 0))\<rparr>"
  have sh: "undisturbed (reserving bare_shift)" "undisturbed (finishing bare_shift)" "putting bare_shift = Stored"
      "closing_child bare_shift = Inr (Solved [1, 2] ''text/plain'')" "wakeups bare_shift = [quiet_beat 20000000 demo_env] @ ?wk # []"
      "\<forall>b \<in> set [quiet_beat 20000000 demo_env]. renews default_config bare_shift b"
    using quiet what
    by (simp_all add: bare_shift_def demo_shift_def renews_def quiet_beat_def default_config_def)
  have d: "w_db (idle_world (w_db wm')) = w_db wm'" "incoming (idle_world (w_db wm')) = []"
      "d_body demo_delivery = Some (uuid_str (job_id bare_row))"
    by (simp_all add: idle_world_def demo_delivery_def what)
  from crashed_job_is_recovered [OF ok quiet sweep row times(1,2) d times(3) sh(1-4) e sh(5,6) _ refl,
      of "Some 0" "''w1''" "\<lambda>_. None"]
  have "\<exists>h s'. run_once default_config ''w1'' bare_shift
       \<lparr>sup_world = on_delivery demo_delivery (idle_world (w_db wm')), artifacts = (\<lambda>_. None)\<rparr> = Some (Inr (Some h), s') \<and>
      get 1 (w_db (sup_world s')) = Some (to_job bare_row\<lparr>state := DONE, attempts := attempts bare_row + 1,
        result_ref := Some (artifact_key (job_id bare_row) (mint (reserving bare_shift) (d_tag demo_delivery)))\<rparr>)"
    by (simp add: what) blast
  then show ?thesis using what(4) sweep by auto
qed

end
