(* ===== verification/Clients.thy ===== *)
theory Clients
  imports Artifacts
begin

text \<open>
  What the adapters build before they are asked for anything, and how they say that it works: the
  engine of \<open>adapters/postgres/db.py\<close> with its probe, the probe of \<open>adapters/rabbitmq/broker.py\<close>, and the
  client of \<open>adapters/s3/object_store.py\<close> with the error codes it buries. What the libraries answer, and
  when, is an argument: a call answers, raises or hangs.
\<close>

subsection \<open>Calls that take their time\<close>

datatype ping = Answers time | Fails time string string | Hangs

text \<open>\<open>await p; await q\<close>: the second call is made when the first has returned.\<close>

fun and_then :: "ping \<Rightarrow> ping \<Rightarrow> ping" where
  "and_then (Answers d) (Answers d') = Answers (d + d')"
| "and_then (Answers d) (Fails d' ty msg) = Fails (d + d') ty msg"
| "and_then (Answers d) Hangs = Hangs"
| "and_then (Fails d ty msg) q = Fails d ty msg"
| "and_then Hangs q = Hangs"

text \<open>The body of an \<open>async with\<close> and its exit, which runs also when the body raised and whose own
  exception replaces the body's.\<close>

fun and_exit :: "ping \<Rightarrow> ping \<Rightarrow> ping" where
  "and_exit (Fails d ty msg) (Answers d') = Fails (d + d') ty msg"
| "and_exit (Fails d ty msg) (Fails d' ty' msg') = Fails (d + d') ty' msg'"
| "and_exit (Fails d ty msg) Hangs = Hangs"
| "and_exit (Answers d) q = and_then (Answers d) q"
| "and_exit Hangs q = Hangs"

text \<open>A call given a timeout of its own.\<close>

fun capped :: "time \<Rightarrow> ping \<Rightarrow> ping" where
  "capped t (Answers d) = (if d < t then Answers d else Fails t ''TimeoutError'' [])"
| "capped t (Fails d ty msg) = (if d < t then Fails d ty msg else Fails t ''TimeoutError'' [])"
| "capped t Hangs = Fails t ''TimeoutError'' []"

subsection \<open>The database\<close>

record database =
  engine_url :: string
  pool_pre_ping :: bool
  pool_size :: int
  max_overflow :: int
  expire_on_commit :: bool

text \<open>Building the engine opens no socket; \<open>malformed\<close> is what the library finds wrong with a URL.\<close>

definition open_database :: "(string \<Rightarrow> string option) \<Rightarrow> settings \<Rightarrow> string + database" where
  "open_database malformed cfg =
     (case malformed (database_url cfg) of
        Some e \<Rightarrow> Inl e
      | None \<Rightarrow> Inr \<lparr>engine_url = database_url cfg, pool_pre_ping = True, pool_size = 5,
                     max_overflow = 5, expire_on_commit = False\<rparr>)"

definition db_ping :: "ping \<Rightarrow> ping \<Rightarrow> ping \<Rightarrow> ping" where
  "db_ping connect select_one hand_back = and_then connect (and_exit select_one hand_back)"

subsection \<open>The broker\<close>

definition broker_ping :: "ping \<Rightarrow> ping \<Rightarrow> ping" where
  "broker_ping connect close = and_then (capped (seconds 2) connect) close"

lemma and_then_Answers:
  "and_then p q = Answers d \<longleftrightarrow> (\<exists>a b. p = Answers a \<and> q = Answers b \<and> d = a + b)"
  by (cases p; cases q) auto

lemma and_exit_Answers:
  "and_exit p q = Answers d \<longleftrightarrow> (\<exists>a b. p = Answers a \<and> q = Answers b \<and> d = a + b)"
  by (cases p; cases q) auto

lemma capped_Answers: "capped t p = Answers d \<longleftrightarrow> p = Answers d \<and> d < t"
  by (cases p) auto

lemma capped_never_hangs: "capped t p \<noteq> Hangs"
  by (cases p) auto

text \<open>A probe answers only when every call it makes has, the connection handed back included; and a broker
  that accepts no connection is reported after two seconds, whoever is waiting.\<close>

lemma db_ping_Answers:
  "db_ping c s h = Answers d \<longleftrightarrow>
     (\<exists>x y z. c = Answers x \<and> s = Answers y \<and> h = Answers z \<and> d = x + (y + z))"
  unfolding db_ping_def and_then_Answers and_exit_Answers by auto

lemma broker_ping_Answers:
  "broker_ping c k = Answers d \<longleftrightarrow>
     (\<exists>x y. c = Answers x \<and> x < seconds 2 \<and> k = Answers y \<and> d = x + y)"
  unfolding broker_ping_def and_then_Answers capped_Answers by auto

lemma broker_refuses_in_time: "broker_ping Hangs k = Fails (seconds 2) ''TimeoutError'' []"
  by (simp add: broker_ping_def)

subsection \<open>The object store's client\<close>

record s3_client =
  bucket :: string
  endpoint_url :: "string option"
  region_name :: string
  access_key_id :: string
  secret_access_key :: string
  retry_attempts :: int
  retry_mode :: string
  addressing_style :: string
  entered :: bool

text \<open>\<open>start\<close>: \<open>create\<close> is what entering the client answers. It makes no bucket.\<close>

definition s3_start :: "settings \<Rightarrow> string + unit \<Rightarrow> string + s3_client" where
  "s3_start cfg create =
     (case create of
        Inl e \<Rightarrow> Inl e
      | Inr _ \<Rightarrow> Inr
          \<lparr>bucket = s3_bucket cfg, endpoint_url = s3_endpoint_url cfg, region_name = s3_region cfg,
           access_key_id = s3_access_key cfg, secret_access_key = s3_secret_key cfg,
           retry_attempts = 3, retry_mode = ''standard'', addressing_style = ''path'', entered = True\<rparr>)"

definition s3_close :: "s3_client \<Rightarrow> s3_client" where
  "s3_close c = c\<lparr>entered := False\<rparr>"

text \<open>\<open>_code\<close>: the response is a dictionary that need not have an \<open>Error\<close>, nor that a \<open>Code\<close>.\<close>

type_synonym error_response = "string \<Rightarrow> (string \<Rightarrow> string option) option"

definition client_error_code :: "error_response \<Rightarrow> string" where
  "client_error_code response =
     (case response ''Error'' of
        None \<Rightarrow> []
      | Some err \<Rightarrow> (case err ''Code'' of None \<Rightarrow> [] | Some code \<Rightarrow> code))"

text \<open>An error without a code is nobody's missing object: it escapes \<open>get\<close> as it is, and makes
  \<open>ensure_bucket\<close> raise without creating anything.\<close>

lemma uncoded_error_escapes:
  assumes "response ''Error'' = None \<or> (\<exists>err. response ''Error'' = Some err \<and> err ''Code'' = None)"
  shows "s3_get key (Inl (client_error_code response)) = Inl (ClientError []) \<and>
         ensure_bucket (Some (client_error_code response)) create = (False, Inl [])"
  using assms by (auto simp: client_error_code_def s3_get_def ensure_bucket_def missing_codes_def)

text \<open>A missing key, a missing bucket and a bare 404 are one answer to a caller.\<close>

lemma missing_is_one_answer:
  assumes "response ''Error'' = Some err" "err ''Code'' = Some code" "code \<in> {''NoSuchKey'', ''NoSuchBucket'', ''404''}"
  shows "s3_get key (Inl (client_error_code response)) = Inl (ArtifactNotFound key)"
  using assms by (auto simp: client_error_code_def s3_get_def missing_codes_def)

end
