(* ===== verification/Shutdown.thy ===== *)
theory Shutdown
  imports Chat_Exchange Clients
begin

text \<open>
  The life of an API replica in \<open>api/main.py\<close>: what its start chooses from the settings, and its
  shutdown, which asks every connection of the registry to close and waits for their writers no
  longer than the drain timeout (\<open>core/ws.py\<close>, \<open>drain\<close>). When a connection is finished, counted from
  the request, is an argument; the engine of the database is a library object.
\<close>

record app_state =
  app_settings :: settings
  app_db :: database
  chat_repository :: database
  chat_registry :: registry
  drain_timeout :: time
  app_responder :: "string \<Rightarrow> string list"

text \<open>The repository is built from the same engine. A URL the library refuses ends the process before it
  serves anything.\<close>

definition lifespan_start :: "(string \<Rightarrow> string option) \<Rightarrow> settings \<Rightarrow> string + app_state" where
  "lifespan_start malformed cfg =
     (case open_database malformed cfg of
        Inl e \<Rightarrow> Inl e
      | Inr db \<Rightarrow> Inr
          \<lparr>app_settings = cfg, app_db = db, chat_repository = db,
           chat_registry = \<lparr>max_per_session = ws_max_connections_per_session cfg, by_session = []\<rparr>,
           drain_timeout = seconds (ws_drain_timeout_seconds cfg),
           app_responder = respond\<rparr>)"

text \<open>\<open>api/deps.py\<close>: what a handler declares it needs is read from the state of the application.\<close>

definition get_db :: "app_state \<Rightarrow> database" where
  "get_db st = app_db st"

definition get_settings :: "app_state \<Rightarrow> settings" where
  "get_settings st = app_settings st"

definition get_registry :: "app_state \<Rightarrow> registry" where
  "get_registry st = chat_registry st"

definition get_responder :: "app_state \<Rightarrow> string \<Rightarrow> string list" where
  "get_responder st = app_responder st"

definition get_chat_repository :: "app_state \<Rightarrow> database" where
  "get_chat_repository st = chat_repository st"

lemma started_from_settings:
  assumes "lifespan_start malformed cfg = Inr st"
  shows "get_settings st = cfg \<and> get_chat_repository st = get_db st \<and>
     engine_url (get_db st) = database_url cfg \<and> by_session (get_registry st) = [] \<and>
     drain_timeout st = seconds (ws_drain_timeout_seconds cfg)"
  using assms
  by (auto simp: lifespan_start_def open_database_def get_settings_def get_chat_repository_def get_db_def
      get_registry_def split: option.splits)

definition held_connections :: "registry \<Rightarrow> nat list" where
  "held_connections reg = concat (map snd (by_session reg))"

text \<open>The wait of \<open>drain\<close>: how long it takes, and the connections given up on.\<close>

definition drain_wait :: "time \<Rightarrow> nat list \<Rightarrow> (nat \<Rightarrow> time option) \<Rightarrow> time \<times> nat list" where
  "drain_wait timeout conns finished =
     (let pending = filter (\<lambda>c. case finished c of Some d \<Rightarrow> timeout < d | None \<Rightarrow> True) conns
      in (if conns = [] then 0
          else if pending = [] then fold max (map (\<lambda>c. the (finished c)) conns) 0
          else timeout, pending))"

definition lifespan_stop ::
    "app_state \<Rightarrow> (nat \<Rightarrow> time option) \<Rightarrow> (nat \<Rightarrow> connection) \<Rightarrow> (nat \<Rightarrow> connection) \<times> time \<times> nat list" where
  "lifespan_stop st finished heap =
     (drain going_away (chat_registry st) heap,
      drain_wait (drain_timeout st) (held_connections (chat_registry st)) finished)"

subsection \<open>The shutdown\<close>

lemma fold_max_bound: "(\<forall>x \<in> set xs. x \<le> (b::time)) \<Longrightarrow> a \<le> b \<Longrightarrow> fold max xs a \<le> b"
  by (induction xs arbitrary: a) auto

lemma drain_wait_bounded:
  assumes "0 \<le> timeout"
  shows "fst (drain_wait timeout conns finished) \<le> timeout"
proof (cases "filter (\<lambda>c. case finished c of Some d \<Rightarrow> timeout < d | None \<Rightarrow> True) conns = []")
  case True
  then have "\<forall>c \<in> set conns. the (finished c) \<le> timeout"
    by (auto simp: filter_empty_conv split: option.splits)
  then have "fold max (map (\<lambda>c. the (finished c)) conns) 0 \<le> timeout"
    by (intro fold_max_bound) (use assms in auto)
  with True assms show ?thesis by (simp add: drain_wait_def)
qed (use assms in \<open>simp add: drain_wait_def Let_def\<close>)

lemma fold_update_once:
  assumes "distinct cs" "c \<in> set cs"
  shows "fold (\<lambda>c h. h(c := f (h c))) cs heap c = f (heap c)"
proof -
  have other: "fold (\<lambda>c h. h(c := f (h c))) cs heap c = heap c" if "c \<notin> set cs" for cs heap
    using that by (induction cs arbitrary: heap) auto
  from assms show ?thesis
    by (induction cs arbitrary: heap) (auto simp: other)
qed

text \<open>A shutdown is bounded by the drain timeout whatever the connections do. Every connection the
  registry holds is asked to close, and one with room for two more items, whose peer goes on reading,
  gets its backlog, then \<open>going_away\<close>, then the close code 1012.\<close>

theorem shutdown_tells_everyone:
  assumes "0 \<le> drain_timeout st" "distinct (held_connections (chat_registry st))"
    and c: "c \<in> set (held_connections (chat_registry st))" "\<not> overflowed (heap c)" "out (heap c) = map Frame fs"
    and room: "out_max (heap c) \<le> 0 \<or> length fs + 2 \<le> nat (out_max (heap c))"
    and peer: "\<forall>f \<in> set (fs @ [going_away]). peer f"
    and stop: "lifespan_stop st finished heap = (heap', took, given_up)"
  shows "took \<le> drain_timeout st \<and>
     (\<exists>c'. run_writer peer (heap' c) = (fs @ [going_away], Some WS_SERVICE_RESTART, c'))"
proof -
  let ?c = "request_close WS_SERVICE_RESTART (Some going_away) (heap c)"
  have "heap' c = ?c"
    using stop fold_update_once [OF assms(2) c(1), of "request_close WS_SERVICE_RESTART (Some going_away)" heap]
    by (auto simp: lifespan_stop_def drain_def held_connections_def)
  moreover have "\<not> full (heap c)" "\<not> full ((heap c)\<lparr>out := map Frame (fs @ [going_away])\<rparr>)"
    using room c(3) by (auto simp: full_def)
  with c have q: "?c = (heap c)\<lparr>out := map Frame (fs @ [going_away]) @ [CloseToken], close_code := WS_SERVICE_RESTART\<rparr>"
    by (auto simp: request_close_def send_def enqueue_item_def full_def Let_def)
  have "run_writer peer ?c = (fs @ [going_away], Some WS_SERVICE_RESTART, ?c\<lparr>out := []\<rparr>)"
    using writer_flushes_and_closes [of ?c "fs @ [going_away]" peer] q c(2) peer by simp
  ultimately show ?thesis
    using stop drain_wait_bounded [OF assms(1)] by (auto simp: lifespan_stop_def) (metis fst_conv)
qed

end
