(* ===== verification/Sockets.thy ===== *)
theory Sockets
  imports Chat_Handler
begin

text \<open>
  The socket under a connection, exception by exception (\<open>core/ws.py\<close>): what a failing write means to
  the writer, how the iteration over inbound frames ends, and when a close frame is attempted. \<open>Ws\<close> and
  the chat handler see of this whether a write reached the peer and which code the socket is closed
  with.
\<close>

subsection \<open>What a socket raises\<close>

datatype socket_error =
    RuntimeError
  | OSError
  | WebSocketDisconnect int
  | ClosedResourceError
  | BrokenResourceError
  | OtherError string

fun PEER_GONE :: "socket_error \<Rightarrow> bool" where
  "PEER_GONE (OtherError ty) = False"
| "PEER_GONE _ = True"

text \<open>One write of \<open>run_writer\<close>: the loop goes on, the writer returns a code, or the exception escapes.\<close>

datatype write_end = GoesOn | Gives int | Escapes socket_error

definition write_ends :: "socket_error option \<Rightarrow> write_end" where
  "write_ends answer =
     (case answer of
        None \<Rightarrow> GoesOn
      | Some e \<Rightarrow> if PEER_GONE e then Gives WS_NORMAL else Escapes e)"

text \<open>\<open>_incoming\<close> over what \<open>receive_text\<close> answers: the frames yielded, and what ended the iteration, if
  anything did: \<open>Some None\<close> is an ordinary end.\<close>

fun incoming_frames :: "(socket_error + string) list \<Rightarrow> string list \<times> socket_error option option" where
  "incoming_frames [] = ([], None)"
| "incoming_frames (Inr raw # rest) = (case incoming_frames rest of (raws, how) \<Rightarrow> (raw # raws, how))"
| "incoming_frames (Inl (WebSocketDisconnect c) # rest) = ([], Some None)"
| "incoming_frames (Inl e # rest) = ([], Some (Some e))"

text \<open>\<open>close\<close>: whether the library is asked to close, and what escapes. \<open>answer\<close> is the library's.\<close>

definition close_socket :: "bool \<Rightarrow> int \<Rightarrow> socket_error option \<Rightarrow> int option \<times> socket_error option" where
  "close_socket disconnected code' answer =
     (if disconnected then (None, None)
      else (Some code',
            case answer of
              None \<Rightarrow> None
            | Some RuntimeError \<Rightarrow> None
            | Some e \<Rightarrow> Some e))"

subsection \<open>What is promised of it\<close>

lemma run_writer_meets_write_ends:
  assumes "out c = Frame f # xs" "\<not> overflowed c"
  shows "case write_ends answer of
           GoesOn \<Rightarrow> writer_step (\<lambda>_. True) c = (Wrote f, c\<lparr>out := xs\<rparr>)
         | Gives code' \<Rightarrow> writer_step (\<lambda>_. False) c = (Returns code', c\<lparr>out := xs\<rparr>)
         | Escapes e \<Rightarrow> \<not> PEER_GONE e"
  using assms by (auto simp: write_ends_def writer_step_def split: option.splits)

text \<open>Every frame received before the peer left is yielded, in order; a disconnect ends the iteration
  without an exception, and whatever follows it is not read.\<close>

lemma disconnect_ends_quietly:
  "incoming_frames (map Inr raws @ Inl (WebSocketDisconnect c) # rest) = (raws, Some None)"
  by (induction raws) simp_all

lemma other_errors_escape:
  assumes "\<forall>c. e \<noteq> WebSocketDisconnect c"
  shows "incoming_frames (map Inr raws @ Inl e # rest) = (raws, Some (Some e))"
  by (induction raws) (use assms in \<open>cases e; simp\<close>)+

text \<open>Closing is safe once the peer is known to have gone, and when the library says that it has.\<close>

lemma close_is_safe:
  "disconnected \<or> answer = None \<or> answer = Some RuntimeError \<Longrightarrow> snd (close_socket disconnected code' answer) = None"
  by (auto simp: close_socket_def)

text \<open>But a disconnect that only the close itself discovers escapes: \<open>_PEER_GONE\<close> guards the writes alone.\<close>

lemma close_lets_disconnects_escape:
  "close_socket False code' (Some (WebSocketDisconnect 1006)) = (Some code', Some (WebSocketDisconnect 1006))"
  by (simp add: close_socket_def)

text \<open>The close code of \<open>serve\<close> does not depend on the order its set of finished tasks is iterated over unless
  the reader has failed by the time the writer returns another code: then it is that code or 1011.\<close>

lemma close_code_by_order:
  "serve_code (finished_tasks True h) \<noteq> serve_code (finished_tasks False h) \<longleftrightarrow>
     (\<exists>c. writer_end h = Some (ReturnedCode c) \<and> c \<noteq> WS_INTERNAL_ERROR \<and> reader h = ReaderEnded True)"
  by (cases "writer_end h"; cases "reader h")
     (auto simp: finished_tasks_def serve_code_def reader_result_def Let_def split: task_result.splits)

end
