(* ===== verification/Solve_Process.thy ===== *)
theory Solve_Process
  imports Solve
begin

text \<open>
  \<open>worker/process.py\<close>: the handle on one solve child, as a machine. Its events are the calls of the
  event loop (\<open>outcome\<close>, \<open>stop\<close>, a cancelled await, the end of a grace period), the turns of the one
  collector thread, and what the child and the kernel do. The calls may come in any number and any
  order. An event that is not enabled changes nothing.

  The theorems: every caller gets the same answer, and an outcome is only given once the child is
  reaped; stopping needs no cooperation of the child; and what one \<open>stop\<close> answers and which signals
  it sends is what \<open>Solve.stop_child\<close> says, the function the supervisor is verified over, with the
  grace read off the events.
\<close>

subsection \<open>The state\<close>

datatype collector_state =
    Not_started
  | Reading
  | Joining "outcome option"
  | Reaping "outcome option"
  | Collected "string + outcome"

datatype caller = Awaiting | In_grace | Past_kill | Answered "string + outcome" | Dropped

record solve_process =
  exitcode :: "int option"
  channel :: "pipe option"
  conn_open :: bool
  collector :: collector_state
  callers :: "nat \<Rightarrow> caller option"
  sent :: "signalled list"
  reaper_killed :: bool

text \<open>\<open>start\<close>: the child runs, nothing has been read, and nobody waits.\<close>

definition start_process :: solve_process where
  "start_process =
     \<lparr>exitcode = None, channel = None, conn_open = True, collector = Not_started,
      callers = (\<lambda>_. None), sent = [], reaper_killed = False\<rparr>"

subsection \<open>The calls\<close>

definition collect :: "solve_process \<Rightarrow> solve_process" where
  "collect s = (if collector s = Not_started then s\<lparr>collector := Reading\<rparr> else s)"

definition set_caller :: "nat \<Rightarrow> caller \<Rightarrow> solve_process \<Rightarrow> solve_process" where
  "set_caller n c s = s\<lparr>callers := (callers s)(n \<mapsto> c)\<rparr>"

definition outcome_called :: "nat \<Rightarrow> solve_process \<Rightarrow> solve_process" where
  "outcome_called n s = (if callers s n = None then set_caller n Awaiting (collect s) else s)"

definition terminate :: "solve_process \<Rightarrow> solve_process" where
  "terminate s = (if exitcode s = None then s\<lparr>sent := sent s @ [Sigterm]\<rparr> else s)"

definition stop_called :: "nat \<Rightarrow> solve_process \<Rightarrow> solve_process" where
  "stop_called n s = (if callers s n = None then set_caller n In_grace (collect (terminate s)) else s)"

definition grace_over :: "nat \<Rightarrow> solve_process \<Rightarrow> solve_process" where
  "grace_over n s =
     (case (callers s n, collector s) of
        (Some In_grace, Collected r) \<Rightarrow> s
      | (Some In_grace, _) \<Rightarrow> set_caller n Past_kill (s\<lparr>sent := sent s @ [Sigkill]\<rparr>)
      | _ \<Rightarrow> s)"

fun waiting_caller :: "caller \<Rightarrow> bool" where
  "waiting_caller Awaiting = True"
| "waiting_caller In_grace = True"
| "waiting_caller Past_kill = True"
| "waiting_caller _ = False"

text \<open>A cancelled await: the collector is shielded, so only the caller goes.\<close>

definition caller_cancelled :: "nat \<Rightarrow> solve_process \<Rightarrow> solve_process" where
  "caller_cancelled n s =
     (case callers s n of
        Some c \<Rightarrow> if waiting_caller c then set_caller n Dropped s else s
      | None \<Rightarrow> s)"

definition caller_resumes :: "nat \<Rightarrow> solve_process \<Rightarrow> solve_process" where
  "caller_resumes n s =
     (case (callers s n, collector s) of
        (Some c, Collected r) \<Rightarrow> if waiting_caller c then set_caller n (Answered r) s else s
      | _ \<Rightarrow> s)"

subsection \<open>The collector\<close>

text \<open>
  \<open>_read_and_reap\<close>, at its three waits. A pipe closed with nothing on it is no outcome; anything else
  that \<open>recv\<close> raises escapes, past the join. The connection is closed either way.
\<close>

definition received :: "solve_process \<Rightarrow> solve_process" where
  "received s =
     (case (collector s, channel s) of
        (Reading, Some p) \<Rightarrow>
          s\<lparr>conn_open := False,
            collector := (case p of
                Message r \<Rightarrow> Joining (Some r)
              | Closed \<Rightarrow> Joining None
              | Torn e \<Rightarrow> Collected (Inl e))\<rparr>
      | _ \<Rightarrow> s)"

definition reaped :: "outcome option \<Rightarrow> int \<Rightarrow> outcome" where
  "reaped r code = (case r of Some out \<Rightarrow> out | None \<Rightarrow> Died code)"

definition join_returns :: "solve_process \<Rightarrow> solve_process" where
  "join_returns s =
     (case (collector s, exitcode s) of
        (Joining r, Some code) \<Rightarrow> s\<lparr>collector := Collected (Inr (reaped r code))\<rparr>
      | (Reaping r, Some code) \<Rightarrow> s\<lparr>collector := Collected (Inr (reaped r code))\<rparr>
      | _ \<Rightarrow> s)"

definition join_times_out :: "solve_process \<Rightarrow> solve_process" where
  "join_times_out s =
     (case (collector s, exitcode s) of
        (Joining r, None) \<Rightarrow> s\<lparr>collector := Reaping r, reaper_killed := True\<rparr>
      | _ \<Rightarrow> s)"

subsection \<open>The child and the kernel\<close>

definition child_reports :: "outcome \<Rightarrow> solve_process \<Rightarrow> solve_process" where
  "child_reports r s = (if exitcode s = None \<and> channel s = None then s\<lparr>channel := Some (Message r)\<rparr> else s)"

text \<open>An exit closes the write end: the pipe then yields its message, its end, or a torn message.\<close>

definition child_exits :: "int \<Rightarrow> pipe \<Rightarrow> solve_process \<Rightarrow> solve_process" where
  "child_exits code p s =
     (if exitcode s = None
      then s\<lparr>exitcode := Some code, channel := (case channel s of Some q \<Rightarrow> Some q | None \<Rightarrow> Some p)\<rparr>
      else s)"

definition kernel_kills :: "pipe \<Rightarrow> solve_process \<Rightarrow> solve_process" where
  "kernel_kills p s =
     (if Sigkill \<in> set (sent s) \<or> reaper_killed s then child_exits SIGKILL_CODE p s else s)"

datatype process_event =
    Outcome_called nat
  | Stop_called nat
  | Grace_over nat
  | Caller_cancelled nat
  | Caller_resumes nat
  | Received
  | Join_returns
  | Join_times_out
  | Child_reports outcome
  | Child_exits int pipe
  | Kernel_kills pipe

fun process_step :: "solve_process \<Rightarrow> process_event \<Rightarrow> solve_process" where
  "process_step s (Outcome_called n) = outcome_called n s"
| "process_step s (Stop_called n) = stop_called n s"
| "process_step s (Grace_over n) = grace_over n s"
| "process_step s (Caller_cancelled n) = caller_cancelled n s"
| "process_step s (Caller_resumes n) = caller_resumes n s"
| "process_step s Received = received s"
| "process_step s Join_returns = join_returns s"
| "process_step s Join_times_out = join_times_out s"
| "process_step s (Child_reports r) = child_reports r s"
| "process_step s (Child_exits code p) = child_exits code p s"
| "process_step s (Kernel_kills p) = kernel_kills p s"

definition process_run :: "process_event list \<Rightarrow> solve_process \<Rightarrow> solve_process" where
  "process_run evs s = foldl process_step s evs"

lemma process_run_simps [simp]:
  "process_run [] s = s"
  "process_run (e # evs) s = process_run evs (process_step s e)"
  "process_run (evs @ evs') s = process_run evs' (process_run evs s)"
  by (simp_all add: process_run_def)

lemma grace_over_iff:
  "grace_over n s =
     (if callers s n = Some In_grace \<and> (\<forall>r. collector s \<noteq> Collected r)
      then set_caller n Past_kill (s\<lparr>sent := sent s @ [Sigkill]\<rparr>) else s)"
  by (auto simp: grace_over_def split: option.splits caller.splits collector_state.splits)

lemmas process_defs = outcome_called_def stop_called_def grace_over_iff caller_cancelled_def
  caller_resumes_def received_def join_returns_def join_times_out_def child_reports_def
  child_exits_def kernel_kills_def collect_def terminate_def set_caller_def

subsection \<open>The invariant\<close>

fun message_of :: "pipe \<Rightarrow> outcome option" where
  "message_of (Message r) = Some r"
| "message_of _ = None"

fun is_torn :: "pipe \<Rightarrow> bool" where
  "is_torn (Torn _) = True"
| "is_torn _ = False"

definition collector_ok :: "solve_process \<Rightarrow> bool" where
  "collector_ok s \<longleftrightarrow>
     (case collector s of
        Not_started \<Rightarrow> conn_open s
      | Reading \<Rightarrow> conn_open s
      | Joining r \<Rightarrow> \<not> conn_open s \<and> (\<exists>p. channel s = Some p \<and> \<not> is_torn p \<and> r = message_of p)
      | Reaping r \<Rightarrow> \<not> conn_open s \<and> reaper_killed s \<and>
          (\<exists>p. channel s = Some p \<and> \<not> is_torn p \<and> r = message_of p)
      | Collected res \<Rightarrow> \<not> conn_open s \<and>
          (\<exists>p. channel s = Some p \<and> res = read_and_reap p (exitcode s) \<and> (is_torn p \<or> exitcode s \<noteq> None)))"

definition caller_ok :: "solve_process \<Rightarrow> caller option \<Rightarrow> bool" where
  "caller_ok s c \<longleftrightarrow>
     (case c of
        None \<Rightarrow> True
      | Some (Answered r) \<Rightarrow> collector s = Collected r
      | Some In_grace \<Rightarrow> collector s \<noteq> Not_started \<and> (Sigterm \<in> set (sent s) \<or> exitcode s \<noteq> None)
      | Some Past_kill \<Rightarrow> collector s \<noteq> Not_started \<and> Sigkill \<in> set (sent s)
      | Some _ \<Rightarrow> collector s \<noteq> Not_started)"

definition callers_ok :: "solve_process \<Rightarrow> bool" where
  "callers_ok s \<longleftrightarrow> (\<forall>n. caller_ok s (callers s n))"

definition process_ok :: "solve_process \<Rightarrow> bool" where
  "process_ok s \<longleftrightarrow> collector_ok s \<and> callers_ok s \<and> (exitcode s \<noteq> None \<longrightarrow> channel s \<noteq> None)"

lemma read_and_reap_cases:
  "\<not> is_torn p \<Longrightarrow> read_and_reap p (Some code) = Inr (reaped (message_of p) code)"
  "is_torn p \<Longrightarrow> read_and_reap p c = read_and_reap p c'"
  by (cases p; simp add: read_and_reap_def reaped_def)+

lemma start_ok: "process_ok start_process"
  by (simp add: start_process_def process_ok_def collector_ok_def callers_ok_def caller_ok_def)

lemma collected_stays: "collector s = Collected r \<Longrightarrow> collector (process_step s e) = Collected r"
  by (cases e) (auto simp: process_defs split: option.splits)

lemma exit_stays: "exitcode s = Some code \<Longrightarrow> exitcode (process_step s e) = Some code"
  by (cases e) (auto simp: process_defs split: option.splits collector_state.splits)

lemma sent_stays: "sig \<in> set (sent s) \<Longrightarrow> sig \<in> set (sent (process_step s e))"
  by (cases e) (auto simp: process_defs split: option.splits collector_state.splits)

lemma started_stays: "collector s \<noteq> Not_started \<Longrightarrow> collector (process_step s e) \<noteq> Not_started"
  by (cases e) (auto simp: process_defs split: option.splits collector_state.splits pipe.splits)

lemma exit_closes_step:
  "(exitcode s \<noteq> None \<longrightarrow> channel s \<noteq> None) \<Longrightarrow>
   exitcode (process_step s e) \<noteq> None \<longrightarrow> channel (process_step s e) \<noteq> None"
  by (cases e) (auto simp: process_defs split: option.splits collector_state.splits)

lemma collector_ok_frame [simp]:
  "collector_ok (set_caller n c s) = collector_ok s"
  "collector_ok (s\<lparr>sent := x\<rparr>) = collector_ok s"
  by (simp_all add: collector_ok_def set_caller_def split: collector_state.splits)

lemma collect_ok: "collector_ok s \<Longrightarrow> collector_ok (collect s)"
  by (simp add: collector_ok_def collect_def split: collector_state.splits)

lemma child_exits_ok: "collector_ok s \<Longrightarrow> collector_ok (child_exits code p s)"
  using read_and_reap_cases(2) [of _ None "Some code"]
  by (cases "collector s"; cases "exitcode s"; cases "channel s") (auto simp: collector_ok_def child_exits_def)

lemma collector_ok_step:
  assumes "collector_ok s"
  shows "collector_ok (process_step s e)"
proof (cases e)
  case (Stop_called n)
  have "collector_ok (terminate s)" using assms by (simp add: terminate_def)
  from collect_ok [OF this] Stop_called assms show ?thesis
    by (simp add: stop_called_def)
next
  case Received
  with assms show ?thesis
    by (auto simp: received_def collector_ok_def read_and_reap_def
        split: collector_state.splits option.splits pipe.splits)
next
  case Join_returns
  with assms show ?thesis
    by (auto simp: join_returns_def collector_ok_def read_and_reap_cases
        split: collector_state.splits option.splits)
next
  case Join_times_out
  with assms show ?thesis
    by (auto simp: join_times_out_def collector_ok_def split: collector_state.splits option.splits)
next
  case (Child_reports r)
  with assms show ?thesis
    by (auto simp: child_reports_def collector_ok_def split: collector_state.splits)
qed (use assms collect_ok [OF assms] in \<open>auto simp: outcome_called_def grace_over_iff caller_cancelled_def
      caller_resumes_def kernel_kills_def child_exits_ok
      split: option.splits collector_state.splits\<close>)

lemma caller_ok_step:
  assumes "caller_ok s c"
  shows "caller_ok (process_step s e) c"
  using assms collected_stays [of s _ e] exit_stays [of s _ e] sent_stays [of _ s e] started_stays [of s e]
  by (auto simp: caller_ok_def split: option.splits caller.splits)

lemma callers_step:
  assumes "callers_ok s"
  shows "caller_ok (process_step s e) (callers (process_step s e) n)"
proof (cases "callers (process_step s e) n = callers s n")
  case True
  with assms show ?thesis by (metis caller_ok_step callers_ok_def)
next
  case False
  show ?thesis
  proof (cases e)
    case (Outcome_called m)
    with False show ?thesis by (auto simp: process_defs caller_ok_def split: if_splits)
  next
    case (Stop_called m)
    with False show ?thesis by (auto simp: process_defs caller_ok_def split: if_splits)
  next
    case (Grace_over m)
    moreover from assms have "caller_ok s (callers s m)" by (simp add: callers_ok_def)
    ultimately show ?thesis using False by (auto simp: process_defs caller_ok_def split: if_splits)
  next
    case (Caller_cancelled m)
    moreover from assms have "caller_ok s (callers s m)" by (simp add: callers_ok_def)
    ultimately show ?thesis using False
      by (auto simp: process_defs caller_ok_def split: if_splits option.splits caller.splits)
  next
    case (Caller_resumes m)
    moreover from assms have "caller_ok s (callers s m)" by (simp add: callers_ok_def)
    ultimately show ?thesis using False
      by (auto simp: process_defs caller_ok_def split: if_splits option.splits collector_state.splits)
  qed (use False in \<open>auto simp: process_defs split: if_splits option.splits collector_state.splits\<close>)
qed

lemma step_ok: "process_ok s \<Longrightarrow> process_ok (process_step s e)"
  using collector_ok_step [of s e] callers_step [of s e] exit_closes_step [of s e]
  by (simp add: process_ok_def callers_ok_def)

lemma run_ok: "process_ok s \<Longrightarrow> process_ok (process_run evs s)"
  by (induction evs arbitrary: s) (auto intro: step_ok)

lemmas started_ok = run_ok [OF start_ok]

subsection \<open>What the callers are told\<close>

lemma run_stays: "collector s = Collected r \<Longrightarrow> collector (process_run evs s) = Collected r"
  by (induction evs arbitrary: s) (auto intro: collected_stays)

lemma answeredD:
  assumes "process_ok s" "callers s n = Some (Answered r)"
  shows "collector s = Collected r" "\<exists>p. channel s = Some p \<and> r = read_and_reap p (exitcode s)"
    and "r = Inr out \<Longrightarrow> exitcode s \<noteq> None"
proof -
  have c: "caller_ok s (Some (Answered r))"
    using assms by (metis process_ok_def callers_ok_def)
  then show col: "collector s = Collected r" by (simp add: caller_ok_def)
  with assms(1) obtain p where p: "channel s = Some p" "r = read_and_reap p (exitcode s)"
      "is_torn p \<or> exitcode s \<noteq> None"
    by (auto simp: process_ok_def collector_ok_def)
  then show "\<exists>p. channel s = Some p \<and> r = read_and_reap p (exitcode s)" by blast
  show "exitcode s \<noteq> None" if "r = Inr out"
    using p that by (cases p) (auto simp: read_and_reap_def)
qed

text \<open>C14: However \<open>outcome\<close> and \<open>stop\<close> are called, raced and cancelled, all of them are told the same,
  at whatever time they ask: one collector reads the pipe once. And an outcome is only told once the
  child is gone, so nobody who has an answer leaves a process behind.\<close>

theorem one_outcome_for_everyone:
  assumes "callers (process_run evs start_process) n = Some (Answered r)"
    and "callers (process_run (evs @ evs') start_process) m = Some (Answered r')"
  shows "r' = r \<and> (\<forall>out. r = Inr out \<longrightarrow> exitcode (process_run evs start_process) \<noteq> None)"
proof -
  let ?s = "process_run evs start_process"
  have "collector ?s = Collected r" by (rule answeredD(1) [OF started_ok assms(1)])
  then have "collector (process_run evs' ?s) = Collected r" by (rule run_stays)
  moreover have "collector (process_run (evs @ evs') start_process) = Collected r'"
    by (rule answeredD(1) [OF started_ok assms(2)])
  ultimately have "r' = r" by simp
  then show ?thesis using answeredD(3) [OF started_ok assms(1)] by blast
qed

text \<open>A stop that has to kill, and a caller of \<open>outcome\<close> who comes after it.\<close>

definition stubborn_child :: "process_event list" where
  "stubborn_child =
     [Outcome_called 0, Stop_called 1, Caller_cancelled 0, Grace_over 1, Kernel_kills Closed,
      Received, Join_returns, Caller_resumes 1]"

theorem one_outcome_for_everyone_witness:
  "exitcode (process_run stubborn_child start_process) \<noteq> None"
  using one_outcome_for_everyone
      [of stubborn_child 1 "Inr (Died SIGKILL_CODE)" "[Outcome_called 2, Caller_resumes 2]" 2
          "Inr (Died SIGKILL_CODE)"]
  by (simp add: stubborn_child_def start_process_def process_defs SIGKILL_CODE_def reaped_def)

lemma reapable:
  assumes ok: "process_ok s" and w: "callers s n = Some In_grace"
  shows "\<exists>r. callers (process_run [Grace_over n, Kernel_kills Closed, Received, Join_returns, Caller_resumes n] s) n
           = Some (Answered r)"
proof -
  have c: "caller_ok s (Some In_grace)" using ok w by (metis process_ok_def callers_ok_def)
  have ch: "exitcode s = None \<or> channel s \<noteq> None" using ok by (auto simp: process_ok_def)
  have col: "collector_ok s" using ok by (simp add: process_ok_def)
  show ?thesis
  proof (cases "collector s")
    case Not_started
    with c show ?thesis by (simp add: caller_ok_def)
  next
    case Reading
    with w ch show ?thesis
      by (cases "exitcode s"; cases "channel s")
         (auto simp: process_defs split: pipe.splits option.splits)
  next
    case (Joining r)
    with w ch col show ?thesis
      by (cases "exitcode s") (auto simp: process_defs collector_ok_def split: option.splits)
  next
    case (Reaping r)
    with w ch col show ?thesis
      by (cases "exitcode s") (auto simp: process_defs collector_ok_def split: option.splits)
  next
    case (Collected r)
    with w show ?thesis
      by (auto simp: process_defs split: option.splits)
  qed
qed

text \<open>Stopping needs no cooperation. Whatever happened before, and whatever the child does with
  SIGTERM, a \<open>stop\<close> whose grace is over is answered as soon as the kernel has killed the child and the
  collector has taken its two turns: no report, no handler and no exit of the child's own is needed.\<close>

theorem stop_needs_no_help:
  assumes "callers (process_run evs start_process) n = Some In_grace"
  shows "\<exists>r. callers (process_run
            (evs @ [Grace_over n, Kernel_kills Closed, Received, Join_returns, Caller_resumes n]) start_process) n
          = Some (Answered r)"
  using reapable [OF started_ok assms] by simp

theorem stop_needs_no_help_witness:
  "\<exists>r. callers (process_run
          ([Stop_called 7] @ [Grace_over 7, Kernel_kills Closed, Received, Join_returns, Caller_resumes 7])
          start_process) 7 = Some (Answered r)"
  by (rule stop_needs_no_help) (simp add: start_process_def process_defs)

subsection \<open>The function the supervisor is verified over\<close>

fun is_stop :: "process_event \<Rightarrow> bool" where
  "is_stop (Stop_called _) = True"
| "is_stop _ = False"

definition unstopped :: "solve_process \<Rightarrow> bool" where
  "unstopped s \<longleftrightarrow> sent s = [] \<and> (\<forall>n. callers s n \<noteq> Some In_grace)"

lemma unstopped_step: "unstopped s \<Longrightarrow> \<not> is_stop e \<Longrightarrow> unstopped (process_step s e)"
  by (cases e) (auto simp: unstopped_def process_defs split: option.splits collector_state.splits)

lemma unstopped_run: "unstopped s \<Longrightarrow> \<forall>e \<in> set evs. \<not> is_stop e \<Longrightarrow> unstopped (process_run evs s)"
  by (induction evs arbitrary: s) (auto intro: unstopped_step)

text \<open>One caller of \<open>stop\<close>, \<open>n\<close>. Its grace runs out when its timer fires while it still waits and the
  collector has not finished: read off the events and the states they lead through, not off the
  signals.\<close>

fun grace_ran_out :: "nat \<Rightarrow> process_event list \<Rightarrow> solve_process \<Rightarrow> bool" where
  "grace_ran_out n [] s = False"
| "grace_ran_out n (e # evs) s =
     (e = Grace_over n \<and> callers s n = Some In_grace \<and> \<not> (case collector s of Collected _ \<Rightarrow> True | _ \<Rightarrow> False) \<or>
      grace_ran_out n evs (process_step s e))"

definition only_in_grace :: "nat \<Rightarrow> solve_process \<Rightarrow> bool" where
  "only_in_grace n s \<longleftrightarrow> (\<forall>m. m \<noteq> n \<longrightarrow> callers s m \<noteq> Some In_grace) \<and> callers s n \<noteq> None"

lemma only_in_grace_step: "only_in_grace n s \<Longrightarrow> \<not> is_stop e \<Longrightarrow> only_in_grace n (process_step s e)"
  by (cases e) (auto simp: only_in_grace_def process_defs split: option.splits collector_state.splits)

lemma past_grace_step:
  "callers s n \<noteq> Some In_grace \<Longrightarrow> callers s n \<noteq> None \<Longrightarrow> \<not> is_stop e \<Longrightarrow>
   callers (process_step s e) n \<noteq> Some In_grace \<and> callers (process_step s e) n \<noteq> None"
  by (cases e) (auto simp: process_defs split: option.splits collector_state.splits)

lemma signals_step:
  assumes "only_in_grace n s" "\<not> is_stop e"
  shows "sent (process_step s e) = sent s @ (if grace_ran_out n [e] s then [Sigkill] else [])"
  using assms
  by (cases e) (auto simp: only_in_grace_def process_defs split: option.splits collector_state.splits)

lemma ran_out_past_grace: "grace_ran_out n [e] s \<Longrightarrow> callers (process_step s e) n = Some Past_kill"
  by (auto simp: process_defs split: collector_state.splits)

lemma no_second_run_out:
  "callers s n \<noteq> Some In_grace \<Longrightarrow> callers s n \<noteq> None \<Longrightarrow> \<forall>e \<in> set evs. \<not> is_stop e \<Longrightarrow> \<not> grace_ran_out n evs s"
  by (induction evs arbitrary: s) (use past_grace_step in auto)

lemma signals_run:
  "only_in_grace n s \<Longrightarrow> \<forall>e \<in> set evs. \<not> is_stop e \<Longrightarrow>
   sent (process_run evs s) = sent s @ (if grace_ran_out n evs s then [Sigkill] else [])"
proof (induction evs arbitrary: s)
  case (Cons e evs)
  from Cons.prems have e: "\<not> is_stop e" "\<forall>e \<in> set evs. \<not> is_stop e" by simp_all
  note next_one = Cons.IH [OF only_in_grace_step [OF Cons.prems(1) e(1)] e(2)]
  show ?case
  proof (cases "grace_ran_out n [e] s")
    case True
    then have "\<not> grace_ran_out n evs (process_step s e)"
      using no_second_run_out e(2) ran_out_past_grace [OF True] by simp
    with True next_one signals_step [OF Cons.prems(1) e(1)] show ?thesis by simp
  next
    case False
    with next_one signals_step [OF Cons.prems(1) e(1)] show ?thesis by simp
  qed
qed simp

text \<open>C23: One \<open>stop\<close> on the handle is the function \<open>stop_child\<close>: it sends SIGTERM if the child was
  running, then SIGKILL exactly when its grace ran out before the collector had finished, and
  answers what reading and reaping then give, whoever else awaited the child and whatever the child
  did meanwhile.\<close>

theorem stop_refines_stop_child:
  assumes "\<forall>e \<in> set (evs @ evs'). \<not> is_stop e"
    and "s = process_run evs start_process" "callers s n = None"
    and "s' = process_run (Stop_called n # evs') s" "callers s' n = Some (Answered r)"
  shows "(sent s', r) =
           stop_child (exitcode s = None)
             (if grace_ran_out n evs' (stop_called n s) then None else Some (the (channel s'), exitcode s'))
             (the (channel s'), exitcode s')"
proof -
  let ?first = "if exitcode s = None then [Sigterm] else []"
  have "unstopped start_process" by (simp add: unstopped_def start_process_def)
  then have "unstopped s" using assms(1,2) unstopped_run by auto
  then have "only_in_grace n (stop_called n s)" "sent (stop_called n s) = ?first"
    using assms(3) by (auto simp: unstopped_def only_in_grace_def process_defs)
  with signals_run [of n "stop_called n s" evs'] assms(1,4)
  have "sent s' = ?first @ (if grace_ran_out n evs' (stop_called n s) then [Sigkill] else [])" by simp
  moreover have "process_ok s'" using started_ok [of "evs @ Stop_called n # evs'"] assms(2,4) by simp
  then obtain p where "channel s' = Some p" "r = read_and_reap p (exitcode s')"
    using answeredD(2) [OF _ assms(5)] by blast
  ultimately show ?thesis by (simp add: stop_child_def)
qed

text \<open>A child that ignores SIGTERM, and one that reports in time.\<close>

definition ignores_sigterm :: "process_event list" where
  "ignores_sigterm = [Grace_over 1, Kernel_kills Closed, Received, Join_returns, Caller_resumes 1]"

definition heeds_sigterm :: "process_event list" where
  "heeds_sigterm = [Child_exits 143 Closed, Received, Join_returns, Grace_over 1, Caller_resumes 1]"

theorem stop_refines_stop_child_witness:
  "(sent (process_run (Stop_called 1 # ignores_sigterm) start_process), Inr (Died SIGKILL_CODE)) =
     stop_child True None (Closed, Some SIGKILL_CODE) \<and>
   sent (process_run (Stop_called 1 # ignores_sigterm) start_process) = [Sigterm, Sigkill] \<and>
   (sent (process_run (Stop_called 1 # heeds_sigterm) start_process), Inr (Died 143)) =
     stop_child True (Some (Closed, Some 143)) (Closed, Some 143)"
  using stop_refines_stop_child [of "[]" ignores_sigterm start_process 1 _ "Inr (Died SIGKILL_CODE)"]
    stop_refines_stop_child [of "[]" heeds_sigterm start_process 1 _ "Inr (Died 143)"]
  by (simp add: ignores_sigterm_def heeds_sigterm_def start_process_def process_defs reaped_def stop_child_def)

end
