(* ===== verification/Solve_Script.thy ===== *)
theory Solve_Script
  imports Solve_Process
begin

text \<open>
  \<open>dev/solve.py\<close>: run one solve by hand and print what came back. The run is a run of the handle of
  \<open>Solve_Process\<close>: one caller awaits the outcome until the deadline, a second stops the child whatever
  came of it. \<open>pretty\<close> is the JSON library: the indented text of bytes that are JSON.
\<close>

definition DEADLINE_SECONDS :: rat where
  "DEADLINE_SECONDS = 60"

definition by_hand :: "payload \<Rightarrow> uuid \<Rightarrow> solve_request" where
  "by_hand p i = \<lparr>sr_kind = ''synthetic'', sr_payload = p, sr_job_id = i\<rparr>"

datatype printed = Line string | Raw bytes bool

definition solve_report :: "(bytes \<Rightarrow> string option) \<Rightarrow> outcome \<Rightarrow> printed list" where
  "solve_report pretty r =
     (case r of
        Solved b ty \<Rightarrow>
          [Line (''Solved  '' @ ty @ ''  '' @ int_text (int (length b)) @ '' bytes''),
           (case pretty b of Some s \<Rightarrow> Line s | None \<Rightarrow> Raw (take 200 b) (200 < length b))]
      | Failed e tb permanent \<Rightarrow>
          [Line (''Failed  permanent='' @ (if permanent then ''True'' else ''False'') @ ''  '' @ e), Line tb]
      | Died code \<Rightarrow>
          [Line (''Died    exitcode='' @ int_text code @ ''  signal='' @
             (case died_signal code of Some n \<Rightarrow> n | None \<Rightarrow> ''None'')),
           Line (died_error code)])"

datatype by_hand_end = Prints "printed list" | TimesOut | Raises string

text \<open>
  \<open>before\<close> is what happens up to the answer or the deadline, \<open>after\<close> what happens from the call of
  \<open>stop\<close> to its answer; \<open>None\<close> when that answer is not there yet. What \<open>stop\<close> raises replaces the rest.
\<close>

definition solve_by_hand ::
    "(bytes \<Rightarrow> string option) \<Rightarrow> process_event list \<Rightarrow> process_event list \<Rightarrow> by_hand_end option \<times> solve_process" where
  "solve_by_hand pretty before after =
     (let s1 = process_run (Outcome_called 0 # before) start_process;
          s2 = process_run (Caller_cancelled 0 # Stop_called 1 # after) s1
      in ((case callers s2 1 of
             Some (Answered (Inl e)) \<Rightarrow> Some (Raises e)
           | Some (Answered (Inr _)) \<Rightarrow>
               (case callers s1 0 of
                  Some (Answered (Inr r)) \<Rightarrow> Some (Prints (solve_report pretty r))
                | Some (Answered (Inl e)) \<Rightarrow> Some (Raises e)
                | _ \<Rightarrow> Some TimesOut)
           | _ \<Rightarrow> None), s2))"

text \<open>The script leaves no child behind: when it ends by printing or by its deadline, the child has
  exited; and what it prints is the report of the one outcome the handle gives to everyone.\<close>

theorem solve_by_hand_leaves_no_child:
  assumes "solve_by_hand pretty before after = (Some res, s)" "\<And>e. res \<noteq> Raises e"
  shows "exitcode s \<noteq> None \<and>
     (\<forall>ls. res = Prints ls \<longrightarrow> (\<exists>r. collector s = Collected (Inr r) \<and> ls = solve_report pretty r))"
proof -
  define s1 where "s1 = process_run (Outcome_called 0 # before) start_process"
  have s: "s = process_run (Caller_cancelled 0 # Stop_called 1 # after) s1"
    and end_of: "Some res = (case callers s 1 of
             Some (Answered (Inl e)) \<Rightarrow> Some (Raises e)
           | Some (Answered (Inr _)) \<Rightarrow>
               (case callers s1 0 of
                  Some (Answered (Inr r)) \<Rightarrow> Some (Prints (solve_report pretty r))
                | Some (Answered (Inl e)) \<Rightarrow> Some (Raises e)
                | _ \<Rightarrow> Some TimesOut)
           | _ \<Rightarrow> None)"
    using assms(1) unfolding solve_by_hand_def s1_def [symmetric] by (auto simp: Let_def)
  have ok: "process_ok s1" "process_ok s"
    using started_ok [of "Outcome_called 0 # before"]
      started_ok [of "(Outcome_called 0 # before) @ Caller_cancelled 0 # Stop_called 1 # after"]
    by (simp_all add: s1_def s)
  obtain out where out: "callers s 1 = Some (Answered (Inr out))"
    using end_of assms(2) by (auto split: option.splits caller.splits sum.splits)
  have "exitcode s \<noteq> None" using answeredD(3) [OF ok(2) out] by blast
  moreover have "\<exists>r. collector s = Collected (Inr r) \<and> ls = solve_report pretty r" if "res = Prints ls" for ls
  proof -
    have "\<exists>r. callers s1 0 = Some (Answered (Inr r)) \<and> ls = solve_report pretty r"
      using end_of that out by (auto split: option.splits caller.splits sum.splits)
    then obtain r where r: "callers s1 0 = Some (Answered (Inr r))" "ls = solve_report pretty r" by blast
    have "collector s = Collected (Inr r)"
      unfolding s by (rule run_stays [OF answeredD(1) [OF ok(1) r(1)]])
    with r(2) show ?thesis by blast
  qed
  ultimately show ?thesis by blast
qed

end
