(* ===== verification/Handshake.thy ===== *)
theory Handshake
  imports Ws Config Py_Text
begin

text \<open>
  \<open>api/chat.py\<close>: what a WebSocket has to show before it is served, and its place in the registry. The
  request is the headers and parameters the route reads; \<open>int(text)\<close> is the standard library's, on
  code points below 256, with its limit of 4300 digits.
\<close>

subsection \<open>The handshake\<close>

record handshake =
  hs_origin :: "string option"
  hs_version :: "string option"
  hs_session :: string

definition origin_allowed :: "string \<Rightarrow> settings \<Rightarrow> bool" where
  "origin_allowed origin cfg =
     (if ws_allowed_origins cfg \<noteq> [] then origin \<in> set (ws_allowed_origins cfg)
      else deploy_env cfg = ''local'')"

definition vet_session :: "string \<Rightarrow> string + uuid" where
  "vet_session text' =
     (case uuid_parse text' of
        None \<Rightarrow> Inl ''session_id must be a uuid''
      | Some session \<Rightarrow>
          if uuid_str session \<noteq> text' then Inl ''session_id must be a canonical uuid'' else Inr session)"

definition vet_handshake :: "settings \<Rightarrow> handshake \<Rightarrow> string + uuid" where
  "vet_handshake cfg hs =
     (if (case hs_origin hs of None \<Rightarrow> False | Some origin \<Rightarrow> \<not> origin_allowed origin cfg)
      then Inl ''origin not allowed''
      else case hs_version hs of
        None \<Rightarrow> vet_session (hs_session hs)
      | Some requested \<Rightarrow>
          (case int_base10 requested of
             None \<Rightarrow> Inl ''malformed protocol version''
           | Some version \<Rightarrow>
               if PROTOCOL_VERSION < version then Inl ''unsupported protocol version''
               else vet_session (hs_session hs)))"

subsection \<open>The route\<close>

datatype socket_reply =
    ClosedBeforeAccept int string
  | SentThenClosed server_frame int
  | Served uuid connection

definition chat_socket :: "settings \<Rightarrow> handshake \<Rightarrow> nat \<Rightarrow> registry \<Rightarrow> socket_reply \<times> registry" where
  "chat_socket cfg hs c reg =
     (case vet_handshake cfg hs of
        Inl refusal \<Rightarrow> (ClosedBeforeAccept WS_POLICY_VIOLATION refusal, reg)
      | Inr session \<Rightarrow>
          (case registry_add session c reg of
             (False, reg1) \<Rightarrow>
               (SentThenClosed (ErrorFrame TOO_MANY_CONNECTIONS ''too many connections for this session'' True)
                  WS_TRY_AGAIN_LATER, reg1)
           | (True, reg1) \<Rightarrow> (Served session (new_connection session (ws_send_queue_size cfg)), reg1)))"

text \<open>The \<open>finally\<close>, once the handler has returned or raised.\<close>

definition socket_ends :: "uuid \<Rightarrow> nat \<Rightarrow> registry \<Rightarrow> registry" where
  "socket_ends session c reg = registry_remove session c reg"

subsection \<open>Who is served\<close>

lemma vet_session_Inr: "vet_session s = Inr sid \<longleftrightarrow> s = uuid_str sid"
  using uuid_parse_str by (auto simp: vet_session_def split: option.splits if_splits)

text \<open>C40: Exactly the vetted handshakes pass: a browser's origin is on the list, or the list is empty and
  the deployment is local; a version, when one is asked for, is a number this server speaks; and the
  session is named by the one canonical text of its identifier, so no two spellings reach the same
  session.\<close>

theorem handshake_passes_exactly_vetted:
  "vet_handshake cfg hs = Inr sid \<longleftrightarrow>
     (\<forall>origin. hs_origin hs = Some origin \<longrightarrow>
        (if ws_allowed_origins cfg = [] then deploy_env cfg = ''local'' else origin \<in> set (ws_allowed_origins cfg))) \<and>
     (\<forall>text'. hs_version hs = Some text' \<longrightarrow> (\<exists>n \<le> PROTOCOL_VERSION. int_base10 text' = Some n)) \<and>
     hs_session hs = uuid_str sid"
  by (cases "hs_origin hs"; cases "hs_version hs"; cases "int_base10 (the (hs_version hs))")
     (auto simp: vet_handshake_def origin_allowed_def vet_session_Inr)

theorem handshake_passes_exactly_vetted_witness:
  "vet_handshake default_settings
     \<lparr>hs_origin = Some ''http://localhost'', hs_version = Some ''1'', hs_session = uuid_str 7\<rparr> = Inr 7"
proof -
  have "int_base10 ''1'' = Some 1" by code_simp
  then show ?thesis
    using handshake_passes_exactly_vetted [of default_settings
        "\<lparr>hs_origin = Some ''http://localhost'', hs_version = Some ''1'', hs_session = uuid_str 7\<rparr>" 7]
    by (simp add: default_settings_def PROTOCOL_VERSION_def)
qed

text \<open>A socket takes a place only if it is served, and gives it back: whatever becomes of a handshake,
  once it has been refused, turned away or ended, every session holds in the registry what it held
  before, and the registry is as well-formed as it was.\<close>

theorem sockets_give_their_place_back:
  assumes "registry_ok reg" "0 < max_per_session reg" "\<forall>sid. c \<notin> set (for_session sid reg)"
    and "chat_socket cfg hs c reg = (reply, reg1)"
    and "reg2 = (case reply of Served sid conn \<Rightarrow> socket_ends sid c reg1 | _ \<Rightarrow> reg1)"
  shows "registry_ok reg2 \<and> (\<forall>sid. for_session sid reg2 = for_session sid reg)"
proof (cases "vet_handshake cfg hs")
  case (Inl refusal)
  with assms(4) have "reply = ClosedBeforeAccept WS_POLICY_VIOLATION refusal" "reg1 = reg"
    by (simp_all add: chat_socket_def)
  with assms(1,5) show ?thesis by simp
next
  case (Inr session)
  obtain taken reg' where add: "registry_add session c reg = (taken, reg')" by fastforce
  let ?cs = "for_session session reg"
  have ok1: "registry_ok reg'" using registry_ok_add [OF assms(1,2), of session c] add by simp
  have d: "distinct (map fst (by_session reg))" using assms(1) by (simp add: registry_ok_def)
  show ?thesis
  proof (cases taken)
    case False
    with add Inr assms(4,5) have reg2: "reg2 = reg'" by (auto simp: chat_socket_def)
    have "reg' = reg\<lparr>by_session := AList.update session ?cs (by_session reg)\<rparr>"
      using add False by (auto simp: registry_add_def Let_def split: if_splits)
    then have "for_session sid reg' = for_session sid reg" for sid
      by (simp add: for_session_def update_conv')
    with reg2 ok1 show ?thesis by simp
  next
    case True
    with add Inr assms(4,5) have reg2: "reg2 = registry_remove session c reg'"
      by (auto simp: chat_socket_def socket_ends_def)
    have reg': "reg' = reg\<lparr>by_session := AList.update session (?cs @ [c]) (by_session reg)\<rparr>"
      using add True assms(3) by (auto simp: registry_add_def Let_def split: if_splits)
    have drop_c: "removeAll c (?cs @ [c]) = ?cs" using assms(3) by simp
    have keys: "for_session sid reg2 = for_session sid reg" for sid
      using drop_c d unfolding reg2 registry_remove_def reg'
      by (auto simp: for_session_def update_conv' delete_conv' Let_def)
    have "registry_ok reg2"
      unfolding reg2 by (rule registry_ok_remove [OF ok1])
    with keys show ?thesis by simp
  qed
qed

theorem sockets_give_their_place_back_witness:
  "for_session 7 (socket_ends 7 3 (snd (chat_socket default_settings
     \<lparr>hs_origin = None, hs_version = None, hs_session = uuid_str 7\<rparr> 3 \<lparr>max_per_session = 8, by_session = []\<rparr>))) = []"
proof -
  let ?reg = "\<lparr>max_per_session = 8, by_session = []\<rparr>"
    and ?hs = "\<lparr>hs_origin = None, hs_version = None, hs_session = uuid_str 7\<rparr>"
  have vet: "vet_handshake default_settings ?hs = Inr 7"
    by (simp add: vet_handshake_def vet_session_Inr)
  have ok: "registry_ok ?reg" "\<forall>sid. 3 \<notin> set (for_session sid ?reg)"
    by (simp_all add: registry_ok_def for_session_def)
  obtain conn reg1 where s: "chat_socket default_settings ?hs 3 ?reg = (Served 7 conn, reg1)"
    by (simp add: chat_socket_def vet registry_add_def for_session_def Let_def)
  from sockets_give_their_place_back [OF ok(1) _ ok(2) s refl] s show ?thesis
    by (simp add: for_session_def)
qed

end
