(* ===== verification/Schema.thy ===== *)
theory Schema
  imports Messages Py_Text
begin

text \<open>
  The physical schema as \<open>adapters/postgres/tables.py\<close> declares it: columns, constraints and indexes
  of the four tables, the naming convention, and the check texts spelled from the enumerations. What
  SQLAlchemy makes of a declaration (the constraints a column's keywords stand for, the names the
  convention gives) follows its documentation; how it renders an index predicate is the argument
  \<open>render\<close>.
\<close>

subsection \<open>What a database holds of a table\<close>

datatype sql_type = UuidT | BigIntT | IntegerT | TextT | BooleanT | JsonbT | TimestampTzT

record column =
  col_name :: string
  col_type :: sql_type
  col_nullable :: bool
  col_default :: "string option"
  col_identity :: bool

datatype constr =
    PrimaryKey (constr_name: string) "string list"
  | UniqueKey (constr_name: string) "string list" bool
  | CheckThat (constr_name: string) string
  | ForeignKeyTo (constr_name: string) "string list" string "string list" string

record table_def =
  tbl_columns :: "column list"
  tbl_constraints :: "constr set"

record index_def =
  ix_table :: string
  ix_columns :: "string list"
  ix_unique :: bool
  ix_where :: "string option"

record schema =
  tables :: "(string \<times> table_def) list"
  indexes :: "(string \<times> index_def) list"

definition empty_schema :: schema where
  "empty_schema = \<lparr>tables = [], indexes = []\<rparr>"

subsection \<open>The vocabulary of a declaration\<close>

text \<open>\<open>Column(...)\<close>: nullable unless said otherwise, and never so for a primary key.\<close>

record meta_column = column +
  is_primary :: bool
  is_unique :: bool
  refers_to :: "(string \<times> string \<times> string) option"

definition Column :: "string \<Rightarrow> sql_type \<Rightarrow> meta_column" where
  "Column n ty =
     \<lparr>col_name = n, col_type = ty, col_nullable = True, col_default = None, col_identity = False,
      is_primary = False, is_unique = False, refers_to = None\<rparr>"

definition primary_key :: "meta_column \<Rightarrow> meta_column" where
  "primary_key c = c\<lparr>is_primary := True, col_nullable := False\<rparr>"

definition not_null :: "meta_column \<Rightarrow> meta_column" where
  "not_null c = c\<lparr>col_nullable := False\<rparr>"

definition server_default :: "string \<Rightarrow> meta_column \<Rightarrow> meta_column" where
  "server_default d c = c\<lparr>col_default := Some d\<rparr>"

datatype meta_arg =
    CheckConstraint string string
  | UniqueConstraint "string list" "string option" bool

datatype index_pred =
    IsNotNull string
  | IsNull string
  | InStates string "job_state list"
  | EqState string job_state

record meta_index =
  mi_columns :: "string list"
  mi_unique :: bool
  mi_where :: "index_pred option"

record meta_table =
  mt_name :: string
  mt_columns :: "meta_column list"
  mt_args :: "meta_arg list"

subsection \<open>Names and texts\<close>

datatype token = Lit string | Table_name | Column_0_N_name | Column_0_name | Constraint_name | Referred_table_name

definition NAMING_CONVENTION :: "(string \<times> token list) list" where
  "NAMING_CONVENTION =
     [(''ix'', [Lit ''ix_'', Table_name, Lit ''_'', Column_0_N_name]),
      (''uq'', [Lit ''uq_'', Table_name, Lit ''_'', Column_0_N_name]),
      (''ck'', [Lit ''ck_'', Table_name, Lit ''_'', Constraint_name]),
      (''fk'', [Lit ''fk_'', Table_name, Lit ''_'', Column_0_name, Lit ''_'', Referred_table_name]),
      (''pk'', [Lit ''pk_'', Table_name])]"

fun token_text :: "string \<Rightarrow> string list \<Rightarrow> string \<Rightarrow> string \<Rightarrow> token \<Rightarrow> string" where
  "token_text tbl cols given referred (Lit s) = s"
| "token_text tbl cols given referred Table_name = tbl"
| "token_text tbl cols given referred Column_0_N_name = join ''_'' cols"
| "token_text tbl cols given referred Column_0_name = (case cols of [] \<Rightarrow> [] | c # _ \<Rightarrow> c)"
| "token_text tbl cols given referred Constraint_name = given"
| "token_text tbl cols given referred Referred_table_name = referred"

definition convention :: "string \<Rightarrow> string \<Rightarrow> string list \<Rightarrow> string \<Rightarrow> string \<Rightarrow> string" where
  "convention prefix tbl cols given referred =
     (case map_of NAMING_CONVENTION prefix of
        None \<Rightarrow> given
      | Some ts \<Rightarrow> concat (map (token_text tbl cols given referred) ts))"

definition quote :: "string \<Rightarrow> string" where
  "quote s = CHR 0x27 # s @ [CHR 0x27]"

definition quoted :: "string list \<Rightarrow> string" where
  "quoted vs = join '', '' (map quote vs)"

definition role_values :: "string list" where
  "role_values = map role_value [USER, ASSISTANT]"

definition status_values :: "string list" where
  "status_values = map status_value [STREAMING, COMPLETE, MSG_FAILED]"

definition job_state_values :: "string list" where
  "job_state_values = map state_value enum_class.enum"

subsection \<open>The four tables\<close>

definition created :: "string \<Rightarrow> meta_column" where
  "created n = not_null (server_default ''now()'' (Column n TimestampTzT))"

definition cascades_to :: "string \<Rightarrow> string \<Rightarrow> meta_column \<Rightarrow> meta_column" where
  "cascades_to tbl col c = c\<lparr>refers_to := Some (tbl, col, ''CASCADE'')\<rparr>"

definition chat_sessions_table :: meta_table where
  "chat_sessions_table =
     \<lparr>mt_name = ''chat_sessions'',
      mt_columns =
        [primary_key (Column ''id'' UuidT),
         not_null (server_default ''1'' (Column ''next_seq'' BigIntT)),
         created ''created_at'',
         created ''last_seen_at''],
      mt_args = []\<rparr>"

definition chat_messages_table :: meta_table where
  "chat_messages_table =
     \<lparr>mt_name = ''chat_messages'',
      mt_columns =
        [primary_key ((Column ''id'' BigIntT)\<lparr>col_identity := True\<rparr>),
         not_null (cascades_to ''chat_sessions'' ''id'' (Column ''session_id'' UuidT)),
         not_null (Column ''seq'' BigIntT),
         (not_null (Column ''message_id'' UuidT))\<lparr>is_unique := True\<rparr>,
         not_null (Column ''role'' TextT),
         not_null (Column ''status'' TextT),
         not_null (server_default (quote []) (Column ''text'' TextT)),
         Column ''client_msg_id'' TextT,
         created ''created_at'',
         Column ''completed_at'' TimestampTzT],
      mt_args =
        [CheckConstraint (''role in ('' @ quoted role_values @ '')'') ''role'',
         CheckConstraint (''status in ('' @ quoted status_values @ '')'') ''status'',
         CheckConstraint (''(role = '' @ quote (role_value USER) @ '') = (client_msg_id is not null)'')
           ''client_msg_id_matches_role'',
         UniqueConstraint [''session_id'', ''seq''] None False]\<rparr>"

definition jobs_table :: meta_table where
  "jobs_table =
     \<lparr>mt_name = ''jobs'',
      mt_columns =
        [primary_key (Column ''id'' UuidT),
         cascades_to ''chat_sessions'' ''id'' (Column ''session_id'' UuidT),
         not_null (Column ''idempotency_key'' TextT),
         not_null (Column ''kind'' TextT),
         not_null (Column ''payload'' JsonbT),
         not_null (server_default (quote (state_value QUEUED)) (Column ''state'' TextT)),
         not_null (server_default ''0'' (Column ''attempts'' IntegerT)),
         not_null (server_default ''3'' (Column ''max_attempts'' IntegerT)),
         created ''run_after'',
         Column ''published_at'' TimestampTzT,
         Column ''lease_id'' UuidT,
         Column ''lease_expires_at'' TimestampTzT,
         Column ''lease_owner'' TextT,
         not_null (server_default ''false'' (Column ''cancel_requested'' BooleanT)),
         Column ''result_ref'' TextT,
         Column ''error'' TextT,
         created ''created_at'',
         created ''updated_at''],
      mt_args =
        [CheckConstraint (''state in ('' @ quoted job_state_values @ '')'') ''state'',
         CheckConstraint ''(lease_id is null) = (lease_expires_at is null)'' ''lease_is_whole'',
         CheckConstraint ''attempts >= 0 and max_attempts > 0'' ''attempts_sane'',
         UniqueConstraint [''session_id'', ''idempotency_key'']
           (Some ''uq_jobs_session_id_idempotency_key'') True]\<rparr>"

definition job_events_table :: meta_table where
  "job_events_table =
     \<lparr>mt_name = ''job_events'',
      mt_columns =
        [primary_key ((Column ''id'' BigIntT)\<lparr>col_identity := True\<rparr>),
         not_null (cascades_to ''jobs'' ''id'' (Column ''job_id'' UuidT)),
         not_null (cascades_to ''chat_sessions'' ''id'' (Column ''session_id'' UuidT)),
         not_null (Column ''seq'' BigIntT),
         not_null (Column ''state'' TextT),
         created ''created_at''],
      mt_args =
        [CheckConstraint (''state in ('' @ quoted job_state_values @ '')'') ''state'',
         UniqueConstraint [''session_id'', ''seq''] None False]\<rparr>"

definition meta_tables :: "meta_table list" where
  "meta_tables = [chat_sessions_table, chat_messages_table, jobs_table, job_events_table]"

definition meta_indexes :: "(string \<times> string \<times> meta_index) list" where
  "meta_indexes =
     [(''uq_chat_messages_session_id_client_msg_id'', ''chat_messages'',
         \<lparr>mi_columns = [''session_id'', ''client_msg_id''], mi_unique = True,
          mi_where = Some (IsNotNull ''client_msg_id'')\<rparr>),
      (''ix_job_events_job_id'', ''job_events'',
         \<lparr>mi_columns = [''job_id''], mi_unique = False, mi_where = None\<rparr>),
      (''ix_jobs_reservable'', ''jobs'',
         \<lparr>mi_columns = [''run_after'', ''created_at''], mi_unique = False,
          mi_where = Some (InStates ''state'' [QUEUED, FAILED])\<rparr>),
      (''ix_jobs_expired_leases'', ''jobs'',
         \<lparr>mi_columns = [''lease_expires_at''], mi_unique = False,
          mi_where = Some (EqState ''state'' RUNNING)\<rparr>),
      (''ix_jobs_unpublished'', ''jobs'',
         \<lparr>mi_columns = [''created_at''], mi_unique = False,
          mi_where = Some (IsNull ''published_at'')\<rparr>)]"

subsection \<open>The schema a declaration stands for\<close>

definition primary_constraint :: "meta_table \<Rightarrow> constr" where
  "primary_constraint t =
     (let cols = map col_name (filter is_primary (mt_columns t))
      in PrimaryKey (convention ''pk'' (mt_name t) cols [] []) cols)"

definition column_constraints :: "string \<Rightarrow> meta_column \<Rightarrow> constr list" where
  "column_constraints tbl c =
     (if is_unique c then [UniqueKey (convention ''uq'' tbl [col_name c] [] []) [col_name c] False] else []) @
     (case refers_to c of
        None \<Rightarrow> []
      | Some (other, key, del) \<Rightarrow>
          [ForeignKeyTo (convention ''fk'' tbl [col_name c] [] other) [col_name c] other [key] del])"

fun arg_constraint :: "string \<Rightarrow> meta_arg \<Rightarrow> constr" where
  "arg_constraint tbl (CheckConstraint txt' given) = CheckThat (convention ''ck'' tbl [] given []) txt'"
| "arg_constraint tbl (UniqueConstraint cols given nnd) =
     UniqueKey (case given of Some n \<Rightarrow> n | None \<Rightarrow> convention ''uq'' tbl cols [] []) cols nnd"

definition table_of :: "meta_table \<Rightarrow> table_def" where
  "table_of t =
     \<lparr>tbl_columns = map column.truncate (mt_columns t),
      tbl_constraints =
        set (primary_constraint t # concat (map (column_constraints (mt_name t)) (mt_columns t)) @
             map (arg_constraint (mt_name t)) (mt_args t))\<rparr>"

definition index_of :: "(index_pred \<Rightarrow> string) \<Rightarrow> string \<Rightarrow> meta_index \<Rightarrow> index_def" where
  "index_of render tbl i =
     \<lparr>ix_table = tbl, ix_columns = mi_columns i, ix_unique = mi_unique i,
      ix_where = map_option render (mi_where i)\<rparr>"

definition metadata :: "(index_pred \<Rightarrow> string) \<Rightarrow> schema" where
  "metadata render =
     \<lparr>tables = map (\<lambda>t. (mt_name t, table_of t)) meta_tables,
      indexes = map (\<lambda>(n, tbl, i). (n, index_of render tbl i)) meta_indexes\<rparr>"

text \<open>Two schemas that differ only in the order their objects were made in.\<close>

definition same_schema :: "schema \<Rightarrow> schema \<Rightarrow> bool" where
  "same_schema s s' \<longleftrightarrow> set (tables s) = set (tables s') \<and> set (indexes s) = set (indexes s') \<and>
     length (tables s) = length (tables s') \<and> length (indexes s) = length (indexes s')"

end
