(* ===== verification/Migrations.thy ===== *)
theory Migrations
  imports Schema
begin

text \<open>
  The three revisions of \<open>alembic/versions\<close> as lists of schema operations, what Postgres documents
  such an operation to do, and the chain of revisions. A migration runs in one transaction
  (\<open>alembic/env.py\<close>), so an operation that fails leaves nothing behind. The theorems: the chain, run
  on an empty database, builds exactly the schema that \<open>adapters/postgres/tables.py\<close> declares, and
  each downgrade takes back exactly what its upgrade made.
\<close>

subsection \<open>Schema operations\<close>

datatype ddl =
    CreateTable string "column list" "constr list"
  | CreateIndex string string "string list" bool "string option"
  | DropIndex string string
  | DropTable string

datatype ddl_error =
    DuplicateObject string
  | UndefinedTable string
  | UndefinedColumn string
  | UndefinedObject string
  | InvalidForeignKey string
  | DependentObjects string

definition table_named :: "schema \<Rightarrow> string \<Rightarrow> table_def option" where
  "table_named s n = map_of (tables s) n"

fun backed_by_index :: "constr \<Rightarrow> bool" where
  "backed_by_index (PrimaryKey _ _) = True"
| "backed_by_index (UniqueKey _ _ _) = True"
| "backed_by_index _ = False"

fun constr_columns :: "constr \<Rightarrow> string list" where
  "constr_columns (PrimaryKey _ cols) = cols"
| "constr_columns (UniqueKey _ cols _) = cols"
| "constr_columns (CheckThat _ _) = []"
| "constr_columns (ForeignKeyTo _ cols _ _ _) = cols"

text \<open>Tables, indexes and the indexes behind keys share one name space.\<close>

definition name_taken :: "schema \<Rightarrow> string \<Rightarrow> bool" where
  "name_taken s n \<longleftrightarrow> n \<in> fst ` set (tables s) \<or> n \<in> fst ` set (indexes s) \<or>
     (\<exists>t \<in> set (tables s). \<exists>c \<in> tbl_constraints (snd t). backed_by_index c \<and> constr_name c = n)"

fun is_key_of :: "string list \<Rightarrow> constr \<Rightarrow> bool" where
  "is_key_of cols (PrimaryKey _ ks) = (ks = cols)"
| "is_key_of cols (UniqueKey _ ks _) = (ks = cols)"
| "is_key_of cols _ = False"

fun reference_ok :: "(string \<Rightarrow> table_def option) \<Rightarrow> constr \<Rightarrow> bool" where
  "reference_ok find_table (ForeignKeyTo _ _ other keys _) =
     (case find_table other of None \<Rightarrow> False | Some d \<Rightarrow> (\<exists>c \<in> tbl_constraints d. is_key_of keys c))"
| "reference_ok find_table _ = True"

fun referenced :: "constr \<Rightarrow> string option" where
  "referenced (ForeignKeyTo _ _ other _ _) = Some other"
| "referenced _ = None"

definition create_table :: "string \<Rightarrow> column list \<Rightarrow> constr list \<Rightarrow> schema \<Rightarrow> ddl_error + schema" where
  "create_table n cols cs s =
     (let d = \<lparr>tbl_columns = cols, tbl_constraints = set cs\<rparr>
      in if name_taken s n then Inl (DuplicateObject n)
         else if \<not> distinct (map constr_name cs) \<or> \<not> distinct (map col_name cols) then Inl (DuplicateObject n)
         else if \<exists>c \<in> set cs. backed_by_index c \<and> (constr_name c = n \<or> name_taken s (constr_name c))
           then Inl (DuplicateObject n)
         else if \<not> (\<forall>c \<in> set cs. set (constr_columns c) \<subseteq> set (map col_name cols)) then Inl (UndefinedColumn n)
         else if \<not> (\<forall>c \<in> set cs. reference_ok ((table_named s)(n \<mapsto> d)) c) then Inl (InvalidForeignKey n)
         else Inr (s\<lparr>tables := tables s @ [(n, d)]\<rparr>))"

definition create_index ::
  "string \<Rightarrow> string \<Rightarrow> string list \<Rightarrow> bool \<Rightarrow> string option \<Rightarrow> schema \<Rightarrow> ddl_error + schema" where
  "create_index n tbl cols unique whr s =
     (case table_named s tbl of
        None \<Rightarrow> Inl (UndefinedTable tbl)
      | Some d \<Rightarrow>
          if name_taken s n then Inl (DuplicateObject n)
          else if \<not> set cols \<subseteq> set (map col_name (tbl_columns d)) then Inl (UndefinedColumn n)
          else Inr (s\<lparr>indexes := indexes s @
                 [(n, \<lparr>ix_table = tbl, ix_columns = cols, ix_unique = unique, ix_where = whr\<rparr>)]\<rparr>))"

definition drop_index :: "string \<Rightarrow> schema \<Rightarrow> ddl_error + schema" where
  "drop_index n s =
     (if n \<in> fst ` set (indexes s) then Inr (s\<lparr>indexes := filter (\<lambda>i. fst i \<noteq> n) (indexes s)\<rparr>)
      else Inl (UndefinedObject n))"

definition drop_table :: "string \<Rightarrow> schema \<Rightarrow> ddl_error + schema" where
  "drop_table n s =
     (if n \<notin> fst ` set (tables s) then Inl (UndefinedTable n)
      else if \<exists>t \<in> set (tables s). fst t \<noteq> n \<and> (\<exists>c \<in> tbl_constraints (snd t). referenced c = Some n)
        then Inl (DependentObjects n)
      else Inr \<lparr>tables = filter (\<lambda>t. fst t \<noteq> n) (tables s),
                indexes = filter (\<lambda>i. ix_table (snd i) \<noteq> n) (indexes s)\<rparr>)"

fun apply_ddl :: "schema \<Rightarrow> ddl \<Rightarrow> ddl_error + schema" where
  "apply_ddl s (CreateTable n cols cs) = create_table n cols cs s"
| "apply_ddl s (CreateIndex n tbl cols unique whr) = create_index n tbl cols unique whr s"
| "apply_ddl s (DropIndex n tbl) = drop_index n s"
| "apply_ddl s (DropTable n) = drop_table n s"

definition run_ddl :: "ddl list \<Rightarrow> schema \<Rightarrow> ddl_error + schema" where
  "run_ddl ops s = foldE apply_ddl s ops"

subsection \<open>Revisions\<close>

record revision =
  rev_id :: string
  down_revision :: "string option"
  upgrade :: "ddl list"
  downgrade :: "ddl list"

definition sa_column :: "string \<Rightarrow> sql_type \<Rightarrow> string option \<Rightarrow> bool \<Rightarrow> column" where
  "sa_column n ty dflt nullable =
     \<lparr>col_name = n, col_type = ty, col_nullable = nullable, col_default = dflt, col_identity = False\<rparr>"

definition identity_column :: "string \<Rightarrow> sql_type \<Rightarrow> column" where
  "identity_column n ty = (sa_column n ty None False)\<lparr>col_identity := True\<rparr>"

definition chat_upgrade :: "ddl list" where
  "chat_upgrade =
     [CreateTable ''chat_sessions''
        [sa_column ''id'' UuidT None False,
         sa_column ''next_seq'' BigIntT (Some ''1'') False,
         sa_column ''created_at'' TimestampTzT (Some ''now()'') False,
         sa_column ''last_seen_at'' TimestampTzT (Some ''now()'') False]
        [PrimaryKey ''pk_chat_sessions'' [''id'']],
      CreateTable ''chat_messages''
        [identity_column ''id'' BigIntT,
         sa_column ''session_id'' UuidT None False,
         sa_column ''seq'' BigIntT None False,
         sa_column ''message_id'' UuidT None False,
         sa_column ''role'' TextT None False,
         sa_column ''status'' TextT None False,
         sa_column ''text'' TextT (Some [CHR 0x27, CHR 0x27]) False,
         sa_column ''client_msg_id'' TextT None True,
         sa_column ''created_at'' TimestampTzT (Some ''now()'') False,
         sa_column ''completed_at'' TimestampTzT None True]
        [CheckThat ''ck_chat_messages_client_msg_id_matches_role''
           ''(role = 'user') = (client_msg_id is not null)'',
         CheckThat ''ck_chat_messages_role'' ''role in ('user', 'assistant')'',
         CheckThat ''ck_chat_messages_status'' ''status in ('streaming', 'complete', 'failed')'',
         ForeignKeyTo ''fk_chat_messages_session_id_chat_sessions'' [''session_id''] ''chat_sessions'' [''id''] ''CASCADE'',
         PrimaryKey ''pk_chat_messages'' [''id''],
         UniqueKey ''uq_chat_messages_message_id'' [''message_id''] False,
         UniqueKey ''uq_chat_messages_session_id_seq'' [''session_id'', ''seq''] False],
      CreateIndex ''uq_chat_messages_session_id_client_msg_id'' ''chat_messages''
        [''session_id'', ''client_msg_id''] True (Some ''client_msg_id IS NOT NULL'')]"

definition chat_downgrade :: "ddl list" where
  "chat_downgrade =
     [DropIndex ''uq_chat_messages_session_id_client_msg_id'' ''chat_messages'',
      DropTable ''chat_messages'',
      DropTable ''chat_sessions'']"

definition jobs_upgrade :: "ddl list" where
  "jobs_upgrade =
     [CreateTable ''jobs''
        [sa_column ''id'' UuidT None False,
         sa_column ''session_id'' UuidT None True,
         sa_column ''idempotency_key'' TextT None False,
         sa_column ''kind'' TextT None False,
         sa_column ''payload'' JsonbT None False,
         sa_column ''state'' TextT (Some (CHR 0x27 # ''queued'' @ [CHR 0x27])) False,
         sa_column ''attempts'' IntegerT (Some ''0'') False,
         sa_column ''max_attempts'' IntegerT (Some ''3'') False,
         sa_column ''run_after'' TimestampTzT (Some ''now()'') False,
         sa_column ''published_at'' TimestampTzT None True,
         sa_column ''lease_id'' UuidT None True,
         sa_column ''lease_expires_at'' TimestampTzT None True,
         sa_column ''lease_owner'' TextT None True,
         sa_column ''cancel_requested'' BooleanT (Some ''false'') False,
         sa_column ''result_ref'' TextT None True,
         sa_column ''error'' TextT None True,
         sa_column ''created_at'' TimestampTzT (Some ''now()'') False,
         sa_column ''updated_at'' TimestampTzT (Some ''now()'') False]
        [CheckThat ''ck_jobs_state''
           ''state in ('queued', 'running', 'done', 'failed', 'dead', 'cancelled')'',
         CheckThat ''ck_jobs_lease_is_whole'' ''(lease_id is null) = (lease_expires_at is null)'',
         CheckThat ''ck_jobs_attempts_sane'' ''attempts >= 0 and max_attempts > 0'',
         ForeignKeyTo ''fk_jobs_session_id_chat_sessions'' [''session_id''] ''chat_sessions'' [''id''] ''CASCADE'',
         PrimaryKey ''pk_jobs'' [''id''],
         UniqueKey ''uq_jobs_session_id_idempotency_key'' [''session_id'', ''idempotency_key''] True],
      CreateIndex ''ix_jobs_expired_leases'' ''jobs'' [''lease_expires_at''] False
        (Some (''state = '' @ CHR 0x27 # ''running'' @ [CHR 0x27])),
      CreateIndex ''ix_jobs_reservable'' ''jobs'' [''run_after'', ''created_at''] False
        (Some ''state IN ('queued', 'failed')''),
      CreateIndex ''ix_jobs_unpublished'' ''jobs'' [''created_at''] False
        (Some ''published_at IS NULL'')]"

definition jobs_downgrade :: "ddl list" where
  "jobs_downgrade =
     [DropIndex ''ix_jobs_unpublished'' ''jobs'',
      DropIndex ''ix_jobs_reservable'' ''jobs'',
      DropIndex ''ix_jobs_expired_leases'' ''jobs'',
      DropTable ''jobs'']"

definition events_upgrade :: "ddl list" where
  "events_upgrade =
     [CreateTable ''job_events''
        [identity_column ''id'' BigIntT,
         sa_column ''job_id'' UuidT None False,
         sa_column ''session_id'' UuidT None False,
         sa_column ''seq'' BigIntT None False,
         sa_column ''state'' TextT None False,
         sa_column ''created_at'' TimestampTzT (Some ''now()'') False]
        [CheckThat ''ck_job_events_state''
           ''state in ('queued', 'running', 'done', 'failed', 'dead', 'cancelled')'',
         ForeignKeyTo ''fk_job_events_job_id_jobs'' [''job_id''] ''jobs'' [''id''] ''CASCADE'',
         ForeignKeyTo ''fk_job_events_session_id_chat_sessions'' [''session_id''] ''chat_sessions'' [''id''] ''CASCADE'',
         PrimaryKey ''pk_job_events'' [''id''],
         UniqueKey ''uq_job_events_session_id_seq'' [''session_id'', ''seq''] False],
      CreateIndex ''ix_job_events_job_id'' ''job_events'' [''job_id''] False None]"

definition events_downgrade :: "ddl list" where
  "events_downgrade =
     [DropIndex ''ix_job_events_job_id'' ''job_events'',
      DropTable ''job_events'']"

definition versions :: "revision list" where
  "versions =
     [\<lparr>rev_id = ''27cae6e6a044'', down_revision = None,
       upgrade = chat_upgrade, downgrade = chat_downgrade\<rparr>,
      \<lparr>rev_id = ''d65c158b518a'', down_revision = Some ''27cae6e6a044'',
       upgrade = jobs_upgrade, downgrade = jobs_downgrade\<rparr>,
      \<lparr>rev_id = ''dd0ed3cba861'', down_revision = Some ''d65c158b518a'',
       upgrade = events_upgrade, downgrade = events_downgrade\<rparr>]"

text \<open>
  Alembic follows the links of \<open>down_revision\<close> from the revision the database records, and records
  the revision it has reached. A revision is applied only on top of the one it names.
\<close>

type_synonym migrated = "schema \<times> string option"

function climb :: "revision list \<Rightarrow> string option \<Rightarrow> revision list" where
  "climb revs v =
     (case find (\<lambda>r. down_revision r = v) revs of
        None \<Rightarrow> []
      | Some r \<Rightarrow> r # climb (remove1 r revs) (Some (rev_id r)))"
  by pat_completeness auto
termination
  by (relation "measure (\<lambda>(revs, v). length revs)")
     (auto dest!: find_SomeD simp: length_remove1 dest: length_pos_if_in_set)

declare climb.simps [simp del]

definition upgrade_one :: "migrated \<Rightarrow> revision \<Rightarrow> ddl_error + migrated" where
  "upgrade_one m r = bindE (run_ddl (upgrade r) (fst m)) (\<lambda>s. Inr (s, Some (rev_id r)))"

definition downgrade_one :: "migrated \<Rightarrow> revision \<Rightarrow> ddl_error + migrated" where
  "downgrade_one m r = bindE (run_ddl (downgrade r) (fst m)) (\<lambda>s. Inr (s, down_revision r))"

definition upgrade_head :: "revision list \<Rightarrow> migrated \<Rightarrow> ddl_error + migrated" where
  "upgrade_head revs m = foldE upgrade_one m (climb revs (snd m))"

definition downgrade_base :: "revision list \<Rightarrow> migrated \<Rightarrow> ddl_error + migrated" where
  "downgrade_base revs m = foldE downgrade_one m (rev (climb revs None))"

lemma climb_versions: "climb versions None = versions"
  by code_simp

subsection \<open>What an operation that makes something can be taken back by\<close>

fun inverse_ddl :: "ddl \<Rightarrow> ddl option" where
  "inverse_ddl (CreateTable n cols cs) = Some (DropTable n)"
| "inverse_ddl (CreateIndex n tbl cols unique whr) = Some (DropIndex n tbl)"
| "inverse_ddl _ = None"

text \<open>Foreign keys point at tables of the schema and indexes belong to them, as Postgres enforces.\<close>

definition resolved :: "schema \<Rightarrow> bool" where
  "resolved s \<longleftrightarrow>
     (\<forall>t \<in> set (tables s). \<forall>c \<in> tbl_constraints (snd t). \<forall>other. referenced c = Some other \<longrightarrow> other \<in> fst ` set (tables s)) \<and>
     (\<forall>i \<in> set (indexes s). ix_table (snd i) \<in> fst ` set (tables s))"

lemma resolved_empty: "resolved empty_schema"
  by (simp add: resolved_def empty_schema_def)

lemma table_namedD: "table_named s n = Some d \<Longrightarrow> n \<in> fst ` set (tables s)"
  by (force simp: table_named_def dest: map_of_SomeD)

lemma reference_ok_named:
  assumes "reference_ok f c" "referenced c = Some other"
  shows "f other \<noteq> None"
  using assms by (cases c) (auto split: option.splits)

lemma create_table_Inr:
  assumes "create_table n cols cs s = Inr s'"
  shows "\<not> name_taken s n" "s' = s\<lparr>tables := tables s @ [(n, \<lparr>tbl_columns = cols, tbl_constraints = set cs\<rparr>)]\<rparr>"
    and "\<And>c other. c \<in> set cs \<Longrightarrow> referenced c = Some other \<Longrightarrow> other = n \<or> other \<in> fst ` set (tables s)"
proof -
  show "\<not> name_taken s n" "s' = s\<lparr>tables := tables s @ [(n, \<lparr>tbl_columns = cols, tbl_constraints = set cs\<rparr>)]\<rparr>"
    using assms by (auto simp: create_table_def Let_def split: if_splits)
  fix c other
  assume c: "c \<in> set cs" "referenced c = Some other"
  with assms have "reference_ok ((table_named s)(n \<mapsto> \<lparr>tbl_columns = cols, tbl_constraints = set cs\<rparr>)) c"
    by (auto simp: create_table_def Let_def split: if_splits)
  from reference_ok_named [OF this c(2)] show "other = n \<or> other \<in> fst ` set (tables s)"
    by (auto dest: table_namedD split: if_splits)
qed

lemma create_index_Inr:
  assumes "create_index n tbl cols unique whr s = Inr s'"
  shows "\<not> name_taken s n" "tbl \<in> fst ` set (tables s)"
    and "s' = s\<lparr>indexes := indexes s @
               [(n, \<lparr>ix_table = tbl, ix_columns = cols, ix_unique = unique, ix_where = whr\<rparr>)]\<rparr>"
  using assms by (auto simp: create_index_def split: option.splits if_splits dest: table_namedD)

lemma filter_new: "x \<notin> f ` set xs \<Longrightarrow> filter (\<lambda>y. f y \<noteq> x) xs = xs"
  by (induction xs) auto

lemma inverse_takes_back:
  assumes "apply_ddl s op = Inr s'" "inverse_ddl op = Some undo" "resolved s"
  shows "apply_ddl s' undo = Inr s \<and> resolved s'"
proof (cases op)
  case (CreateTable n cols cs)
  let ?d = "\<lparr>tbl_columns = cols, tbl_constraints = set cs\<rparr>"
  from assms(1) CreateTable have mk: "create_table n cols cs s = Inr s'" by simp
  note made = create_table_Inr [OF mk]
  have fresh: "n \<notin> fst ` set (tables s)" using made(1) by (simp add: name_taken_def)
  have noref: "\<And>t c. t \<in> set (tables s) \<Longrightarrow> c \<in> tbl_constraints (snd t) \<Longrightarrow> referenced c \<noteq> Some n"
    using assms(3) fresh by (auto simp: resolved_def)
  have noix: "\<And>i. i \<in> set (indexes s) \<Longrightarrow> ix_table (snd i) \<noteq> n"
    using assms(3) fresh by (auto simp: resolved_def)
  have "drop_table n s' = Inr s"
    using made(2) fresh noref noix
    by (auto simp: drop_table_def filter_new filter_id_conv)
  moreover have "resolved s'"
    using made assms(3) unfolding resolved_def by (auto simp: image_iff)
  ultimately show ?thesis using assms(2) CreateTable by auto
next
  case (CreateIndex n tbl cols unique whr)
  with assms(1) have mk: "create_index n tbl cols unique whr s = Inr s'" by simp
  note made = create_index_Inr [OF mk]
  have fresh: "n \<notin> fst ` set (indexes s)" using made(1) by (simp add: name_taken_def)
  have "drop_index n s' = Inr s"
    using made(3) fresh by (simp add: drop_index_def filter_new)
  moreover have "resolved s'"
    using made(2,3) assms(3) by (auto simp: resolved_def)
  ultimately show ?thesis using assms(2) CreateIndex by auto
qed (use assms(2) in auto)

lemma foldE_append: "foldE f s (xs @ ys) = bindE (foldE f s xs) (\<lambda>s'. foldE f s' ys)"
  by (induction xs arbitrary: s) (auto simp: bindE_assoc)

lemma run_takes_back:
  assumes "run_ddl ops s = Inr s'" "map inverse_ddl ops = map Some undos" "resolved s"
  shows "run_ddl (rev undos) s' = Inr s \<and> resolved s'"
  using assms
proof (induction ops arbitrary: s undos)
  case Nil
  then show ?case by (simp add: run_ddl_def)
next
  case (Cons op ops)
  from Cons.prems(2) obtain undo undos' where undos: "undos = undo # undos'"
      "inverse_ddl op = Some undo" "map inverse_ddl ops = map Some undos'" by (cases undos) auto
  from Cons.prems(1) obtain s1 where s1: "apply_ddl s op = Inr s1" "run_ddl ops s1 = Inr s'"
    by (auto simp: run_ddl_def bindE_eq_Inr)
  note first = inverse_takes_back [OF s1(1) undos(2) Cons.prems(3)]
  from Cons.IH [OF s1(2) undos(3)] first have "run_ddl (rev undos') s' = Inr s1" "resolved s'" by auto
  with first show ?case by (simp add: run_ddl_def undos(1) foldE_append)
qed

subsection \<open>The schema the revisions build\<close>

text \<open>How SQLAlchemy documents that the four predicates are rendered.\<close>

fun sql_text :: "index_pred \<Rightarrow> string" where
  "sql_text (IsNotNull c) = c @ '' IS NOT NULL''"
| "sql_text (IsNull c) = c @ '' IS NULL''"
| "sql_text (InStates c ss) = c @ '' IN ('' @ quoted (map state_value ss) @ '')''"
| "sql_text (EqState c s) = c @ '' = '' @ quote (state_value s)"

lemma upgrade_head_empty:
  "(case upgrade_head versions (empty_schema, None) of
      Inl e \<Rightarrow> False
    | Inr m \<Rightarrow> same_schema (fst m) (metadata sql_text) \<and> snd m = Some ''dd0ed3cba861'')"
  by code_simp

text \<open>C15: The revisions and the declared tables do not drift apart: run on an empty database, the
  chain of upgrades succeeds and leaves exactly the tables, columns, constraints and indexes that
  \<open>tables.py\<close> declares, with the check texts its enumerations spell, and records the last revision.\<close>

theorem migrations_build_the_schema:
  assumes "render (IsNotNull ''client_msg_id'') = ''client_msg_id IS NOT NULL''"
    and "render (InStates ''state'' [QUEUED, FAILED]) = ''state IN ('queued', 'failed')''"
    and "render (EqState ''state'' RUNNING) = ''state = '' @ CHR 0x27 # ''running'' @ [CHR 0x27]"
    and "render (IsNull ''published_at'') = ''published_at IS NULL''"
  shows "case upgrade_head versions (empty_schema, None) of
           Inl e \<Rightarrow> False
         | Inr m \<Rightarrow> same_schema (fst m) (metadata render) \<and> snd m = Some ''dd0ed3cba861''"
proof -
  have same: "metadata render = metadata sql_text"
    by (simp add: metadata_def meta_indexes_def index_of_def assms quoted_def quote_def)
  show ?thesis unfolding same by (rule upgrade_head_empty)
qed

theorem migrations_build_the_schema_witness:
  "case upgrade_head versions (empty_schema, None) of
     Inl e \<Rightarrow> False
   | Inr m \<Rightarrow> same_schema (fst m) (metadata sql_text) \<and> snd m = Some ''dd0ed3cba861''"
  by (rule migrations_build_the_schema [of sql_text]) (simp_all add: quoted_def quote_def)

lemma inverse_versions:
  assumes "r \<in> set versions"
  obtains undos where "map inverse_ddl (upgrade r) = map Some undos" "downgrade r = rev undos"
proof -
  have "\<forall>r \<in> set versions. map inverse_ddl (upgrade r) = map Some (rev (downgrade r))"
    by (simp add: versions_def chat_upgrade_def chat_downgrade_def jobs_upgrade_def jobs_downgrade_def
        events_upgrade_def events_downgrade_def)
  with assms have "map inverse_ddl (upgrade r) = map Some (rev (downgrade r))" by blast
  then show ?thesis by (rule that) simp
qed

text \<open>C39: A downgrade takes back exactly what its upgrade made: on whatever database the upgrade
  succeeds, whatever else that database holds, the downgrade then succeeds and leaves the schema and
  the recorded revision as they were.\<close>

theorem downgrade_undoes_upgrade:
  assumes "r \<in> set versions" "resolved (fst m)" "snd m = down_revision r"
    and "upgrade_one m r = Inr m'"
  shows "downgrade_one m' r = Inr m"
proof -
  obtain s where s: "run_ddl (upgrade r) (fst m) = Inr s" "m' = (s, Some (rev_id r))"
    using assms(4) by (auto simp: upgrade_one_def bindE_eq_Inr)
  obtain undos where undos: "map inverse_ddl (upgrade r) = map Some undos" "downgrade r = rev undos"
    using assms(1) by (rule inverse_versions)
  from run_takes_back [OF s(1) undos(1) assms(2)] undos(2) have "run_ddl (downgrade r) s = Inr (fst m)" by simp
  with s(2) assms(3) show ?thesis by (cases m) (simp add: downgrade_one_def)
qed

theorem downgrade_undoes_upgrade_witness:
  "(case upgrade_one (empty_schema, None) (versions ! 0) of
      Inl e \<Rightarrow> False
    | Inr m \<Rightarrow> downgrade_one m (versions ! 0) = Inr (empty_schema, None))"
proof (cases "upgrade_one (empty_schema, None) (versions ! 0)")
  case (Inl e)
  moreover have "case upgrade_one (empty_schema, None) (versions ! 0) of Inl e \<Rightarrow> False | Inr m \<Rightarrow> True"
    by code_simp
  ultimately show ?thesis by simp
next
  case (Inr m)
  have "downgrade_one m (versions ! 0) = Inr (empty_schema, None)"
    by (rule downgrade_undoes_upgrade [OF _ _ _ Inr]) (simp_all add: versions_def resolved_empty)
  with Inr show ?thesis by simp
qed

end
