(* ===== verification/Migration_Env.thy ===== *)
theory Migration_Env
  imports Migrations
begin

text \<open>
  \<open>alembic/env.py\<close>: the two ways the revisions are run. Online, one connection runs them in one
  transaction; offline, the same operations are written out as a script for someone else to run. What
  a server does with the statements of a script is Postgres' documented handling of a transaction: the
  first statement that fails aborts it, what follows is ignored, and its commit rolls back.
\<close>

subsection \<open>A script and its server\<close>

datatype statement = Begin | Execute ddl | Stamp "string option" | Commit

record session =
  committed :: migrated
  in_tx :: "(ddl_error + migrated) option"

definition stamped :: "string option \<Rightarrow> migrated \<Rightarrow> ddl_error + migrated" where
  "stamped v m = Inr (fst m, v)"

definition executed :: "ddl \<Rightarrow> migrated \<Rightarrow> ddl_error + migrated" where
  "executed op m = bindE (apply_ddl (fst m) op) (\<lambda>s. Inr (s, snd m))"

definition in_session :: "(migrated \<Rightarrow> ddl_error + migrated) \<Rightarrow> session \<Rightarrow> session" where
  "in_session f s =
     (case in_tx s of
        Some st \<Rightarrow> s\<lparr>in_tx := Some (bindE st f)\<rparr>
      | None \<Rightarrow> (case f (committed s) of Inl e \<Rightarrow> s | Inr m \<Rightarrow> s\<lparr>committed := m\<rparr>))"

fun serve_statement :: "statement \<Rightarrow> session \<Rightarrow> session" where
  "serve_statement Begin s = (case in_tx s of None \<Rightarrow> s\<lparr>in_tx := Some (Inr (committed s))\<rparr> | Some _ \<Rightarrow> s)"
| "serve_statement (Execute op) s = in_session (executed op) s"
| "serve_statement (Stamp v) s = in_session (stamped v) s"
| "serve_statement Commit s =
     (case in_tx s of
        None \<Rightarrow> s
      | Some (Inl e) \<Rightarrow> s\<lparr>in_tx := None\<rparr>
      | Some (Inr m) \<Rightarrow> \<lparr>committed = m, in_tx = None\<rparr>)"

definition serve_script :: "statement list \<Rightarrow> migrated \<Rightarrow> migrated" where
  "serve_script script m = committed (fold serve_statement script \<lparr>committed = m, in_tx = None\<rparr>)"

subsection \<open>The two modes\<close>

definition revision_script :: "revision \<Rightarrow> statement list" where
  "revision_script r = map Execute (upgrade r) @ [Stamp (Some (rev_id r))]"

text \<open>Offline there is no connection to ask: the script starts from the revision the command names, the base
  (\<open>None\<close>) when it names none.\<close>

definition run_migrations_offline :: "revision list \<Rightarrow> string option \<Rightarrow> statement list" where
  "run_migrations_offline revs v = [Begin] @ concat (map revision_script (climb revs v)) @ [Commit]"

datatype migration_error = ConnectFailed | MigrationFailed ddl_error

definition do_run_migrations :: "revision list \<Rightarrow> migrated \<Rightarrow> (migration_error + unit) \<times> migrated" where
  "do_run_migrations revs m =
     (case upgrade_head revs m of Inl e \<Rightarrow> (Inl (MigrationFailed e), m) | Inr m' \<Rightarrow> (Inr (), m'))"

text \<open>The calls on the engine: whether it was disposed of is part of the answer.\<close>

definition run_async_migrations ::
    "bool \<Rightarrow> revision list \<Rightarrow> migrated \<Rightarrow> (migration_error + unit) \<times> bool \<times> migrated" where
  "run_async_migrations reachable revs m =
     (if \<not> reachable then (Inl ConnectFailed, False, m)
      else case do_run_migrations revs m of
             (Inl e, m') \<Rightarrow> (Inl e, False, m')
           | (Inr _, m') \<Rightarrow> (Inr (), True, m'))"

text \<open>The dispatch at the end of the module: what is printed, what escapes, and the database left.\<close>

datatype migration_mode = Online | Offline "string option"

definition env_main ::
    "migration_mode \<Rightarrow> bool \<Rightarrow> revision list \<Rightarrow> migrated \<Rightarrow> statement list \<times> (migration_error + unit) \<times> migrated" where
  "env_main mode reachable revs m =
     (case mode of
        Offline v \<Rightarrow> (run_migrations_offline revs v, Inr (), m)
      | Online \<Rightarrow> (case run_async_migrations reachable revs m of (r, disposed, m') \<Rightarrow> ([], r, m')))"

subsection \<open>The script is the migration\<close>

lemma bindE_returns: "bindE x Inr = x"
  by (cases x) simp_all

lemma same_session: "in_tx s = Some st \<Longrightarrow> s\<lparr>in_tx := Some st\<rparr> = s"
  by (cases s) simp

lemma executed_all:
  "foldE (\<lambda>m op. executed op m) m ops = bindE (run_ddl ops (fst m)) (\<lambda>s. Inr (s, snd m))"
proof (induction ops arbitrary: m)
  case (Cons op ops)
  show ?case
  proof (cases "apply_ddl (fst m) op")
    case (Inr s)
    with Cons [of "(s, snd m)"] show ?thesis by (simp add: run_ddl_def executed_def bindE_assoc)
  qed (simp add: run_ddl_def executed_def)
qed (simp add: run_ddl_def)

lemma serve_executes:
  "in_tx s = Some st \<Longrightarrow>
   fold serve_statement (map Execute ops) s =
     s\<lparr>in_tx := Some (bindE st (\<lambda>m. foldE (\<lambda>m op. executed op m) m ops))\<rparr>"
proof (induction ops arbitrary: s st)
  case (Cons op ops)
  from Cons.IH [of "s\<lparr>in_tx := Some (bindE st (executed op))\<rparr>"] Cons.prems show ?case
    by (simp add: in_session_def bindE_assoc)
qed (simp add: bindE_returns same_session)

lemma serve_revision:
  assumes "in_tx s = Some st"
  shows "fold serve_statement (revision_script r) s = s\<lparr>in_tx := Some (bindE st (\<lambda>m. upgrade_one m r))\<rparr>"
proof -
  have "bindE (bindE (run_ddl (upgrade r) (fst m)) (\<lambda>x. Inr (x, snd m))) (stamped (Some (rev_id r))) = upgrade_one m r" for m
    by (cases "run_ddl (upgrade r) (fst m)") (simp_all add: upgrade_one_def stamped_def)
  then show ?thesis
    using serve_executes [OF assms, of "upgrade r"] by (simp add: revision_script_def in_session_def executed_all bindE_assoc)
qed

lemma serve_revisions:
  "in_tx s = Some st \<Longrightarrow>
   fold serve_statement (concat (map revision_script rs)) s =
     s\<lparr>in_tx := Some (bindE st (\<lambda>m. foldE upgrade_one m rs))\<rparr>"
proof (induction rs arbitrary: s st)
  case (Cons r rs)
  from Cons.IH [of "s\<lparr>in_tx := Some (bindE st (\<lambda>m. upgrade_one m r))\<rparr>"] Cons.prems show ?case
    by (simp add: serve_revision bindE_assoc)
qed (simp add: bindE_returns same_session)

text \<open>The script that is reviewed is the migration that would run: written from the revision a database
  is at and handed to its server, it leaves that database exactly as an online run would, the whole way up when
  every operation succeeds and untouched when one fails; writing it touches nothing, and an online run
  that fails, or finds no database, leaves what there was.\<close>

theorem reviewed_script_is_the_migration:
  "serve_script (fst (env_main (Offline (snd m)) reachable revs m)) m = snd (snd (env_main Online True revs m)) \<and>
   snd (env_main (Offline v) reachable revs m) = (Inr (), m) \<and>
   (fst (snd (env_main Online online revs m)) \<noteq> Inr () \<longrightarrow> snd (snd (env_main Online online revs m)) = m)"
proof (intro conjI)
  let ?s = "\<lparr>committed = m, in_tx = Some (Inr m)\<rparr>"
  have "fold serve_statement (concat (map revision_script (climb revs (snd m)))) ?s =
      ?s\<lparr>in_tx := Some (upgrade_head revs m)\<rparr>"
    using serve_revisions [of ?s "Inr m"] by (simp add: upgrade_head_def)
  then show "serve_script (fst (env_main (Offline (snd m)) reachable revs m)) m = snd (snd (env_main Online True revs m))"
    by (simp add: env_main_def serve_script_def run_migrations_offline_def run_async_migrations_def do_run_migrations_def
        split: sum.splits)
  show "snd (env_main (Offline v) reachable revs m) = (Inr (), m)" by (simp add: env_main_def)
  show "fst (snd (env_main Online online revs m)) \<noteq> Inr () \<longrightarrow> snd (snd (env_main Online online revs m)) = m"
    by (auto simp: env_main_def run_async_migrations_def do_run_migrations_def split: sum.splits)
qed

end
