(* ===== verification/Dev_Scripts.thy ===== *)
theory Dev_Scripts
  imports Rabbit_Properties
begin

text \<open>
  \<open>dev/enqueue.py\<close>: a script that puts one job on the queue, cancels it if asked, and follows its row
  until the job has ended or patience runs out. Each poll has the reading of \<open>time.monotonic\<close> the loop
  tests and the environment its query runs in, so workers may do anything to the job between two of
  them. A run answers \<open>None\<close> when the list of polls is used up with the loop still going;
  \<open>enqueue_script_ends\<close> shows how long a list is enough. Of what is printed the model keeps the states.
  Closing the queue and the pool at the end changes neither the rows nor the broker's messages.
\<close>

subsection \<open>Arguments\<close>

definition FOLLOW_SECONDS :: rat where "FOLLOW_SECONDS = 300"
definition BEFORE_CANCEL_SECONDS :: rat where "BEFORE_CANCEL_SECONDS = 3"
definition POLL_SECONDS :: rat where "POLL_SECONDS = 1/2"

record script_args =
  a_kind :: string
  a_payload :: payload
  a_max_attempts :: int
  a_idempotency_key :: "string option"
  a_cancel :: bool

definition script_request :: "script_args \<Rightarrow> uuid \<Rightarrow> job_request" where
  "script_request args fresh =
     (request (a_kind args) (a_payload args) None
        (case a_idempotency_key args of
           Some k \<Rightarrow> if k = [] then uuid_str fresh else k
         | None \<Rightarrow> uuid_str fresh))\<lparr>req_max_attempts := a_max_attempts args\<rparr>"

text \<open>
  \<open>_parse\<close>, over what \<open>argparse\<close> found on the command line: \<open>None\<close> where the argument was left out.
  \<open>loads\<close> is the JSON parser; a text it refuses ends the script.
\<close>

definition parse_args ::
    "(string \<Rightarrow> payload option) \<Rightarrow> string option \<Rightarrow> string option \<Rightarrow> int option \<Rightarrow> string option \<Rightarrow> bool \<Rightarrow>
     script_args option" where
  "parse_args loads payload' kind' max_attempts' key cancel' =
     map_option (\<lambda>p.
        \<lparr>a_kind = (case kind' of Some k \<Rightarrow> k | None \<Rightarrow> ''synthetic''), a_payload = p,
         a_max_attempts = (case max_attempts' of Some n \<Rightarrow> n | None \<Rightarrow> 3),
         a_idempotency_key = key, a_cancel = cancel'\<rparr>)
       (loads (case payload' of Some s \<Rightarrow> s | None \<Rightarrow> ''{}''))"

subsection \<open>Polling\<close>

record poll =
  poll_clock :: rat
  poll_env :: env

fun wait_until_running ::
    "rat \<Rightarrow> uuid \<Rightarrow> poll list \<Rightarrow> world \<Rightarrow> (queue_error + bool) option \<times> world" where
  "wait_until_running deadline jid [] w = (None, w)"
| "wait_until_running deadline jid (p # ps) w =
     (if \<not> poll_clock p < deadline then (Some (Inr False), w)
      else case rmq_get (poll_env p) jid w of
        (Inl e, w1) \<Rightarrow> (Some (Inl e), w1)
      | (Inr j, w1) \<Rightarrow>
          (case j of
             Some job \<Rightarrow> if state job = RUNNING then (Some (Inr True), w1)
                         else wait_until_running deadline jid ps w1
           | None \<Rightarrow> wait_until_running deadline jid ps w1))"

datatype follow_end = Ended job | Vanished | OutOfPatience "job_state option" | QueryFailed queue_error

fun follow ::
    "rat \<Rightarrow> job_state option \<Rightarrow> uuid \<Rightarrow> poll list \<Rightarrow> world \<Rightarrow> follow_end option \<times> job_state list \<times> world" where
  "follow deadline last' jid [] w = (None, [], w)"
| "follow deadline last' jid (p # ps) w =
     (if \<not> poll_clock p < deadline then (Some (OutOfPatience last'), [], w)
      else case rmq_get (poll_env p) jid w of
        (Inl e, w1) \<Rightarrow> (Some (QueryFailed e), [], w1)
      | (Inr None, w1) \<Rightarrow> (Some Vanished, [], w1)
      | (Inr (Some job), w1) \<Rightarrow>
          (let out = (if last' = Some (state job) then [] else [state job]) in
           if terminal (state job) then (Some (Ended job), out, w1)
           else case follow deadline (Some (state job)) jid ps w1 of
             (r, outs, w2) \<Rightarrow> (r, out @ outs, w2)))"

subsection \<open>The script\<close>

datatype script_end = Exits int | Complains | RaisesQueue queue_error | RaisesAttribute

record script_env =
  on_enqueue :: env
  wait_from :: rat
  wait_polls :: "poll list"
  on_cancel :: env
  follow_from :: rat
  follow_polls :: "poll list"

definition cancel_first :: "script_env \<Rightarrow> uuid \<Rightarrow> world \<Rightarrow> (script_end + unit) option \<times> world" where
  "cancel_first env jid w =
     (case wait_until_running (wait_from env + BEFORE_CANCEL_SECONDS) jid (wait_polls env) w of
        (None, w1) \<Rightarrow> (None, w1)
      | (Some (Inl e), w1) \<Rightarrow> (Some (Inl (RaisesQueue e)), w1)
      | (Some (Inr running), w1) \<Rightarrow>
          (case rmq_cancel (on_cancel env) jid w1 of
             (Inl e, w2) \<Rightarrow> (Some (Inl (RaisesQueue e)), w2)
           | (Inr None, w2) \<Rightarrow> (Some (Inl RaisesAttribute), w2)
           | (Inr (Some job), w2) \<Rightarrow> (Some (Inr ()), w2)))"

definition exit_status :: "job \<Rightarrow> int" where
  "exit_status job = (if state job = DONE then 0 else 1)"

definition follow_last :: "script_env \<Rightarrow> uuid \<Rightarrow> world \<Rightarrow> script_end option \<times> world" where
  "follow_last env jid w =
     (case follow (follow_from env + FOLLOW_SECONDS) None jid (follow_polls env) w of
        (None, out, w1) \<Rightarrow> (None, w1)
      | (Some (Ended job), out, w1) \<Rightarrow> (Some (Exits (exit_status job)), w1)
      | (Some (QueryFailed e), out, w1) \<Rightarrow> (Some (RaisesQueue e), w1)
      | (Some _, out, w1) \<Rightarrow> (Some Complains, w1))"

definition enqueue_script ::
    "script_args \<Rightarrow> uuid \<Rightarrow> uuid \<Rightarrow> script_env \<Rightarrow> world \<Rightarrow> script_end option \<times> world" where
  "enqueue_script args fresh new_id env w =
     (case rmq_enqueue (on_enqueue env) new_id (script_request args fresh) w of
        (Inl e, w1) \<Rightarrow> (Some (RaisesQueue e), w1)
      | (Inr job, w1) \<Rightarrow>
          if a_cancel args then
            (case cancel_first env (job_id job) w1 of
               (None, w2) \<Rightarrow> (None, w2)
             | (Some (Inl e), w2) \<Rightarrow> (Some e, w2)
             | (Some (Inr _), w2) \<Rightarrow> follow_last env (job_id job) w2)
          else follow_last env (job_id job) w1)"

subsection \<open>The loops end\<close>

text \<open>Polls that are at least \<open>POLL_SECONDS\<close> apart, the first no earlier than \<open>start\<close>.\<close>

definition spaced :: "rat \<Rightarrow> poll list \<Rightarrow> bool" where
  "spaced start ps \<longleftrightarrow> (\<forall>k < length ps. start + of_nat k * POLL_SECONDS \<le> poll_clock (ps ! k))"

lemma spaced_Cons: "spaced start (p # ps) \<Longrightarrow> start \<le> poll_clock p \<and> spaced (start + POLL_SECONDS) ps"
  by (force simp: spaced_def algebra_simps)

lemma follow_ends:
  assumes "spaced start ps" "deadline - start \<le> of_nat k * POLL_SECONDS" "k < length ps"
  shows "fst (follow deadline last' jid ps w) \<noteq> None"
  using assms
proof (induction ps arbitrary: start k last' w)
  case Nil
  then show ?case by simp
next
  case (Cons p ps)
  note sp = spaced_Cons [OF Cons.prems(1)]
  show ?case
  proof (cases "poll_clock p < deadline")
    case False
    then show ?thesis by simp
  next
    case True
    have "k \<noteq> 0"
    proof
      assume "k = 0"
      then have "deadline \<le> start" using Cons.prems(2) by simp
      with sp True show False by simp
    qed
    then obtain k' where k': "k = Suc k'" by (cases k) auto
    have "deadline - (start + POLL_SECONDS) \<le> of_nat k' * POLL_SECONDS"
      using Cons.prems(2) by (simp add: k' algebra_simps)
    moreover have "k' < length ps" using Cons.prems(3) by (simp add: k')
    ultimately have "fst (follow deadline l jid ps w1) \<noteq> None" for l w1
      using Cons.IH sp by blast
    then show ?thesis
      using True by (auto simp: Let_def split: prod.splits sum.splits option.splits) (metis fst_conv)+
  qed
qed

lemma wait_ends:
  assumes "spaced start ps" "deadline - start \<le> of_nat k * POLL_SECONDS" "k < length ps"
  shows "fst (wait_until_running deadline jid ps w) \<noteq> None"
  using assms
proof (induction ps arbitrary: start k w)
  case Nil
  then show ?case by simp
next
  case (Cons p ps)
  note sp = spaced_Cons [OF Cons.prems(1)]
  show ?case
  proof (cases "poll_clock p < deadline")
    case False
    then show ?thesis by simp
  next
    case True
    have "k \<noteq> 0"
    proof
      assume "k = 0"
      then have "deadline \<le> start" using Cons.prems(2) by simp
      with sp True show False by simp
    qed
    then obtain k' where k': "k = Suc k'" by (cases k) auto
    have "deadline - (start + POLL_SECONDS) \<le> of_nat k' * POLL_SECONDS"
      using Cons.prems(2) by (simp add: k' algebra_simps)
    moreover have "k' < length ps" using Cons.prems(3) by (simp add: k')
    ultimately have "fst (wait_until_running deadline jid ps w1) \<noteq> None" for w1
      using Cons.IH sp by blast
    then show ?thesis
      using True by (auto split: prod.splits sum.splits option.splits)
  qed
qed

lemmas script_constants = FOLLOW_SECONDS_def BEFORE_CANCEL_SECONDS_def POLL_SECONDS_def

text \<open>The script ends. With its two loops sleeping half a second between polls, seven polls decide the
  wait for a worker and 601 the following, whatever the polls see: a job nobody runs, a job retried
  for ever, a database that stops answering.\<close>

theorem enqueue_script_ends:
  assumes "spaced (wait_from env) (wait_polls env)" "7 \<le> length (wait_polls env)"
    and "spaced (follow_from env) (follow_polls env)" "601 \<le> length (follow_polls env)"
  shows "fst (enqueue_script args fresh new_id env w) \<noteq> None"
proof -
  have "fst (wait_until_running (wait_from env + BEFORE_CANCEL_SECONDS) jid (wait_polls env) w1) \<noteq> None" for jid w1
    by (rule wait_ends [OF assms(1), of _ 6]) (use assms(2) in \<open>simp_all add: script_constants\<close>)
  then have "wait_until_running (wait_from env + BEFORE_CANCEL_SECONDS) jid (wait_polls env) w1 \<noteq> (None, w2)" for jid w1 w2
    by (metis fst_conv)
  then have wait: "cancel_first env jid w1 \<noteq> (None, w2)" for jid w1 w2
    by (auto simp: cancel_first_def split: prod.splits sum.splits option.splits)
  have "fst (follow (follow_from env + FOLLOW_SECONDS) None jid (follow_polls env) w1) \<noteq> None" for jid w1
    by (rule follow_ends [OF assms(3), of _ 600]) (use assms(4) in \<open>simp_all add: script_constants\<close>)
  then have "follow (follow_from env + FOLLOW_SECONDS) None jid (follow_polls env) w1 \<noteq> (None, out, w2)" for jid w1 out w2
    by (metis fst_conv)
  then have last: "follow_last env jid w1 \<noteq> (None, w2)" for jid w1 w2
    by (auto simp: follow_last_def split: prod.splits option.splits follow_end.splits)
  have "enqueue_script args fresh new_id env w \<noteq> (None, w2)" for w2
    using wait last
    by (auto simp: enqueue_script_def split: prod.splits sum.splits option.splits if_splits)
  then show ?thesis by (metis prod.collapse)
qed

subsection \<open>What the exit status says\<close>

definition row_known :: "uuid \<Rightarrow> uuid option \<times> string \<Rightarrow> world \<Rightarrow> bool" where
  "row_known jid key w \<longleftrightarrow> sys_ok (w_db w) \<and> (\<exists>r \<in> set (jobs (w_db w)). job_id r = jid \<and> dedup_key r = key)"

lemma row_known_run:
  assumes "row_known jid key w" "w_db w' = run ops (w_db w)"
  shows "row_known jid key w'"
proof -
  obtain r where r: "sys_ok (w_db w)" "r \<in> set (jobs (w_db w))" "job_id r = jid" "dedup_key r = key"
    using assms(1) by (auto simp: row_known_def)
  from run_evolves [OF r(1,2), of ops] obtain r' where "r' \<in> set (jobs (w_db w'))" "evolves r r'"
    using assms(2) by auto
  moreover have "sys_ok (w_db w')" using run_sys_ok [OF r(1)] assms(2) by simp
  ultimately show ?thesis using r(3,4) by (auto simp: row_known_def evolves_def)
qed

lemma row_known_act: "row_known jid key w \<Longrightarrow> transacts A m \<Longrightarrow> m w = (x, w') \<Longrightarrow> row_known jid key w'"
  using transactsD [of A m w] row_known_run [of jid key w w'] by auto

lemma get_answer:
  assumes "rmq_get env jid w = (Inr j, w')"
  shows "j = get jid (w_db w')"
  using assms
  by (auto simp: rmq_get_def store_call_def reading_def call_txn_def Let_def
      split: link.splits sum.splits prod.splits option.splits)

lemma get_row:
  assumes "row_known jid key w" "rmq_get env jid w = (Inr j, w')"
  shows "\<exists>r \<in> set (jobs (w_db w')). j = Some (to_job r) \<and> job_id r = jid \<and> dedup_key r = key"
proof -
  have "row_known jid key w'" by (rule row_known_act [OF assms(1) transacts_get assms(2)])
  then obtain r where r: "sys_ok (w_db w')" "r \<in> set (jobs (w_db w'))" "job_id r = jid" "dedup_key r = key"
    by (auto simp: row_known_def)
  have "get jid (w_db w') = Some (to_job r)" using get_known [of "w_db w'" r] r by (simp add: sys_ok_def)
  with get_answer [OF assms(2)] r show ?thesis by blast
qed

lemma follow_row:
  assumes "row_known jid key w" "follow deadline last' jid ps w = (res, out, w')"
  shows "row_known jid key w' \<and> res \<noteq> Some Vanished \<and>
     (\<forall>job. res = Some (Ended job) \<longrightarrow> terminal (state job) \<and>
        (\<exists>r \<in> set (jobs (w_db w')). to_job r = job \<and> job_id r = jid \<and> dedup_key r = key))"
  using assms
proof (induction ps arbitrary: last' w res out)
  case Nil
  then show ?case by simp
next
  case (Cons p ps)
  show ?case
  proof (cases "poll_clock p < deadline")
    case False
    with Cons.prems show ?thesis by auto
  next
    case early: True
    obtain x w1 where x: "rmq_get (poll_env p) jid w = (x, w1)" by force
    have k1: "row_known jid key w1" by (rule row_known_act [OF Cons.prems(1) transacts_get x])
    show ?thesis
    proof (cases x)
      case (Inl e)
      with Cons.prems(2) early x k1 show ?thesis by auto
    next
      case (Inr j)
      obtain r where r: "r \<in> set (jobs (w_db w1))" "j = Some (to_job r)" "job_id r = jid" "dedup_key r = key"
        using get_row [OF Cons.prems(1) x [unfolded Inr]] by blast
      show ?thesis
      proof (cases "terminal (state r)")
        case True
        with Cons.prems(2) early x Inr r k1 show ?thesis by (auto simp: Let_def)
      next
        case False
        obtain outs where f: "follow deadline (Some (state r)) jid ps w1 = (res, outs, w')"
          using Cons.prems(2) early x Inr r(2) False by (auto simp: Let_def split: prod.splits)
        show ?thesis by (rule Cons.IH [OF k1 f])
      qed
    qed
  qed
qed

lemma wait_row:
  "row_known jid key w \<Longrightarrow> wait_until_running deadline jid ps w = (res, w') \<Longrightarrow> row_known jid key w'"
proof (induction ps arbitrary: w)
  case Nil
  then show ?case by simp
next
  case (Cons p ps)
  obtain x w1 where x: "rmq_get (poll_env p) jid w = (x, w1)" by force
  have k1: "row_known jid key w1" by (rule row_known_act [OF Cons.prems(1) transacts_get x])
  from Cons.prems x k1 Cons.IH [OF k1] show ?case
    by (auto split: if_splits sum.splits option.splits)
qed

lemma cancel_row: "row_known jid key w \<Longrightarrow> cancel_first env jid w = (res, w') \<Longrightarrow> row_known jid key w'"
proof -
  assume k: "row_known jid key w" and c: "cancel_first env jid w = (res, w')"
  obtain x w1 where x: "wait_until_running (wait_from env + BEFORE_CANCEL_SECONDS) jid (wait_polls env) w = (x, w1)"
    by force
  obtain y w2 where y: "rmq_cancel (on_cancel env) jid w1 = (y, w2)" by force
  have k1: "row_known jid key w1" by (rule wait_row [OF k x])
  have "row_known jid key w2" by (rule row_known_act [OF k1 transacts_cancel y])
  with k1 c x y show "row_known jid key w'"
    by (auto simp: cancel_first_def split: option.splits sum.splits)
qed

lemma thenA_Inr: "m w = (Inr x, w1) \<Longrightarrow> thenA m f w = f x w1"
  by (simp add: thenA_def)

lemma enqueued_row:
  assumes ok: "sys_ok (w_db w)" and e: "rmq_enqueue env i req w = (Inr job, w')"
  shows "row_known (job_id job) (req_session_id req, req_idempotency_key req) w'"
proof -
  let ?t = "\<lambda>now. insert_or_get now i req" and ?db = "run (others env CInsert) (w_db w)"
  let ?k = "(req_session_id req, req_idempotency_key req)"
  obtain c w1 where s: "store_call env CInsert ?t w = (Inr (job, c), w1)"
      and w': "w' = w1 \<or> (\<exists>(m :: job act) A x. transacts A m \<and> m w1 = (x, w'))"
  proof -
    obtain x w1 where x: "store_call env CInsert ?t w = (x, w1)" by force
    with e obtain j c where jc: "x = Inr (j, c)" by (cases x) (auto simp: rmq_enqueue_def thenA_def)
    let ?m = "thenA (publish env Fresh (job_id j) (Some (req_delay req))) (\<lambda>_. thenA (mark env Fresh (job_id j)) (\<lambda>_. returnA j))"
    have m: "transacts (env_ops env \<union> marks) ?m" by (auto intro!: transact)
    let ?f = "\<lambda>(job, created). if created
        then thenA (publish env Fresh (job_id job) (Some (req_delay req))) (\<lambda>_. thenA (mark env Fresh (job_id job)) (\<lambda>_. returnA job))
        else returnA job"
    have "rmq_enqueue env i req w = ?f (j, c) w1"
      unfolding rmq_enqueue_def by (rule thenA_Inr) (simp add: x jc)
    with e have e': "(if c then ?m w1 else (Inr j, w1)) = (Inr job, w')"
      by (simp add: returnA_def split: if_splits)
    have "j = job"
    proof (cases c)
      case True
      with e' have "?m w1 = (Inr job, w')" by simp
      then show ?thesis by (auto simp: thenA_def returnA_def split: prod.splits sum.splits)
    qed (use e' in simp)
    with e' m have "w' = w1 \<or> (\<exists>(m :: job act) A x. transacts A m \<and> m w1 = (x, w'))"
      by (cases c) (auto intro: exI [of _ ?m])
    with x jc \<open>j = job\<close> show thesis by (intro that [of c w1]) auto
  qed
  have txn: "insert_or_get (clock env CInsert) i req ?db = Inr ((job, c), w_db w1)"
    using s by (auto simp: store_call_def dest!: call_txn_InrD split: prod.splits sum.splits option.splits)
  have ok1: "sys_ok ?db" by (rule run_sys_ok [OF ok])
  have "sys_ok (w_db w1)" by (rule txn_sys_ok(1) [OF ok1 txn])
  moreover have "\<exists>r \<in> set (jobs (w_db w1)). job_id r = job_id job \<and> dedup_key r = ?k"
    using txn
    by (auto simp: insert_or_get_def Let_def result_simps new_row_def dedup_key_def find_Some_iff
        split: option.splits if_splits dest!: record_event_jobs intro: nth_mem)
  ultimately have "row_known (job_id job) ?k w1" by (simp add: row_known_def)
  with w' show ?thesis by (auto intro: row_known_act)
qed

text \<open>The exit status tells the truth. Whatever workers, sweeps and other clients do meanwhile, a
  script that follows its job to an end followed the job of its own key, that job never vanishes from
  the table, and the status is 0 exactly when its row says \<open>done\<close>; and since that state is final, the
  row says so for ever.\<close>

theorem exit_status_is_final:
  assumes "sys_ok (w_db w)" "enqueue_script args fresh new_id env w = (Some (Exits code), w')"
    and "req = script_request args fresh"
  shows "\<exists>r \<in> set (jobs (w_db w')). dedup_key r = (None, req_idempotency_key req) \<and> terminal (state r) \<and>
     (code = 0 \<longleftrightarrow> state r = DONE) \<and>
     (\<forall>ops. \<exists>r' \<in> set (jobs (run ops (w_db w'))). to_job r' = to_job r)"
proof -
  let ?k = "(None, req_idempotency_key req)"
  obtain x w1 where x: "rmq_enqueue (on_enqueue env) new_id req w = (x, w1)" by force
  with assms(2,3) obtain job where job: "x = Inr job" by (cases x) (auto simp: enqueue_script_def)
  have "req_session_id req = None" using assms(3) by (simp add: script_request_def request_def)
  then have k1: "row_known (job_id job) ?k w1" using enqueued_row [OF assms(1) x [unfolded job]] by simp
  obtain y w2 where y: "cancel_first env (job_id job) w1 = (y, w2)" by force
  have k2: "row_known (job_id job) ?k w2" by (rule cancel_row [OF k1 y])
  obtain w3 where w3: "row_known (job_id job) ?k w3" "follow_last env (job_id job) w3 = (Some (Exits code), w')"
    using assms(2,3) x job y k1 k2
    by (cases "a_cancel args") (auto simp: enqueue_script_def cancel_first_def split: option.splits sum.splits prod.splits)
  obtain res out w4 where f: "follow (follow_from env + FOLLOW_SECONDS) None (job_id job) (follow_polls env) w3 = (res, out, w4)"
    by (metis prod.collapse)
  with w3(2) obtain final where final: "res = Some (Ended final)" "w4 = w'" "code = exit_status final"
    by (auto simp: follow_last_def split: option.splits follow_end.splits)
  from follow_row [OF w3(1) f] final obtain r where r: "sys_ok (w_db w')" "r \<in> set (jobs (w_db w'))"
      "to_job r = final" "dedup_key r = ?k" "terminal (state final)"
    by (auto simp: row_known_def)
  have st: "state final = state r" using r(3) by auto
  have "\<exists>r' \<in> set (jobs (run ops (w_db w'))). to_job r' = to_job r" for ops
    using run_evolves [OF r(1,2), of ops] r(5) st by (auto simp: evolves_def)
  moreover have "terminal (state r)" "code = 0 \<longleftrightarrow> state r = DONE"
    using r(5) st final(3) by (simp_all add: exit_status_def)
  ultimately show ?thesis using r(2,4) by blast
qed

subsection \<open>A run to look at\<close>

definition demo_args :: script_args where
  "demo_args = \<lparr>a_kind = ''synthetic'', a_payload = [], a_max_attempts = 3,
     a_idempotency_key = Some ''mine'', a_cancel = False\<rparr>"

definition demo_row :: job_row where
  "demo_row = claimed_row 10 100 ''w1'' 60 (published_row 10 (new_row 10 1 (script_request demo_args 0)))"

text \<open>Between the two a worker claims the job and acknowledges it.\<close>

definition demo_script :: script_env where
  "demo_script =
     \<lparr>on_enqueue = demo_env, wait_from = 0, wait_polls = [], on_cancel = demo_env, follow_from = 0,
      follow_polls =
        [\<lparr>poll_clock = 0, poll_env = demo_env\<lparr>others := \<lambda>_. [Claim 10 100 1 ''w1'' 60]\<rparr>\<rparr>,
         \<lparr>poll_clock = 1/2, poll_env = demo_env\<lparr>others := \<lambda>_.
            [Ack 11 \<lparr>l_id = 100, l_job = to_job demo_row, l_owner = ''w1'', l_expires_at = 70\<rparr> None]\<rparr>\<rparr>]\<rparr>"

lemmas script_eval = enqueue_script_def follow_last_def script_request_def request_def demo_args_def
  demo_script_def demo_env_def rmq_enqueue_def rmq_get_def store_call_def call_txn_def thenA_def returnA_def
  publish_def mark_def reading_def idle_world_def script_constants exit_status_def

lemma demo_script_run:
  "fst (enqueue_script demo_args 0 1 demo_script (idle_world empty_db)) = Some (Exits 0)"
  by code_simp

theorem exit_status_is_final_witness:
  "\<exists>r \<in> set (jobs (w_db (snd (enqueue_script demo_args 0 1 demo_script (idle_world empty_db))))). state r = DONE"
proof -
  have ok: "sys_ok (w_db (idle_world empty_db))" by (simp add: idle_world_def sys_ok_empty)
  have "enqueue_script demo_args 0 1 demo_script (idle_world empty_db) =
      (Some (Exits 0), snd (enqueue_script demo_args 0 1 demo_script (idle_world empty_db)))"
    using demo_script_run by (metis prod.collapse)
  from exit_status_is_final [OF ok this refl] show ?thesis by auto
qed

theorem enqueue_script_ends_witness:
  "fst (enqueue_script demo_args 0 1 (demo_script
     \<lparr>wait_polls := map (\<lambda>k. \<lparr>poll_clock = of_nat k / 2, poll_env = demo_env\<rparr>) [0..<7],
      follow_polls := map (\<lambda>k. \<lparr>poll_clock = of_nat k / 2, poll_env = demo_env\<rparr>) [0..<601]\<rparr>)
     (idle_world empty_db)) \<noteq> None"
  by (rule enqueue_script_ends)
     (simp_all add: spaced_def demo_script_def script_constants del: upt_Suc upt_rec_numeral)

end
