(* ===== verification/Rabbit_Topology.thy ===== *)
theory Rabbit_Topology
  imports Rabbit_Properties "HOL-Library.Multiset"
begin

text \<open>
  The life of the broker object in \<open>adapters/rabbitmq/job_queue.py\<close>: \<open>start\<close>, which declares the
  topology and starts consuming, and \<open>close\<close>. The broker is what AMQP documents: a direct exchange
  hands a message to the queues bound with its key, the default exchange to the queue of that name, a
  message that expires in a queue goes to the exchange and key the queue names for it, and declaring
  again what exists is harmless when it is the same and an error when it differs. Which call raises is
  an argument. What the queues hold is a list of messages per queue, over instants. The queue's operations and its sweep are \<open>Rabbit_Queue\<close>.
\<close>

subsection \<open>The broker's side\<close>

datatype arg = TextArg string | IntArg int

record queue_def =
  q_durable :: bool
  q_args :: "(string \<times> arg) list"

record topology =
  exchanges :: "string \<Rightarrow> bool option"
  queues :: "string \<Rightarrow> queue_def option"
  bindings :: "(string \<times> string \<times> string) list"

definition declare_exchange :: "string \<Rightarrow> topology \<Rightarrow> topology option" where
  "declare_exchange n t =
     (case exchanges t n of
        None \<Rightarrow> Some (t\<lparr>exchanges := (exchanges t)(n \<mapsto> True)\<rparr>)
      | Some durable \<Rightarrow> if durable then Some t else None)"

definition declare_queue :: "string \<Rightarrow> (string \<times> arg) list \<Rightarrow> topology \<Rightarrow> topology option" where
  "declare_queue n args t =
     (case queues t n of
        None \<Rightarrow> Some (t\<lparr>queues := (queues t)(n \<mapsto> \<lparr>q_durable = True, q_args = args\<rparr>)\<rparr>)
      | Some q \<Rightarrow> if q = \<lparr>q_durable = True, q_args = args\<rparr> then Some t else None)"

definition bind_queue :: "string \<Rightarrow> string \<Rightarrow> string \<Rightarrow> topology \<Rightarrow> topology" where
  "bind_queue x key q t =
     (if (x, key, q) \<in> set (bindings t) then t else t\<lparr>bindings := bindings t @ [(x, key, q)]\<rparr>)"

text \<open>The queues a message published to an exchange under a key lands in; \<open>None\<close> is the default exchange.\<close>

definition lands_in :: "topology \<Rightarrow> string option \<Rightarrow> string \<Rightarrow> string set" where
  "lands_in t x key =
     (case x of
        None \<Rightarrow> {q. q = key \<and> queues t q \<noteq> None}
      | Some e \<Rightarrow> {q. (e, key, q) \<in> set (bindings t)})"

text \<open>Where a message that expires in a queue lands.\<close>

definition expires_to :: "topology \<Rightarrow> string \<Rightarrow> string set" where
  "expires_to t q =
     (case queues t q of
        None \<Rightarrow> {}
      | Some d \<Rightarrow>
          (case (map_of (q_args d) ''x-dead-letter-exchange'', map_of (q_args d) ''x-dead-letter-routing-key'') of
             (Some (TextArg x), Some (TextArg key)) \<Rightarrow> lands_in t (Some x) key
           | _ \<Rightarrow> {}))"

subsection \<open>The names\<close>

definition WORK_KEY :: string where "WORK_KEY = ''work''"

definition QUORUM :: "(string \<times> arg) list" where
  "QUORUM = [(''x-queue-type'', TextArg ''quorum''), (''x-delivery-limit'', IntArg 20)]"

definition REPUBLISH_QUIET_PASSES :: int where "REPUBLISH_QUIET_PASSES = 4"

definition exchange_name :: "string \<Rightarrow> string" where "exchange_name ns = ns @ ''.jobs''"
definition work_name :: "string \<Rightarrow> string" where "work_name ns = ns @ ''.jobs.work''"
definition delay_name :: "string \<Rightarrow> string" where "delay_name ns = ns @ ''.jobs.delay''"

definition delay_args :: "string \<Rightarrow> (string \<times> arg) list" where
  "delay_args ns =
     [(''x-dead-letter-exchange'', TextArg (exchange_name ns)),
      (''x-dead-letter-routing-key'', TextArg WORK_KEY)]"

text \<open>\<open>_publish\<close>: a positive delay goes to the parking queue by its name, everything else to the exchange.\<close>

fun target_of :: "string \<Rightarrow> route \<Rightarrow> string option \<times> string" where
  "target_of ns Work = (Some (exchange_name ns), WORK_KEY)"
| "target_of ns (Parked d) = (None, delay_name ns)"

subsection \<open>Starting\<close>

record client =
  namespace :: string
  prefetch :: int
  republish_quiet :: time
  connected :: bool
  channel_open :: bool
  qos :: "int option"
  the_exchange :: "string option"
  the_work :: "string option"
  the_delay :: "string option"
  consuming :: bool
  maintaining :: bool

definition new_client :: "string \<Rightarrow> int \<Rightarrow> time \<Rightarrow> client" where
  "new_client ns n interval =
     \<lparr>namespace = ns, prefetch = n, republish_quiet = interval * REPUBLISH_QUIET_PASSES,
      connected = False, channel_open = False, qos = None, the_exchange = None, the_work = None,
      the_delay = None, consuming = False, maintaining = False\<rparr>"

datatype start_call =
    ConnectRobust | OpenChannel | SetQos | DeclareExchange | DeclareWork | BindWork | DeclareDelay
  | ConsumeWork | StartMaintenance

definition start_steps :: "start_call list" where
  "start_steps = [ConnectRobust, OpenChannel, SetQos, DeclareExchange, DeclareWork, BindWork,
                  DeclareDelay, ConsumeWork, StartMaintenance]"

fun start_step :: "start_call \<Rightarrow> client \<times> topology \<Rightarrow> (client \<times> topology) option" where
  "start_step ConnectRobust (c, t) = Some (c\<lparr>connected := True\<rparr>, t)"
| "start_step OpenChannel (c, t) = Some (c\<lparr>channel_open := True\<rparr>, t)"
| "start_step SetQos (c, t) = Some (c\<lparr>qos := Some (prefetch c)\<rparr>, t)"
| "start_step DeclareExchange (c, t) =
     map_option (\<lambda>t'. (c\<lparr>the_exchange := Some (exchange_name (namespace c))\<rparr>, t'))
       (declare_exchange (exchange_name (namespace c)) t)"
| "start_step DeclareWork (c, t) =
     map_option (\<lambda>t'. (c\<lparr>the_work := Some (work_name (namespace c))\<rparr>, t'))
       (declare_queue (work_name (namespace c)) QUORUM t)"
| "start_step BindWork (c, t) =
     Some (c, bind_queue (exchange_name (namespace c)) WORK_KEY (work_name (namespace c)) t)"
| "start_step DeclareDelay (c, t) =
     map_option (\<lambda>t'. (c\<lparr>the_delay := Some (delay_name (namespace c))\<rparr>, t'))
       (declare_queue (delay_name (namespace c)) (delay_args (namespace c)) t)"
| "start_step ConsumeWork (c, t) = Some (c\<lparr>consuming := True\<rparr>, t)"
| "start_step StartMaintenance (c, t) = Some (c\<lparr>maintaining := True\<rparr>, t)"

text \<open>\<open>fails\<close> says which call raises; what was done before it stays done, and the
  call itself has no effect. The flag: \<open>start\<close> returned.\<close>

fun run_start :: "(start_call \<Rightarrow> bool) \<Rightarrow> start_call list \<Rightarrow> client \<times> topology \<Rightarrow> bool \<times> client \<times> topology" where
  "run_start fails [] s = (True, s)"
| "run_start fails (x # xs) s =
     (if fails x then (False, s)
      else case start_step x s of None \<Rightarrow> (False, s) | Some s' \<Rightarrow> run_start fails xs s')"

definition start_queue ::
    "(start_call \<Rightarrow> bool) \<Rightarrow> string \<Rightarrow> int \<Rightarrow> time \<Rightarrow> topology \<Rightarrow> bool \<times> client \<times> topology" where
  "start_queue fails ns n interval t = run_start fails start_steps (new_client ns n interval, t)"

subsection \<open>Closing\<close>

datatype close_call = AwaitMaintenance | DeleteWork | DeleteDelay | DeleteExchange | CloseConnection

definition delete_steps :: "client \<Rightarrow> close_call list" where
  "delete_steps c =
     (if the_work c \<noteq> None then [DeleteWork] else []) @
     (if the_delay c \<noteq> None then [DeleteDelay] else []) @
     (if the_exchange c \<noteq> None then [DeleteExchange] else [])"

definition close_steps :: "bool \<Rightarrow> client \<Rightarrow> close_call list" where
  "close_steps delete_queues c =
     (if maintaining c then [AwaitMaintenance] else []) @
     (if delete_queues \<and> channel_open c then delete_steps c else [])"

text \<open>Deleting a queue takes its bindings with it.\<close>

fun close_step :: "close_call \<Rightarrow> client \<times> topology \<Rightarrow> client \<times> topology" where
  "close_step AwaitMaintenance (c, t) = (c, t)"
| "close_step DeleteWork (c, t) =
     (c, t\<lparr>queues := (queues t)(work_name (namespace c) := None),
           bindings := filter (\<lambda>(x, k, q). q \<noteq> work_name (namespace c)) (bindings t)\<rparr>)"
| "close_step DeleteDelay (c, t) =
     (c, t\<lparr>queues := (queues t)(delay_name (namespace c) := None),
           bindings := filter (\<lambda>(x, k, q). q \<noteq> delay_name (namespace c)) (bindings t)\<rparr>)"
| "close_step DeleteExchange (c, t) =
     (c, t\<lparr>exchanges := (exchanges t)(exchange_name (namespace c) := None),
           bindings := filter (\<lambda>(x, k, q). x \<noteq> exchange_name (namespace c)) (bindings t)\<rparr>)"
| "close_step CloseConnection (c, t) =
     (c\<lparr>connected := False, channel_open := False, consuming := False\<rparr>, t)"

fun run_close :: "(close_call \<Rightarrow> bool) \<Rightarrow> close_call list \<Rightarrow> client \<times> topology \<Rightarrow> bool \<times> client \<times> topology" where
  "run_close fails [] s = (True, s)"
| "run_close fails (x # xs) s = (if fails x then (False, s) else run_close fails xs (close_step x s))"

text \<open>Cancelling the loop comes first and cannot fail; the connection goes in the \<open>finally\<close>.\<close>

definition close_queue ::
    "(close_call \<Rightarrow> bool) \<Rightarrow> bool \<Rightarrow> client \<times> topology \<Rightarrow> bool \<times> client \<times> topology" where
  "close_queue fails delete_queues s =
     (case run_close fails (close_steps delete_queues (fst s)) ((fst s)\<lparr>maintaining := False\<rparr>, snd s) of
        (returned, c, t) \<Rightarrow>
          if \<not> connected c then (returned, c, t)
          else if fails CloseConnection then (False, c, t)
          else (returned, close_step CloseConnection (c, t)))"

subsection \<open>Every message reaches the work queue\<close>

lemma names_distinct: "work_name ns \<noteq> delay_name ns"
  by (simp add: work_name_def delay_name_def)

lemma declare_queue_Some:
  "declare_queue n args t = Some t' \<Longrightarrow>
     queues t' n = Some \<lparr>q_durable = True, q_args = args\<rparr> \<and> bindings t' = bindings t \<and>
     exchanges t' = exchanges t \<and> (\<forall>m. m \<noteq> n \<longrightarrow> queues t' m = queues t m)"
  by (auto simp: declare_queue_def split: option.splits if_splits)

lemma declare_exchange_Some:
  "declare_exchange n t = Some t' \<Longrightarrow>
     exchanges t' n = Some True \<and> bindings t' = bindings t \<and> queues t' = queues t"
  by (auto simp: declare_exchange_def split: option.splits if_splits)

text \<open>What a topology a start has gone over looks like.\<close>

definition declared :: "string \<Rightarrow> topology \<Rightarrow> bool" where
  "declared ns t \<longleftrightarrow>
     exchanges t (exchange_name ns) = Some True \<and>
     queues t (work_name ns) = Some \<lparr>q_durable = True, q_args = QUORUM\<rparr> \<and>
     queues t (delay_name ns) = Some \<lparr>q_durable = True, q_args = delay_args ns\<rparr> \<and>
     (exchange_name ns, WORK_KEY, work_name ns) \<in> set (bindings t)"

lemma started:
  assumes "start_queue fails ns n interval t = (True, c, t')"
  shows "declared ns t'" "connected c" "consuming c" "maintaining c" "qos c = Some n"
    and "\<And>fails' n' i'. (\<forall>x \<in> set start_steps. \<not> fails' x) \<Longrightarrow>
       fst (start_queue fails' ns n' i' t') \<and> snd (snd (start_queue fails' ns n' i' t')) = t'"
proof -
  obtain t1 where t1: "declare_exchange (exchange_name ns) t = Some t1"
    using assms by (auto simp: start_queue_def start_steps_def new_client_def split: if_splits option.splits)
  obtain t2 where t2: "declare_queue (work_name ns) QUORUM t1 = Some t2"
    using assms t1 by (auto simp: start_queue_def start_steps_def new_client_def split: if_splits option.splits)
  let ?t3 = "bind_queue (exchange_name ns) WORK_KEY (work_name ns) t2"
  obtain t4 where t4: "declare_queue (delay_name ns) (delay_args ns) ?t3 = Some t4"
    using assms t1 t2 by (auto simp: start_queue_def start_steps_def new_client_def split: if_splits option.splits)
  have c: "t' = t4" "connected c" "consuming c" "maintaining c" "qos c = Some n"
    using assms t1 t2 t4
    by (auto simp: start_queue_def start_steps_def new_client_def split: if_splits)
  then show "connected c" "consuming c" "maintaining c" "qos c = Some n" by simp_all
  show d: "declared ns t'"
    using declare_exchange_Some [OF t1] declare_queue_Some [OF t2] declare_queue_Some [OF t4] names_distinct [of ns]
    unfolding c(1) declared_def by (auto simp: bind_queue_def)
  fix fails' n' i'
  assume works: "\<forall>x \<in> set start_steps. \<not> fails' x"
  have "declare_exchange (exchange_name ns) t' = Some t'" "declare_queue (work_name ns) QUORUM t' = Some t'"
    "bind_queue (exchange_name ns) WORK_KEY (work_name ns) t' = t'"
    "declare_queue (delay_name ns) (delay_args ns) t' = Some t'"
    using d by (simp_all add: declared_def declare_exchange_def declare_queue_def bind_queue_def)
  then show "fst (start_queue fails' ns n' i' t') \<and> snd (snd (start_queue fails' ns n' i' t')) = t'"
    using works by (simp add: start_queue_def start_steps_def new_client_def)
qed

lemma expires_declared: "declared ns t \<Longrightarrow> expires_to t (delay_name ns) = lands_in t (Some (exchange_name ns)) WORK_KEY"
  by (simp add: expires_to_def declared_def delay_args_def)

subsection \<open>What the queues hold\<close>

text \<open>
  The messages in the broker's queues, first in first out. A publish appends to every queue the message
  lands in. A message can expire, but a classic queue looks at its head only: what leaves the parking
  queue is the longest run of expired messages at its head, and they go, without their expiry, where the
  queue dead-letters to.
\<close>

record parcel =
  p_body :: string
  p_expires :: "time option"

type_synonym contents = "string \<Rightarrow> parcel list"

definition past_ttl :: "time \<Rightarrow> parcel \<Rightarrow> bool" where
  "past_ttl now p = (case p_expires p of None \<Rightarrow> False | Some e \<Rightarrow> e \<le> now)"

definition deliver_to :: "string set \<Rightarrow> parcel \<Rightarrow> contents \<Rightarrow> contents" where
  "deliver_to qs p c = (\<lambda>q. if q \<in> qs then c q @ [p] else c q)"

definition expire_head :: "topology \<Rightarrow> string \<Rightarrow> time \<Rightarrow> contents \<Rightarrow> contents" where
  "expire_head t q now c =
     fold (\<lambda>p. deliver_to (expires_to t q) (p\<lparr>p_expires := None\<rparr>)) (takeWhile (past_ttl now) (c q))
       (c(q := dropWhile (past_ttl now) (c q)))"

text \<open>The message \<open>_publish\<close> builds: its \<open>expiration\<close> is the delay, from the instant it is sent.\<close>

fun parcel_of :: "time \<Rightarrow> string \<Rightarrow> route \<Rightarrow> parcel" where
  "parcel_of now body Work = \<lparr>p_body = body, p_expires = None\<rparr>"
| "parcel_of now body (Parked d) = \<lparr>p_body = body, p_expires = Some (now + d)\<rparr>"

definition send_at :: "topology \<Rightarrow> string \<Rightarrow> time \<times> string \<times> route \<Rightarrow> contents \<Rightarrow> contents" where
  "send_at t ns m c =
     (case m of (now, body, rt) \<Rightarrow> case target_of ns rt of (x, key) \<Rightarrow>
        deliver_to (lands_in t x key) (parcel_of now body rt) (expire_head t (delay_name ns) now c))"

text \<open>The queues at an instant, after the publishes so far and with nobody consuming.\<close>

definition broker_at :: "topology \<Rightarrow> string \<Rightarrow> (time \<times> string \<times> route) list \<Rightarrow> time \<Rightarrow> contents \<Rightarrow> contents" where
  "broker_at t ns sends now c = expire_head t (delay_name ns) now (fold (send_at t ns) sends c)"

definition parked :: "(time \<times> string \<times> route) list \<Rightarrow> parcel list" where
  "parked sends = map (\<lambda>(now, body, rt). parcel_of now body rt) (filter (\<lambda>(_, _, rt). rt \<noteq> Work) sends)"

definition for_now :: "(time \<times> string \<times> route) list \<Rightarrow> string list" where
  "for_now sends = map (\<lambda>(_, body, _). body) (filter (\<lambda>(_, _, rt). rt = Work) sends)"

lemma fold_deliver:
  "fold (\<lambda>p. deliver_to A (f p)) ps c q = (if q \<in> A then c q @ map f ps else c q)"
  by (induction ps arbitrary: c) (simp_all add: deliver_to_def)

lemma expire_head_at:
  assumes "expires_to t d = A" "d \<notin> A" "w \<in> A"
  shows "expire_head t d now c d = dropWhile (past_ttl now) (c d)"
    and "map p_body (expire_head t d now c w) = map p_body (c w) @ map p_body (takeWhile (past_ttl now) (c d))"
  using assms by (auto simp: expire_head_def fold_deliver comp_def)

lemma takeWhile_steps:
  "(\<And>x. P x \<Longrightarrow> Q x) \<Longrightarrow> takeWhile P xs @ takeWhile Q (dropWhile P xs @ ys) = takeWhile Q (xs @ ys)"
  by (induction xs) auto

lemma dropWhile_steps: "(\<And>x. P x \<Longrightarrow> Q x) \<Longrightarrow> dropWhile Q (dropWhile P xs @ ys) = dropWhile Q (xs @ ys)"
  by (induction xs) auto

lemma past_ttl_later: "past_ttl s p \<Longrightarrow> s \<le> now \<Longrightarrow> past_ttl now p"
  by (auto simp: past_ttl_def split: option.splits)

lemma broker_at_snoc:
  "broker_at t ns (sends @ [(s, body, rt)]) now c =
     expire_head t (delay_name ns) now
       (case target_of ns rt of (x, key) \<Rightarrow>
          deliver_to (lands_in t x key) (parcel_of s body rt) (broker_at t ns sends s c))"
  by (simp add: broker_at_def send_at_def)

lemma broker_at_holds:
  assumes d: "declared ns t" "delay_name ns \<notin> lands_in t (Some (exchange_name ns)) WORK_KEY"
    and "sorted (map fst sends @ [now])"
  shows "broker_at t ns sends now c (delay_name ns) = dropWhile (past_ttl now) (c (delay_name ns) @ parked sends) \<and>
     mset (map p_body (broker_at t ns sends now c (work_name ns))) =
       mset (map p_body (c (work_name ns))) + mset (for_now sends) +
       mset (map p_body (takeWhile (past_ttl now) (c (delay_name ns) @ parked sends)))"
  using assms(3)
proof (induction sends arbitrary: now rule: rev_induct)
  case Nil
  note expire_head_at [OF expires_declared [OF d(1)] d(2), of "work_name ns"]
  with d(1) show ?case by (simp add: broker_at_def parked_def for_now_def lands_in_def declared_def)
next
  case (snoc m sends)
  obtain s body rt where m: "m = (s, body, rt)" by (cases m) auto
  let ?D = "delay_name ns" and ?W = "work_name ns"
  have late: "s \<le> now" "sorted (map fst sends @ [s])"
    using snoc.prems by (auto simp: m sorted_append)
  note IH = snoc.IH [OF late(2)]
  have work: "?W \<in> lands_in t (Some (exchange_name ns)) WORK_KEY" using d(1) by (simp add: lands_in_def declared_def)
  have delay: "lands_in t None ?D = {?D}" using d(1) by (auto simp: lands_in_def declared_def)
  note at = expire_head_at [OF expires_declared [OF d(1)] d(2) work]
  have later: "past_ttl s p \<Longrightarrow> past_ttl now p" for p using past_ttl_later late(1) by blast
  note steps = dropWhile_steps [of "past_ttl s" "past_ttl now", OF later]
    takeWhile_steps [of "past_ttl s" "past_ttl now", OF later]
  have tw: "mset (map p_body (takeWhile (past_ttl now) (xs @ ys))) =
      mset (map p_body (takeWhile (past_ttl s) xs)) +
      mset (map p_body (takeWhile (past_ttl now) (dropWhile (past_ttl s) xs @ ys)))" for xs ys
    using steps(2) [of xs ys] by (metis map_append mset_append)
  show ?case
  proof (cases rt)
    case Work
    with IH work d(2) steps(1) [of _ "[]"] tw [of "c ?D @ parked sends" "[]"] show ?thesis
      by (simp add: m broker_at_snoc at deliver_to_def parked_def for_now_def ac_simps del: mset_map)
  next
    case (Parked x)
    with IH delay names_distinct [of ns] steps(1) [of "c ?D @ parked sends" "[parcel_of s body rt]"]
      tw [of "c ?D @ parked sends" "[parcel_of s body rt]"] show ?thesis
      by (simp add: m broker_at_snoc at deliver_to_def parked_def for_now_def ac_simps del: mset_map)
  qed
qed

text \<open>C17: Every message the queue publishes reaches the work queue, and when. Once \<open>start\<close> has returned,
  whatever topology and whatever messages the broker held before, and for any publishes from then on:
  at any later instant, with nobody consuming, the work queue holds what it held before, every message
  published for now, and of the parked ones those at the head of the parking queue whose delays are
  over. A parked message so waits for its own delay and for the delay of every message parked before
  it, as the comment in \<open>start\<close> warns: 30 s behind half an hour is half an hour. The parking queue
  must not itself be bound to the exchange with the work key. A second consumer that starts later
  changes none of it.\<close>

theorem published_reaches_work:
  assumes "start_queue fails ns n interval t = (True, c, t')"
    and "\<forall>x \<in> set start_steps. \<not> fails' x"
    and "delay_name ns \<notin> lands_in t' (Some (exchange_name ns)) WORK_KEY"
    and "sorted (map fst sends @ [now])"
  shows "broker_at t' ns sends now before (delay_name ns) =
       dropWhile (past_ttl now) (before (delay_name ns) @ parked sends) \<and>
     mset (map p_body (broker_at t' ns sends now before (work_name ns))) =
       mset (map p_body (before (work_name ns))) + mset (for_now sends) +
       mset (map p_body (takeWhile (past_ttl now) (before (delay_name ns) @ parked sends))) \<and>
     fst (start_queue fails' ns n' i' t') \<and> snd (snd (start_queue fails' ns n' i' t')) = t'"
  using broker_at_holds [OF started(1) [OF assms(1)] assms(3,4)] started(6) [OF assms(1,2)] by blast

definition empty_broker :: topology where
  "empty_broker = \<lparr>exchanges = (\<lambda>_. None), queues = (\<lambda>_. None), bindings = []\<rparr>"

definition demo_started :: "bool \<times> client \<times> topology" where
  "demo_started = start_queue (\<lambda>_. False) ''abacus'' 1 30000000 empty_broker"

lemma demo_started_True: "demo_started = (True, fst (snd demo_started), snd (snd demo_started))"
  by (simp add: demo_started_def start_queue_def start_steps_def new_client_def declare_exchange_def
      declare_queue_def bind_queue_def empty_broker_def work_name_def delay_name_def)

text \<open>A job parked for 30 behind one parked for 1800: at 100 neither has left, at 1801 both have.\<close>

definition demo_sends :: "(time \<times> string \<times> route) list" where
  "demo_sends = [(0, ''long'', Parked 1800), (1, ''short'', Parked 30), (2, ''now'', Work)]"

theorem published_reaches_work_witness:
  "mset (map p_body (broker_at (snd (snd demo_started)) ''abacus'' demo_sends 100 (\<lambda>_. []) ''abacus.jobs.work'')) =
     {#''now''#} \<and>
   mset (map p_body (broker_at (snd (snd demo_started)) ''abacus'' demo_sends 1801 (\<lambda>_. []) ''abacus.jobs.work'')) =
     {#''now'', ''long'', ''short''#}"
proof -
  have free: "delay_name ''abacus'' \<notin> lands_in (snd (snd demo_started)) (Some (exchange_name ''abacus'')) WORK_KEY"
    by (simp add: demo_started_def start_queue_def start_steps_def new_client_def declare_exchange_def
        declare_queue_def bind_queue_def empty_broker_def work_name_def delay_name_def lands_in_def)
  have "start_queue (\<lambda>_. False) ''abacus'' 1 30000000 empty_broker =
      (True, fst (snd demo_started), snd (snd demo_started))"
    unfolding demo_started_def [symmetric] by (rule demo_started_True)
  note p = published_reaches_work [OF this, of "\<lambda>_. False" demo_sends _ "\<lambda>_. []" 1 1, OF _ free]
  show ?thesis
    using p [of 100] p [of 1801]
    by (simp add: demo_sends_def parked_def for_now_def past_ttl_def work_name_def)
qed

subsection \<open>Starting and stopping\<close>

lemma run_close_keeps: "connected (fst (snd (run_close fails xs s))) \<longleftrightarrow> connected (fst s)"
  if "CloseConnection \<notin> set xs"
  using that
proof (induction xs arbitrary: s)
  case Nil
  then show ?case by simp
next
  case (Cons x xs)
  have "connected (fst (close_step x s)) = connected (fst s)"
    using Cons.prems by (cases s; cases x) auto
  with Cons show ?case by simp
qed

lemma run_close_maintaining: "maintaining (fst (snd (run_close fails xs s))) = maintaining (fst s)"
proof (induction xs arbitrary: s)
  case Nil
  then show ?case by simp
next
  case (Cons x xs)
  have "maintaining (fst (close_step x s)) = maintaining (fst s)"
    by (cases s; cases x) auto
  with Cons show ?case by simp
qed

text \<open>\<open>close\<close> always gives the consumer up. Whatever raises on the way (the maintenance task, deleting a
  queue or the exchange), the maintenance loop is stopped and the connection is closed, and with it the
  consumer is gone from the broker; only the closing of the connection itself can leave it open.\<close>

theorem close_drops_the_connection:
  assumes "\<not> fails CloseConnection"
  shows "\<not> connected (fst (snd (close_queue fails delete_queues s))) \<and>
     \<not> maintaining (fst (snd (close_queue fails delete_queues s)))"
proof -
  let ?s = "((fst s)\<lparr>maintaining := False\<rparr>, snd s)"
  obtain r c t where r: "run_close fails (close_steps delete_queues (fst s)) ?s = (r, c, t)"
    by (metis prod.collapse)
  with run_close_maintaining [of fails "close_steps delete_queues (fst s)" ?s]
  have "\<not> maintaining c" by simp
  with r assms show ?thesis by (simp add: close_queue_def)
qed

theorem close_drops_the_connection_witness:
  "\<not> connected (fst (snd (close_queue (\<lambda>x. x = DeleteWork) True (snd demo_started))))"
  using close_drops_the_connection [of "\<lambda>x. x = DeleteWork" True "snd demo_started"] by simp

text \<open>A start that fails after it has connected returns nothing to close: the connection stays open, and
  from the moment the consumer is registered the broker goes on delivering to it.\<close>

theorem failed_start_leaks_the_connection:
  assumes "start_queue fails ns n interval t = (False, c, t')" "\<not> fails ConnectRobust"
  shows "connected c"
proof -
  have keep: "connected c'" if "start_step x (c0, t0) = Some (c', t1)" "connected c0" for x c0 t0 c' t1
    using that by (cases x) auto
  have run: "connected (fst (snd (run_start fails xs (c0, t0))))" if "connected c0" for xs c0 t0
    using that
  proof (induction xs arbitrary: c0 t0)
    case (Cons x xs)
    then show ?case using keep by (auto split: option.splits)
  qed simp
  have "start_queue fails ns n interval t =
      run_start fails (tl start_steps) ((new_client ns n interval)\<lparr>connected := True\<rparr>, t)"
    using assms(2) by (simp add: start_queue_def start_steps_def)
  with run [of "(new_client ns n interval)\<lparr>connected := True\<rparr>" "tl start_steps" t] assms(1)
  show ?thesis by simp
qed

end
