(* ===== verification/Rabbit_Limits.thy ===== *)
theory Rabbit_Limits
  imports Rabbit_Topology
begin

text \<open>
  What the broker's delivery limit does to a job. The work queue is declared with a limit of 20: a
  message that has been requeued as often, by consumers that died before they could claim anything,
  is dropped, and the queue names no exchange for it. The row does not see it: the job is still
  waiting and still marked as published. The theorem follows such a row through any number of
  maintenance passes.
\<close>

subsection \<open>Actions that keep a condition\<close>

definition holds :: "(world \<Rightarrow> bool) \<Rightarrow> 'a act \<Rightarrow> ('a \<Rightarrow> bool) \<Rightarrow> bool" where
  "holds K m Q \<longleftrightarrow> (\<forall>w. K w \<longrightarrow> K (snd (m w)) \<and> (\<forall>x. fst (m w) = Inr x \<longrightarrow> Q x))"

lemma holds_thenA:
  assumes "holds K m Q" "\<And>x. Q x \<Longrightarrow> holds K (f x) R"
  shows "holds K (thenA m f) R"
  unfolding holds_def
proof (intro allI impI)
  fix w
  assume w: "K w"
  obtain r w1 where m: "m w = (r, w1)" by force
  with assms(1) w have k1: "K w1" "\<forall>x. r = Inr x \<longrightarrow> Q x" unfolding holds_def by fastforce+
  show "K (snd (thenA m f w)) \<and> (\<forall>x. fst (thenA m f w) = Inr x \<longrightarrow> R x)"
  proof (cases r)
    case (Inl e)
    with m k1 show ?thesis by (simp add: thenA_def)
  next
    case (Inr x)
    with k1 assms(2) have "holds K (f x) R" by simp
    with m Inr k1(1) show ?thesis by (simp add: thenA_def holds_def)
  qed
qed

lemma holds_updateA: "(\<And>w. K w \<Longrightarrow> K (g w)) \<Longrightarrow> holds K (updateA g) (\<lambda>_. True)"
  by (simp add: holds_def updateA_def)

lemma holds_returnA: "holds K (returnA x) (\<lambda>_. True)"
  by (simp add: holds_def returnA_def)

lemma holds_forA: "\<forall>x \<in> set xs. holds K (f x) (\<lambda>_. True) \<Longrightarrow> holds K (forA f xs) (\<lambda>_. True)"
proof (induction xs)
  case Nil
  then show ?case by (simp add: holds_def)
next
  case (Cons x xs)
  have "holds K (thenA (f x) (\<lambda>_. forA f xs)) (\<lambda>_. True)"
    by (rule holds_thenA [where Q = "\<lambda>_. True"]) (use Cons in simp_all)
  then show ?case by (simp add: holds_def)
qed

subsection \<open>A published job nobody delivers\<close>

definition offers :: "uuid \<Rightarrow> world \<Rightarrow> (string \<times> route) list" where
  "offers jid w = filter (\<lambda>x. fst x = uuid_str jid) (on_the_wire w)"

definition unseen :: "job_row \<Rightarrow> (string \<times> route) list \<Rightarrow> world \<Rightarrow> bool" where
  "unseen r out w \<longleftrightarrow> sys_ok (w_db w) \<and> r \<in> set (jobs (w_db w)) \<and> offers (job_id r) w = out"

definition waits_published :: "job_row \<Rightarrow> bool" where
  "waits_published r \<longleftrightarrow> (state r = QUEUED \<or> state r = FAILED) \<and> published_at r \<noteq> None"

lemma unseen_release [simp]: "unseen r out (release jid token w) = unseen r out w"
  by (simp add: unseen_def release_frame offers_def on_the_wire_release)

lemma unseen_releases: "unseen r out w \<Longrightarrow> unseen r out (fold (\<lambda>j. release j None) ids w)"
  by (induction ids arbitrary: w) simp_all

lemma unseen_publish: "j \<noteq> job_id r \<Longrightarrow> unseen r out w \<Longrightarrow> unseen r out (snd (publish env y j delay w))"
  by (auto simp: publish_def Let_def unseen_def offers_def on_the_wire_def uuid_str_inj split: link.splits)

lemma holds_store_call:
  assumes quiet: "env_ops env = {}"
    and t: "\<And>now db x db'. sys_ok db \<Longrightarrow> r \<in> set (jobs db) \<Longrightarrow> t now db = Inr (x, db') \<Longrightarrow>
      sys_ok db' \<and> r \<in> set (jobs db') \<and> Q x"
  shows "holds (unseen r out) (store_call env c t) Q"
  unfolding holds_def
proof (intro allI impI)
  fix w
  assume u: "unseen r out w"
  obtain a w1 where s: "store_call env c t w = (a, w1)" by force
  have o: "others env c = []" using quiet unfolding env_ops_def by (metis (mono_tags, lifting) empty_iff last_in_set mem_Collect_eq)
  have "sent w1 = sent w" using store_call_frame [OF s] by simp
  then have wire: "offers (job_id r) w1 = offers (job_id r) w" by (simp add: offers_def on_the_wire_def)
  have db: "sys_ok (w_db w)" "r \<in> set (jobs (w_db w))" using u by (simp_all add: unseen_def)
  have "sys_ok (w_db w1) \<and> r \<in> set (jobs (w_db w1)) \<and> (\<forall>x. a = Inr x \<longrightarrow> Q x)"
    using s db o t [OF db, of "clock env c"]
    by (auto simp: store_call_def call_txn_def Let_def split: link.splits sum.splits prod.splits option.splits)
  with u wire s show "unseen r out (snd (store_call env c t w)) \<and> (\<forall>x. fst (store_call env c t w) = Inr x \<longrightarrow> Q x)"
    by (simp add: unseen_def)
qed

lemma job_id_eq: "sys_ok db \<Longrightarrow> a \<in> set (jobs db) \<Longrightarrow> b \<in> set (jobs db) \<Longrightarrow> job_id a = job_id b \<Longrightarrow> a = b"
  using same_job [of "{}" db a b] by (simp add: sys_ok_def db_ok_def)

lemma not_listed:
  assumes "sys_ok db" "r \<in> set (jobs db)" "\<not> P r"
  shows "job_id r \<notin> set (map job_id (filter P (jobs db)))"
  using job_id_eq [OF assms(1,2)] assms(3) by auto

lemma retire_keeps:
  assumes "sys_ok db" "r \<in> set (jobs db)" "retire_lapsed now db = Inr (ids, db')" "waits_published r"
  shows "sys_ok db' \<and> r \<in> set (jobs db')"
proof -
  have "jobs db' = update_where (lapsed_for_good now) (retired_row now) (jobs db)"
    using retire_lapsed_ok [of db now] assms(1,3) by (auto simp: sys_ok_def)
  moreover have "\<not> lapsed_for_good now r" using assms(4) by (auto simp: lapsed_for_good_def waits_published_def)
  ultimately show ?thesis
    using assms(2) txn_sys_ok(5) [OF assms(1,3)] by (simp add: set_update_where)
qed

lemma sweep_unseen:
  assumes p: "waits_published r" and q: "env_ops env = {}"
  shows "holds (unseen r out) (rmq_sweep env) (\<lambda>_. True)"
proof -
  have mark: "holds (unseen r out) (mark env y j) (\<lambda>_. True)" if "j \<noteq> job_id r" for y j
    unfolding mark_def
    by (rule holds_store_call [OF q])
       (use that in \<open>auto simp: mark_published_def set_update_where dest: txn_sys_ok(2)\<close>)
  have pub: "holds (unseen r out) (publish env y j d) (\<lambda>_. True)" if "j \<noteq> job_id r" for y j d
    using unseen_publish [OF that] by (simp add: holds_def)
  have retire: "holds (unseen r out) (store_call env CRetire retire_lapsed) (\<lambda>_. True)"
    by (rule holds_store_call [OF q])
       (use p retire_keeps in blast)
  have stale: "holds (unseen r out) (store_call env CLapsed (reading lapsed_reservable)) (\<lambda>ids. job_id r \<notin> set ids)"
    by (rule holds_store_call [OF q])
       (use p not_listed [of _ r "lapsed _"] in
         \<open>auto simp: reading_def lapsed_reservable_def waits_published_def lapsed_def simp del: set_map\<close>)
  have orphans: "holds (unseen r out) (store_call env CUnpublished (reading (\<lambda>now. unpublished now (orphan_after env))))
      (\<lambda>ids. job_id r \<notin> set ids)"
    by (rule holds_store_call [OF q])
       (use p not_listed [of _ r "\<lambda>r. published_at r = None \<and> (state r = QUEUED \<or> state r = FAILED) \<and>
          run_after r < now - orphan_after env" for now] in
         \<open>auto simp: reading_def unpublished_def waits_published_def simp del: set_map\<close>)
  have re: "holds (unseen r out) (reoffer env j) (\<lambda>_. True)" if "j \<noteq> job_id r" for j
  proof -
    have "holds (unseen r out) (thenA (publish env Lapsed j None)
        (\<lambda>_. updateA (\<lambda>w2. w2\<lparr>republished := (republished w2)(j \<mapsto> loop_time env)\<rparr>))) (\<lambda>_. True)"
      by (rule holds_thenA [OF pub [OF that]], rule holds_updateA)
         (simp add: unseen_def offers_def on_the_wire_def)
    then show ?thesis by (auto simp: holds_def reoffer_def Let_def)
  qed
  have rep: "holds (unseen r out) (republish env j) (\<lambda>_. True)" if "j \<noteq> job_id r" for j
    unfolding republish_def by (rule holds_thenA [OF pub [OF that]]) (rule mark [OF that])
  have prune: "holds (unseen r out) (updateA (prune env)) (\<lambda>_. True)"
    by (rule holds_updateA) (simp add: prune_def unseen_def offers_def on_the_wire_def)
  have tail: "holds (unseen r out) (thenA (forA (republish env) ids) (\<lambda>_. updateA (prune env))) (\<lambda>_. True)"
    if "job_id r \<notin> set ids" for ids
  proof -
    have "holds (unseen r out) (forA (republish env) ids) (\<lambda>_. True)"
      by (rule holds_forA) (use that in \<open>auto intro!: rep\<close>)
    from holds_thenA [OF this prune] show ?thesis .
  qed
  note tail' = holds_thenA [OF orphans tail]
  have offer: "holds (unseen r out) (thenA (forA (reoffer env) ids) (\<lambda>_. thenA
      (store_call env CUnpublished (reading (\<lambda>now. unpublished now (orphan_after env))))
      (\<lambda>orphans. thenA (forA (republish env) orphans) (\<lambda>_. updateA (prune env))))) (\<lambda>_. True)"
    if "job_id r \<notin> set ids" for ids
  proof -
    have "holds (unseen r out) (forA (reoffer env) ids) (\<lambda>_. True)"
      by (rule holds_forA) (use that in \<open>auto intro!: re\<close>)
    from holds_thenA [OF this tail'] show ?thesis .
  qed
  note offer' = holds_thenA [OF stale offer]
  have freed: "holds (unseen r out) (updateA (fold (\<lambda>jid. release jid None) ids)) (\<lambda>_. True)" for ids
    by (rule holds_updateA) (rule unseen_releases)
  show ?thesis
    unfolding rmq_sweep_def by (rule holds_thenA [OF retire holds_thenA [OF freed offer']])
qed

text \<open>C21: The sweep does not see a dropped message. A job that is waiting and marked as published is left
  alone by every maintenance pass, however many there are, whenever they run and whatever of their
  calls fail: as long as no other process touches it, its row stays as it is and it is never offered
  again. So when the broker drops its message at the delivery limit, the job waits for ever, although
  a claim would be granted.\<close>

theorem dropped_message_strands_job:
  assumes "sys_ok (w_db w)" "r \<in> set (jobs (w_db w))"
    and "state r = QUEUED \<or> state r = FAILED" "published_at r \<noteq> None"
    and "\<forall>env \<in> set envs. env_ops env = {}" and w': "w' = fold maintenance_pass envs w"
  shows "r \<in> set (jobs (w_db w')) \<and> offers (job_id r) w' = offers (job_id r) w"
proof -
  have p: "waits_published r" using assms(3,4) by (simp add: waits_published_def)
  have "unseen r out (fold maintenance_pass envs w)"
    if "unseen r out w" "\<forall>env \<in> set envs. env_ops env = {}" for out w envs
    using that
  proof (induction envs arbitrary: w)
    case (Cons env envs)
    have "unseen r out (maintenance_pass env w)"
      using sweep_unseen [OF p, of env out] Cons.prems by (auto simp: holds_def maintenance_pass_def)
    with Cons show ?case by simp
  qed simp
  then show ?thesis using assms(1,2,5) w' by (simp add: unseen_def)
qed

definition published_db :: db where
  "published_db = demo_queued\<lparr>jobs := [published_row 6 (new_row 5 1 demo_request)]\<rparr>"

lemma published_db_ok: "sys_ok published_db"
proof -
  have "sys_ok (run [MarkPublished 6 1] demo_queued)" by (rule run_sys_ok [OF demo_queued_ok])
  moreover have "run [MarkPublished 6 1] demo_queued = published_db"
    by (simp add: published_db_def mark_published_def demo_queued_jobs commit_def) (simp add: new_row_def)
  ultimately show ?thesis by simp
qed

theorem dropped_message_strands_job_witness:
  "offers 1 (fold maintenance_pass [demo_env, demo_env] (idle_world published_db)) = [] \<and>
   waiting 10 (published_row 6 (new_row 5 1 demo_request))"
proof -
  let ?r = "published_row 6 (new_row 5 1 demo_request)"
  have "env_ops demo_env = {}" by (simp add: env_ops_def demo_env_def)
  moreover have "job_id ?r = 1" "state ?r = QUEUED" "published_at ?r \<noteq> None"
    by (simp_all add: published_row_def new_row_def)
  ultimately have "offers 1 (fold maintenance_pass [demo_env, demo_env] (idle_world published_db)) =
      offers 1 (idle_world published_db)"
    using dropped_message_strands_job
      [of "idle_world published_db" ?r "[demo_env, demo_env]", OF _ _ _ _ _ refl] published_db_ok
    by (simp add: idle_world_def published_db_def)
  then show ?thesis
    by (simp add: idle_world_def offers_def on_the_wire_def waiting_def published_row_def new_row_def demo_request_def request_def)
qed

end
