(* ===== verification/Composition.thy ===== *)
theory Composition
  imports Clients
begin

text \<open>
  Where the parts are put together: the probes of \<open>api/health.py\<close> and the life of a worker process in
  \<open>worker/__main__.py\<close>. What a dependency answers to its ping, and when, is an argument, and so is which
  call of the start or the shutdown raises.
\<close>

subsection \<open>Probes\<close>

text \<open>\<open>wait_for(ping, timeout)\<close>: what the probe reports of it, and how long it took.\<close>

definition run_check :: "time \<Rightarrow> ping \<Rightarrow> string option \<times> time" where
  "run_check timeout p =
     (case p of
        Answers d \<Rightarrow> if d < timeout then (None, d) else (Some ''TimeoutError: '', timeout)
      | Fails d ty msg \<Rightarrow> if d < timeout then (Some (ty @ '': '' @ msg), d) else (Some ''TimeoutError: '', timeout)
      | Hangs \<Rightarrow> (Some ''TimeoutError: '', timeout))"

datatype probe_reply =
    Ready "string list"
  | Unavailable "(string \<times> string) list"

fun status_code :: "probe_reply \<Rightarrow> int" where
  "status_code (Ready checks) = 200"
| "status_code (Unavailable failed) = 503"

definition livez :: "(string \<times> string) list" where
  "livez = [(''status'', ''ok'')]"

text \<open>The checks run at once, so the reply takes as long as the slowest of them.\<close>

definition readyz :: "settings \<Rightarrow> ping \<Rightarrow> ping \<Rightarrow> probe_reply \<times> time" where
  "readyz cfg postgres rabbitmq =
     (let timeout = seconds (readiness_timeout_seconds cfg);
          results = [(''postgres'', run_check timeout postgres), (''rabbitmq'', run_check timeout rabbitmq)];
          failures = concat (map (\<lambda>(n, err, d). case err of Some e \<Rightarrow> [(n, e)] | None \<Rightarrow> []) results);
          took = max (snd (run_check timeout postgres)) (snd (run_check timeout rabbitmq))
      in (if failures \<noteq> [] then Unavailable failures else Ready (map fst results), took))"

fun answered_by :: "time \<Rightarrow> ping \<Rightarrow> bool" where
  "answered_by timeout (Answers d) = (d < timeout)"
| "answered_by timeout _ = False"

text \<open>A readiness probe never hangs, and is ready exactly when both dependencies answered in time.\<close>

theorem readyz_is_bounded:
  "snd (readyz cfg postgres rabbitmq) \<le> seconds (readiness_timeout_seconds cfg) \<and>
   (status_code (fst (readyz cfg postgres rabbitmq)) = 200 \<longleftrightarrow>
      answered_by (seconds (readiness_timeout_seconds cfg)) postgres \<and>
      answered_by (seconds (readiness_timeout_seconds cfg)) rabbitmq)"
  by (cases postgres; cases rabbitmq) (auto simp: readyz_def run_check_def Let_def)

text \<open>Over the probes of \<open>Clients\<close>: a replica is ready exactly when the engine gave a connection, the query
  was answered and the connection handed back, and a new connection to the broker opened within two
  seconds and closed, each side inside the timeout. A broker that lets callers hang is a reply of 503
  that names a timeout.\<close>

theorem ready_means_both_reachable:
  "(\<exists>checks took. readyz cfg (db_ping c s h) (broker_ping b k) = (Ready checks, took)) \<longleftrightarrow>
   (\<exists>x y z. c = Answers x \<and> s = Answers y \<and> h = Answers z \<and>
      x + (y + z) < seconds (readiness_timeout_seconds cfg)) \<and>
   (\<exists>u v. b = Answers u \<and> u < seconds 2 \<and> k = Answers v \<and>
      u + v < seconds (readiness_timeout_seconds cfg))"
proof -
  let ?t = "seconds (readiness_timeout_seconds cfg)"
  have ready: "(\<exists>checks took. readyz cfg p q = (Ready checks, took)) \<longleftrightarrow>
      (\<exists>d. p = Answers d \<and> d < ?t) \<and> (\<exists>d. q = Answers d \<and> d < ?t)" for p q
    by (cases p; cases q) (simp_all add: readyz_def run_check_def Let_def)
  show ?thesis unfolding ready db_ping_Answers broker_ping_Answers by blast
qed

text \<open>\<open>GET /\<close>.\<close>

definition root_endpoint :: "(string \<times> string) list" where
  "root_endpoint = [(''service'', ''abacus''), (''docs'', ''/docs'')]"

subsection \<open>The worker's process\<close>

datatype main_call = StartStore | EnsureBucket | StartQueue | BuildSupervisor | RunLoop | CloseQueue | CloseStore | DisposeDb

text \<open>Calls in order up to the first that raises; the flag tells whether all of them returned.\<close>

fun perform :: "(main_call \<Rightarrow> bool) \<Rightarrow> main_call list \<Rightarrow> main_call list \<times> bool" where
  "perform raises [] = ([], True)"
| "perform raises (c # cs) =
     (if raises c then ([c], False) else (case perform raises cs of (done', ok) \<Rightarrow> (c # done', ok)))"

definition build_calls :: "settings \<Rightarrow> main_call list" where
  "build_calls cfg =
     [StartStore] @ (if deploy_env cfg = ''local'' then [EnsureBucket] else []) @ [StartQueue, BuildSupervisor]"

text \<open>Building the supervisor raises when the settings are refused; the shutdown runs whatever the loop did.\<close>

definition worker_main :: "settings \<Rightarrow> (main_call \<Rightarrow> bool) \<Rightarrow> main_call list \<times> bool" where
  "worker_main cfg raises =
     (let raises' = (\<lambda>c. raises c \<or> (c = BuildSupervisor \<and> (case from_settings cfg of Inl e \<Rightarrow> True | Inr w \<Rightarrow> False))) in
      case perform raises' (build_calls cfg) of
        (calls, False) \<Rightarrow> (calls, False)
      | (calls, True) \<Rightarrow>
          (case perform raises' [CloseQueue, CloseStore, DisposeDb] of
             (closing, ok) \<Rightarrow> (calls @ [RunLoop] @ closing, ok \<and> \<not> raises' RunLoop)))"

lemma perform_all: "\<forall>c \<in> set cs. \<not> raises c \<Longrightarrow> perform raises cs = (cs, True)"
  by (induction cs) auto

text \<open>A worker that came up gives everything back, the queue first, whatever ended its loop; only a
  deployment that calls itself local creates its bucket; and settings that are refused never reach the
  loop.\<close>

theorem worker_gives_back:
  assumes "from_settings cfg = Inr w" "\<forall>c. c \<noteq> RunLoop \<longrightarrow> \<not> raises c"
  shows "fst (worker_main cfg raises) = build_calls cfg @ [RunLoop, CloseQueue, CloseStore, DisposeDb] \<and>
     (EnsureBucket \<in> set (fst (worker_main cfg raises)) \<longleftrightarrow> deploy_env cfg = ''local'')"
proof -
  let ?r = "\<lambda>c. raises c \<or> (c = BuildSupervisor \<and> (case from_settings cfg of Inl e \<Rightarrow> True | Inr w \<Rightarrow> False))"
  have "perform ?r (build_calls cfg) = (build_calls cfg, True)"
    by (rule perform_all) (use assms in \<open>auto simp: build_calls_def\<close>)
  moreover have "perform ?r [CloseQueue, CloseStore, DisposeDb] = ([CloseQueue, CloseStore, DisposeDb], True)"
    by (rule perform_all) (use assms in auto)
  ultimately show ?thesis by (simp add: worker_main_def Let_def) (auto simp: build_calls_def)
qed

lemma perform_refused: "raises c \<Longrightarrow> c \<in> set cs \<Longrightarrow> snd (perform raises cs) = False"
  by (induction cs) (auto split: prod.splits)

theorem refused_settings_never_run:
  assumes "from_settings cfg = Inl e"
  shows "RunLoop \<notin> set (fst (worker_main cfg raises)) \<and> \<not> snd (worker_main cfg raises)"
proof -
  let ?r = "\<lambda>c. raises c \<or> (c = BuildSupervisor \<and> (case from_settings cfg of Inl e \<Rightarrow> True | Inr w \<Rightarrow> False))"
  have "snd (perform ?r (build_calls cfg)) = False"
    by (rule perform_refused [of _ BuildSupervisor]) (use assms in \<open>auto simp: build_calls_def\<close>)
  moreover have "set (fst (perform ?r cs)) \<subseteq> set cs" for cs
    by (induction cs) (auto split: prod.splits)
  from this [of "build_calls cfg"] have "RunLoop \<notin> set (fst (perform ?r (build_calls cfg)))"
    by (auto simp: build_calls_def)
  ultimately show ?thesis
    by (cases "perform ?r (build_calls cfg)") (simp add: worker_main_def Let_def)
qed

subsection \<open>Signals\<close>

text \<open>What a process does on a signal. \<open>spawn\<close> execs a fresh interpreter, which keeps ignored signals
  ignored and forgets every handler; the child then resets the two it must be stoppable by.\<close>

datatype disposition = ByDefault | Ignored | Stops_the_loop

definition SIGINT :: int where "SIGINT = 2"
definition SIGTERM :: int where "SIGTERM = 15"

definition worker_signals :: "(int \<Rightarrow> disposition) \<Rightarrow> int \<Rightarrow> disposition" where
  "worker_signals = fold (\<lambda>sig d. d(sig := Stops_the_loop)) [SIGTERM, SIGINT]"

definition exec_keeps :: "(int \<Rightarrow> disposition) \<Rightarrow> int \<Rightarrow> disposition" where
  "exec_keeps d sig = (if d sig = Ignored then Ignored else ByDefault)"

definition child_resets :: "(int \<Rightarrow> disposition) \<Rightarrow> int \<Rightarrow> disposition" where
  "child_resets = fold (\<lambda>sig d. d(sig := ByDefault)) [SIGTERM, SIGINT]"

text \<open>Whatever its parent was started under, a child can be stopped by either signal; without the reset
  that would fail exactly for a parent that ignores the signal, which a worker never does.\<close>

lemma child_is_stoppable:
  assumes "sig \<in> {SIGTERM, SIGINT}"
  shows "child_resets (exec_keeps d) sig = ByDefault" "exec_keeps d sig \<noteq> ByDefault \<longleftrightarrow> d sig = Ignored"
    "worker_signals d sig = Stops_the_loop" "exec_keeps (worker_signals d) sig = ByDefault"
  using assms by (auto simp: child_resets_def exec_keeps_def worker_signals_def SIGTERM_def SIGINT_def)

lemma other_signals_untouched:
  "sig \<notin> {SIGTERM, SIGINT} \<Longrightarrow> worker_signals d sig = d sig \<and> child_resets d sig = d sig"
  by (auto simp: worker_signals_def child_resets_def)

subsection \<open>The owner's name\<close>

definition default_owner :: "string \<Rightarrow> nat \<Rightarrow> string" where
  "default_owner host pid = host @ ''/'' @ nat_digits pid"

text \<open>Two processes of one host never share a name.\<close>

lemma nat_digits_inj: "nat_digits m = nat_digits n \<Longrightarrow> m = n"
proof (induction m arbitrary: n rule: nat_digits.induct)
  case (1 m)
  have digit: "a = b" if "''0123456789'' ! a = ''0123456789'' ! b" "a < 10" "b < 10" for a b
    using that nth_eq_iff_index_eq [of "''0123456789''" a b] by simp
  have some: "nat_digits k \<noteq> []" for k by (subst nat_digits.simps) simp
  show ?case
  proof (cases "m < 10")
    case True
    with 1(2) some [of "n div 10"] have "n < 10" by (subst (asm) (1 2) nat_digits.simps) (auto split: if_splits)
    with 1(2) True digit [of m n] show ?thesis by (subst (asm) (1 2) nat_digits.simps) simp
  next
    case False
    with 1(2) some [of "m div 10"] have n: "\<not> n < 10" by (subst (asm) (1 2) nat_digits.simps) (auto split: if_splits)
    have "nat_digits (m div 10) = nat_digits (n div 10)" "''0123456789'' ! (m mod 10) = ''0123456789'' ! (n mod 10)"
      using 1(2) False n by (subst (asm) (1 2) nat_digits.simps, simp)+
    with 1(1) [OF False] digit [of "m mod 10" "n mod 10"] have "m div 10 = n div 10" "m mod 10 = n mod 10" by simp_all
    then show ?thesis by (metis div_mult_mod_eq)
  qed
qed

lemma owner_names_the_process: "default_owner host pid = default_owner host pid' \<longleftrightarrow> pid = pid'"
  using nat_digits_inj by (auto simp: default_owner_def)

end
