(* ===== verification/Spec2Isabelle.thy ===== *)
theory Spec2Isabelle
  imports Chat_Contract Chat_Exchange Job_Progress Job_Recovery Shutdown Sockets Solve_Script Handshake Migration_Env Solve_Process Dev_Scripts Rabbit_Limits Composition
begin

text \<open>
  A verification development for abacus: a chat server that talks to browsers over WebSockets, a
  session log in Postgres, and a queue of solve jobs that workers take from RabbitMQ, run in child
  processes and store as objects in S3. All code below \<open>src/\<close> is Python.

  \<^bold>\<open>The parts and how they meet.\<close> The database is the centre: \<open>adapters/postgres/job_store.py\<close>
  owns the rows of jobs, \<open>adapters/postgres/chat_repository.py\<close> the rows of messages, and both draw the
  numbers of a session's log from one allocator (\<open>adapters/postgres/seq.py\<close>). The API vets a handshake
  (\<open>api/chat.py\<close>), registers the connection (\<open>core/ws.py\<close>) and drives it (\<open>core/chat_handler.py\<close>). The
  queue (\<open>adapters/rabbitmq/job_queue.py\<close>) keeps the row and the broker's message together; the worker
  (\<open>worker/supervisor.py\<close>) leases a job from it, watches a child (\<open>worker/process.py\<close>,
  \<open>worker/child.py\<close>), uploads what it returns (\<open>adapters/s3/object_store.py\<close>) and ends the lease.

  \<^bold>\<open>Theories and sources.\<close>
  \<^item> \<open>Prelude\<close>: results that may be errors, updates of the rows that satisfy a condition, sorted merges,
    decimal texts; the collections \<open>result_simps\<close>, \<open>table_simps\<close>. \<open>Py_Text\<close>: what the code uses of Python's
    \<open>repr\<close>, \<open>str\<close>, \<open>int\<close>, truth and \<open>split\<close>.
  \<^item> \<open>Jobs\<close>, \<open>Messages\<close>, \<open>Frames\<close>, \<open>Config\<close>: the vocabulary of \<open>core/jobs.py\<close>,
    \<open>core/chat_repository.py\<close>, \<open>core/frames.py\<close>, and the settings of \<open>core/config.py\<close> with the durations
    of \<open>worker/config.py\<close>. A float is the rational it denotes, a duration counts microseconds.
  \<^item> \<open>Tables\<close>, \<open>Job_Store\<close>, \<open>Chat_Repository\<close>: one definition per statement of the two stores. An operation
    is a function from the database to an error or a result with the new database; the instant
    \<open>now()\<close> and a fresh \<open>uuid4\<close> are arguments.
  \<^item> \<open>Schema\<close>, \<open>Migrations\<close>: the declarations of \<open>adapters/postgres/tables.py\<close> and the revisions of
    \<open>alembic/versions\<close>, as schemas and lists of schema operations. \<open>Migration_Env\<close>: \<open>alembic/env.py\<close>, a
    migration run online and one written out as a script.
  \<^item> \<open>System\<close>: the database as its clients see it, any interleaving of transactions with any arguments
    (\<open>run\<close>, \<open>reachable\<close>). \<open>Job_Progress\<close>: the leases such a run hands out for one job, and runs in rounds
    that each end with a sweep and a claim. \<open>Calls\<close>: a transaction over a link that answers, fails or loses the reply.
  \<^item> \<open>Memory_Queue\<close>, \<open>Queue_Contract\<close>: the in-memory queue of \<open>tests/MemoryJobQueue.py\<close>, which states the
    intended semantics; the locale \<open>job_queue\<close> with the laws of the protocol in \<open>core/jobs.py\<close>,
    interpreted on it and on the table, and the refinement of the one by the other.
  \<^item> \<open>Mock_Repository\<close>, \<open>Chat_Contract\<close>: the dictionaries of \<open>tests/MockChatRepository.py\<close> and the
    refinement of them by the Postgres repository; the locale \<open>chat_log\<close> with the laws of the protocol in
    \<open>core/chat_repository.py\<close>, interpreted on both.
  \<^item> \<open>Uuid\<close>, \<open>Rabbit_Queue\<close>: the text of an identifier, and the queue over the broker. Its state is the
    object's own, the database, the deliveries the broker counts as outstanding, and what was sent.
    \<open>Rabbit_Topology\<close>: starting and closing it, and the exchange and queues it declares.
  \<^item> \<open>Ws\<close>, \<open>Chat_Handler\<close>, \<open>Handshake\<close>: a connection's bounded queue and its writer, the registry, the
    handler as a machine whose events are the stretches of code between two awaits, the route.
    \<open>Sockets\<close>: the exceptions of the socket below. \<open>Chat_Exchange\<close>: the stub responder of \<open>core/responder.py\<close> and one whole exchange.
  \<^item> \<open>Solve\<close>, \<open>Artifacts\<close>, \<open>Supervisor\<close>: both sides of the process boundary; the protocol of
    \<open>core/artifacts.py\<close> as the locale \<open>object_store\<close>, interpreted on the S3 store and on the in-memory
    store of \<open>tests/MemoryObjectStore.py\<close>; the supervisor with its six endings. \<open>Solve_Process\<close>: the handle
    of \<open>worker/process.py\<close> as a machine of calls, collector turns and kernel events. \<open>Solvers\<close>: the
    synthetic solver of \<open>worker/solvers.py\<close> on a machine whose clock and conversions are arguments.
  \<^item> \<open>Job_Journey\<close>: one job through the queue, the worker, the child and the store; \<open>Job_Recovery\<close>: the
    same after its worker died. \<open>Clients\<close>: the engine of \<open>adapters/postgres/db.py\<close>, the two pings and the
    S3 client, over calls that answer, raise or hang. \<open>Composition\<close>: the probes of \<open>api/health.py\<close>, the life
    of \<open>worker/__main__.py\<close> and the signals of the worker and its child. \<open>Shutdown\<close>: the lifespan of
    \<open>api/main.py\<close> and the providers of \<open>api/deps.py\<close>. \<open>Dev_Scripts\<close>, \<open>Solve_Script\<close>: \<open>dev/enqueue.py\<close> and \<open>dev/solve.py\<close>.

  \<^bold>\<open>Environments.\<close> Nothing is assumed of the network, the broker, the clocks, the operating system or
  other processes beyond what a hypothesis names. Each call of the queue, of the handler and of the
  supervisor comes with an environment that says when it runs, what other processes commit before
  it, and whether its reply arrives. A theorem quantifies over all of them unless it says
  \<open>undisturbed\<close> (no failure, no other process). The watch of the supervisor runs over a list of
  wake-ups and answers \<open>None\<close> when the list is used up with the child still watched;
  \<open>watch_terminates\<close> shows how long a list is enough, from what \<open>asyncio.wait\<close> documents of a timeout.
  The polls of \<open>dev/enqueue.py\<close> are such a list as well: 7 and 601 of them are enough for its 3 and 300
  seconds at two a second (\<open>enqueue_script_ends\<close>). The burn of the synthetic solver is a partial
  function, which \<open>burn_holds_the_cpu\<close> shows to return on a clock that advances. Every other loop is
  structural recursion or has a measure.

  \<^bold>\<open>What is shown.\<close>
  \<^item> \<open>Store_Invariant\<close>, \<open>Store_Ops\<close>, \<open>Chat_Spec\<close>, \<open>System\<close>: every reachable database satisfies the whole
    invariant. \<open>Store_Properties\<close>: fencing, who may claim, terminal states, the state diagram, no job is
    stranded, sweeps and cancellation. \<open>Job_Progress\<close>: the attempts of a job are exactly the leases
    handed out for it, so \<open>max_attempts\<close> bounds them, and one more punctual round than it has attempts
    left ends it, which is a measure over the rounds. \<open>Chat_Properties\<close>: gap-free replay, pages, idempotent recording.
    \<open>Mock_Repository\<close>, \<open>Chat_Contract\<close>: the store does what the mock does, but for an unknown identifier; a stored turn is replayed whole.
  \<^item> \<open>Rabbit_Properties\<close>: every operation of the queue is a run of the store's transactions and of calls
    to the broker, given for every combination of answers; deliveries are accounted for on every path;
    the sweep repairs; and two defects (a claim that raises, a late \<open>mark_published\<close>).
    \<open>Rabbit_Topology\<close>: what is published reaches the work queue, and when, over the queues' contents at
    every instant with their head-of-line expiry; closing drops the connection, a failed start leaks it. \<open>Rabbit_Limits\<close>: a message dropped at the delivery limit
    strands its job.
  \<^item> \<open>Handler_Invariant\<close>, \<open>Handler_Steps\<close>, \<open>Handler_Properties\<close>: the invariant of a connection through every
    event; durable acknowledgements, ordered replies, what a resume delivers; and where it loses a
    reply or a replay. \<open>Chat_Exchange\<close>: a message is answered, streamed and stored, end to end.
  \<^item> \<open>Supervisor_Properties\<close>, \<open>Supervisor_Outcomes\<close>: the watch ends, each ending hands the delivery back
    (a child that cannot be started does not), a lease is renewed at any number of heartbeats, the worker's writes are transactions that present its own token, references always have their
    object, an artifact is written once, a fenced worker writes nothing, the row tells what the
    solver did. \<open>Solve_Process\<close>: everyone is told the same outcome, a stop needs no help, and one stop,
    its grace read off the events, is the function the supervisor is verified over. \<open>Job_Journey\<close>: from \<open>enqueue\<close> to the artifact's bytes.
    \<open>Job_Recovery\<close>: a job whose worker died is offered again and done, and the dead worker is refused.
  \<^item> \<open>Migrations\<close>: the revisions build exactly the declared schema, and each downgrade takes back its
    upgrade; \<open>Migration_Env\<close>: the script written offline from a database's revision does to it what the online run does.
    \<open>Composition\<close>: the readiness probe is bounded, and ready exactly when both dependencies answered; a
    child can be stopped by either signal whatever its parent ignored; the worker gives back what it started.
    \<open>Shutdown\<close>: a drain is bounded and a connection with room is told. \<open>Dev_Scripts\<close>: the script ends,
    and its exit status is what the row says for ever. \<open>Solve_Script\<close>: no child is left behind.
    \<open>Sockets\<close>: a disconnect ends the reading quietly, and two places where an exception or an order
    decides how the socket is closed.

  \<^bold>\<open>Not modelled.\<close> SQL, AMQP, HTTP, JSON and S3 are libraries: the model has the effect of the
  statements the code sends, and parses a frame through a parameter. Of \<open>adapters/postgres/db.py\<close> the
  sessions are the transactions of the repositories that open them, and the pool with its disposal is
  the library's; of \<open>alembic/env.py\<close> what autogenerate is configured with is left out. The methods of the
  protocols in \<open>core/\<close> have no bodies; their laws are the locales. Logging and printing are left out.
  The objects other workers upload are taken to be there from the start. A text with a NUL, which
  Postgres refuses, and a negative \<open>ws_resume_max_messages\<close> are left out. A responder may yield anything
  and is handed the text of the turn, which the model keeps and does not use.
\<close>

end
